(* ===== verification/Prelude.thy ===== *)
theory Prelude
  imports Main "HOL-Library.Word" "HOL-Library.AList" "HOL-Library.Sublist"
begin

text \<open>
  Shared vocabulary of the development: the machine integer types of the dataplane, checked
  access to a byte buffer, characters and \<open>std::tolower\<close>, \<open>std::string\<close> searching, and the
  association lists that stand for \<open>std::unordered_map\<close>.

  Undefined behaviour is a value. A computation that reads or writes memory has the type
  \<open>'a option\<close>, and \<open>None\<close> is the outcome of an access outside the object; a theorem that such a
  computation is never \<open>None\<close> is a memory-safety theorem.

  Sizes and offsets (\<open>size_t\<close>, 64 bits) are \<open>nat\<close>: every one of them is bounded by the length of
  an object in memory plus a small constant, so no addition of the modelled code wraps.
\<close>

unbundle bit_operations_syntax

named_theorems len_simps \<open>lengths of the buffers the dataplane builds\<close>
named_theorems mem_simps \<open>checked reads and writes\<close>
named_theorems inv_intros \<open>invariants kept by the operations\<close>

section \<open>Machine integers and bytes\<close>

type_synonym u8 = "8 word"
type_synonym u16 = "16 word"
type_synonym u32 = "32 word"
type_synonym u64 = "64 word"
type_synonym bytes = "u8 list"

text \<open>The two big-endian idioms of the code: \<open>(b0 << 8) | b1\<close> and \<open>x >> 8\<close>, \<open>x & 0xFF\<close>.\<close>

definition be16 :: "u8 \<Rightarrow> u8 \<Rightarrow> u16" where
  "be16 b0 b1 = push_bit 8 (ucast b0) OR ucast b1"

definition hi8 :: "u16 \<Rightarrow> u8" where
  "hi8 x = ucast (drop_bit 8 x)"

definition lo8 :: "u16 \<Rightarrow> u8" where
  "lo8 x = ucast (x AND 0xFF)"

lemma bit_255_iff: "bit (255 :: u16) n \<longleftrightarrow> n < 8"
proof -
  have "(255 :: u16) = mask 8" by (simp add: mask_eq_exp_minus_1)
  then have "bit (255 :: u16) n \<longleftrightarrow> bit (mask 8 :: u16) n" by (rule arg_cong)
  then show ?thesis by (auto simp only: bit_mask_iff) (auto simp: min_def)
qed

lemma lo8_alt: "lo8 x = ucast x"
proof (rule bit_word_eqI)
  fix n assume "n < LENGTH(8)"
  then have "bit (255 :: u16) n" by (simp only: bit_255_iff) simp
  with \<open>n < LENGTH(8)\<close> show "bit (lo8 x) n \<longleftrightarrow> bit (ucast x :: u8) n"
    by (simp only: lo8_def bit_ucast_iff bit_and_iff) simp
qed

lemma be16_hi_lo [simp]: "be16 (hi8 x) (lo8 x) = x"
proof (rule bit_word_eqI)
  fix n assume "n < LENGTH(16)"
  then show "bit (be16 (hi8 x) (lo8 x)) n \<longleftrightarrow> bit x n"
    by (cases "n < 8") (auto simp: be16_def hi8_def lo8_alt bit_simps)
qed

lemma hi8_be16 [simp]: "hi8 (be16 a b) = a"
proof (rule bit_word_eqI)
  fix n assume "n < LENGTH(8)"
  then show "bit (hi8 (be16 a b)) n \<longleftrightarrow> bit a n"
    by (auto simp: be16_def hi8_def bit_simps dest: bit_imp_le_length)
qed

lemma lo8_be16 [simp]: "lo8 (be16 a b) = b"
proof (rule bit_word_eqI)
  fix n assume "n < LENGTH(8)"
  then show "bit (lo8 (be16 a b)) n \<longleftrightarrow> bit b n"
    by (auto simp: be16_def lo8_alt bit_simps)
qed

section \<open>Checked access\<close>

text \<open>\<open>buffer[i]\<close> on a span or vector: \<open>None\<close> outside the buffer.\<close>

definition rd :: "'a list \<Rightarrow> nat \<Rightarrow> 'a option" where
  "rd xs i = (if i < length xs then Some (xs ! i) else None)"

text \<open>\<open>buffer[i] = v\<close>.\<close>

definition wr :: "'a list \<Rightarrow> nat \<Rightarrow> 'a \<Rightarrow> 'a list option" where
  "wr xs i v = (if i < length xs then Some (xs[i := v]) else None)"

text \<open>The source operand of \<open>memcpy(dst, src.data() + off, n)\<close>: \<open>n\<close> bytes from \<open>off\<close>.\<close>

definition rd_range :: "'a list \<Rightarrow> nat \<Rightarrow> nat \<Rightarrow> 'a list option" where
  "rd_range xs off n = (if off + n \<le> length xs then Some (take n (drop off xs)) else None)"

lemma rd_Some [mem_simps]: "i < length xs \<Longrightarrow> rd xs i = Some (xs ! i)"
  by (simp add: rd_def)

lemma rd_eq_Some_iff: "rd xs i = Some x \<longleftrightarrow> i < length xs \<and> xs ! i = x"
  by (auto simp: rd_def)

lemma rd_eq_None_iff: "rd xs i = None \<longleftrightarrow> length xs \<le> i"
  by (auto simp: rd_def)

lemma rd_append1 [mem_simps]: "i < length xs \<Longrightarrow> rd (xs @ ys) i = rd xs i"
  by (simp add: rd_def nth_append)

lemma rd_append2 [mem_simps]: "length xs \<le> i \<Longrightarrow> rd (xs @ ys) i = rd ys (i - length xs)"
  by (auto simp: rd_def nth_append)

lemma wr_Some [mem_simps]: "i < length xs \<Longrightarrow> wr xs i v = Some (xs[i := v])"
  by (simp add: wr_def)

lemma rd_range_Some [mem_simps]: "off + n \<le> length xs \<Longrightarrow> rd_range xs off n = Some (take n (drop off xs))"
  by (simp add: rd_range_def)

lemma rd_range_eq_Some_iff:
  "rd_range xs off n = Some ys \<longleftrightarrow> off + n \<le> length xs \<and> ys = take n (drop off xs)"
  by (auto simp: rd_range_def)

section \<open>Characters and strings\<close>

text \<open>
  A \<open>std::string\<close> is a list of \<open>char\<close>, which HOL represents as bytes; \<open>byte_char\<close> is
  \<open>static_cast<char>\<close> on a \<open>uint8_t\<close>. \<open>std::tolower\<close> is that of the \<open>"C"\<close> locale, the one a
  program runs in that never calls \<open>setlocale\<close>: only the letters A to Z change.
\<close>

definition byte_char :: "u8 \<Rightarrow> char" where
  "byte_char b = char_of (unat b)"

definition char_byte :: "char \<Rightarrow> u8" where
  "char_byte c = word_of_nat (of_char c)"

definition tolower :: "char \<Rightarrow> char" where
  "tolower c = (let n = of_char c :: nat in if 65 \<le> n \<and> n \<le> 90 then char_of (n + 32) else c)"

lemma of_char_less_256 [simp]: "(of_char c :: nat) < 256"
  using of_char_mod_256 [of c, where ?'a = nat] by (metis mod_less_divisor zero_less_numeral)

lemma unat_u8_less [simp]: "unat (b :: u8) < 256"
  using unsigned_less [of b] by simp

lemma of_char_byte_char [simp]: "of_char (byte_char b) = unat b"
  by (simp add: byte_char_def of_char_of)

lemma char_byte_byte_char [simp]: "char_byte (byte_char b) = b"
  by (simp add: char_byte_def)

lemma unat_char_byte [simp]: "unat (char_byte c) = of_char c"
  by (simp add: char_byte_def unat_of_nat)

lemma byte_char_char_byte [simp]: "byte_char (char_byte c) = c"
  by (simp add: byte_char_def)

lemma byte_char_inject [simp]: "byte_char a = byte_char b \<longleftrightarrow> a = b"
  by (metis char_byte_byte_char)

lemma of_char_tolower:
  "of_char (tolower c) = (if 65 \<le> (of_char c :: nat) \<and> (of_char c :: nat) \<le> 90 then of_char c + 32 else (of_char c :: nat))"
  by (auto simp: tolower_def Let_def of_char_of)

lemma tolower_idem [simp]: "tolower (tolower c) = tolower c"
  unfolding tolower_def [of "tolower c"] Let_def of_char_tolower by auto

lemma tolower_dot_iff [simp]: "tolower c = CHR ''.'' \<longleftrightarrow> c = CHR ''.''"
proof -
  have "of_char (tolower c) = (46 :: nat) \<longleftrightarrow> of_char c = (46 :: nat)"
    by (auto simp: of_char_tolower)
  moreover have "(of_char d = (46 :: nat)) = (d = CHR ''.'')" for d
  proof -
    have "of_char (CHR ''.'') = (46 :: nat)" by simp
    then show ?thesis by (metis of_char_eq_iff)
  qed
  ultimately show ?thesis by metis
qed

lemma tolower_dot [simp]: "tolower CHR ''.'' = CHR ''.''" "CHR ''.'' = tolower c \<longleftrightarrow> c = CHR ''.''"
  by (auto dest: sym simp del: char.inject) (metis tolower_dot_iff)+

text \<open>Code equations on the bits of a character, so that closed terms evaluate by rewriting.\<close>

lemma tolower_Char [code]:
  "tolower (Char b0 b1 b2 b3 b4 b5 b6 b7) =
     (if \<not> b7 \<and> b6 \<and> \<not> b5 \<and> (b0 \<or> b1 \<or> b2 \<or> b3 \<or> b4) \<and> \<not> (b4 \<and> b3 \<and> (b2 \<or> b1 \<and> b0))
      then Char b0 b1 b2 b3 b4 True b6 b7 else Char b0 b1 b2 b3 b4 b5 b6 b7)"
  by (cases b0; cases b1; cases b2; cases b3; cases b4; cases b5; cases b6; cases b7)
     (simp_all add: tolower_def char_of_def bit_0)

lemma byte_char_code [code]:
  "byte_char b = Char (bit b 0) (bit b 1) (bit b 2) (bit b 3) (bit b 4) (bit b 5) (bit b 6) (bit b 7)"
  by (simp add: byte_char_def char_of_def bit_unsigned_iff)

section \<open>Searching in strings\<close>

text \<open>\<open>s.find(c, pos)\<close>: the first index from \<open>pos\<close> on, \<open>None\<close> for \<open>npos\<close>.\<close>

fun find_from :: "('a \<Rightarrow> bool) \<Rightarrow> 'a list \<Rightarrow> nat option" where
  "find_from P [] = None"
| "find_from P (x # xs) = (if P x then Some 0 else map_option Suc (find_from P xs))"

definition find_char :: "char \<Rightarrow> string \<Rightarrow> nat \<Rightarrow> nat option" where
  "find_char c s pos = map_option ((+) pos) (find_from ((=) c) (drop pos s))"

lemma find_from_None_iff: "find_from P xs = None \<longleftrightarrow> (\<forall>x \<in> set xs. \<not> P x)"
  by (induction xs) auto

lemma find_from_SomeD:
  "find_from P xs = Some i \<Longrightarrow>
     i < length xs \<and> P (xs ! i) \<and> take i xs = takeWhile (\<lambda>x. \<not> P x) xs \<and>
     drop i xs = dropWhile (\<lambda>x. \<not> P x) xs"
  by (induction xs arbitrary: i) (auto split: if_splits)

lemma find_char_SomeD:
  assumes "find_char c s pos = Some i"
  shows "pos \<le> i" "i < length s" "s ! i = c" "c \<notin> set (take (i - pos) (drop pos s))"
proof -
  from assms obtain j where j: "find_from ((=) c) (drop pos s) = Some j" "i = pos + j"
    by (auto simp: find_char_def)
  note find_from_SomeD [OF j(1)]
  then show "pos \<le> i" "i < length s" "s ! i = c" "c \<notin> set (take (i - pos) (drop pos s))"
    using j(2) set_takeWhileD [of c "\<lambda>x. c \<noteq> x" "drop pos s"] by auto
qed

lemma find_char_NoneD: "find_char c s pos = None \<Longrightarrow> c \<notin> set (drop pos s)"
  by (auto simp: find_char_def find_from_None_iff)

end
