(* ===== verification/Common.thy ===== *)
theory Common
  imports Prelude
begin

text \<open>
  The types shared by every component (\<open>dataplane/include/common\<close>): the error codes with their
  messages, and \<open>Result<T>\<close>, a value or an error code. \<open>Result<T>::value\<close> throws on an error; the
  exception is the left summand of its result.
\<close>

section \<open>Error codes\<close>

datatype error_code =
    OK
  | PACKET_TOO_SHORT
  | PACKET_TOO_LARGE
  | INVALID_HEADER
  | INVALID_QDCOUNT
  | INVALID_LABEL_LENGTH
  | POINTER_LOOP_DETECTED
  | POINTER_OUT_OF_BOUNDS
  | INVALID_NAME_TERMINATION
  | NAME_TOO_LONG
  | BUFFER_OVERFLOW
  | UNSUPPORTED_OPCODE
  | MALFORMED_QUESTION
  | UPSTREAM_TIMEOUT
  | UPSTREAM_ERROR
  | UNEXPECTED_RESPONSE

fun error_string :: "error_code \<Rightarrow> string" where
  "error_string OK = ''OK''"
| "error_string PACKET_TOO_SHORT = ''Packet too short (<12 bytes)''"
| "error_string PACKET_TOO_LARGE = ''Packet exceeds maximum size''"
| "error_string INVALID_HEADER = ''Invalid DNS header flags''"
| "error_string INVALID_QDCOUNT = ''Invalid QDCOUNT (must be 1)''"
| "error_string INVALID_LABEL_LENGTH = ''Invalid label length (>63 bytes)''"
| "error_string POINTER_LOOP_DETECTED = ''Compression pointer loop cycle detected''"
| "error_string POINTER_OUT_OF_BOUNDS = ''Compression pointer out of packet bounds''"
| "error_string INVALID_NAME_TERMINATION = ''Invalid name null termination''"
| "error_string NAME_TOO_LONG = ''QNAME exceeds 253 characters''"
| "error_string BUFFER_OVERFLOW = ''Output buffer overflow''"
| "error_string UNSUPPORTED_OPCODE = ''Unsupported DNS Opcode''"
| "error_string MALFORMED_QUESTION = ''Question section truncated''"
| "error_string UPSTREAM_TIMEOUT = ''Upstream query timed out''"
| "error_string UPSTREAM_ERROR = ''Upstream returned error''"
| "error_string UNEXPECTED_RESPONSE = ''Upstream response does not match pending query''"

section \<open>\<open>Result<T>\<close>\<close>

datatype 'a result = Ok 'a | Err error_code

fun is_ok :: "'a result \<Rightarrow> bool" where
  "is_ok (Ok _) = True"
| "is_ok (Err _) = False"

fun is_err :: "'a result \<Rightarrow> bool" where
  "is_err (Ok _) = False"
| "is_err (Err _) = True"

fun error :: "'a result \<Rightarrow> error_code" where
  "error (Ok _) = OK"
| "error (Err e) = e"

fun result_value :: "'a result \<Rightarrow> string + 'a" where
  "result_value (Ok v) = Inr v"
| "result_value (Err e) = Inl (''Bad Result access: '' @ error_string e)"

lemma is_ok_iff: "is_ok r \<longleftrightarrow> (\<exists>v. r = Ok v)"
  by (cases r) auto

lemma is_err_iff: "is_err r \<longleftrightarrow> (\<exists>e. r = Err e)"
  by (cases r) auto

lemma not_is_err [simp]: "\<not> is_err r \<longleftrightarrow> is_ok r"
  by (cases r) auto

text \<open>The specialisation \<open>Result<void>\<close> carries the code alone.\<close>

datatype result_void = ResultVoid (void_error: error_code)

definition void_is_ok :: "result_void \<Rightarrow> bool" where
  "void_is_ok r = (void_error r = OK)"

definition void_is_err :: "result_void \<Rightarrow> bool" where
  "void_is_err r = (void_error r \<noteq> OK)"

end
