(* ===== verification/Protocol.thy ===== *)
theory Protocol
  imports Common "HOL-Library.Monad_Syntax"
begin

text \<open>
  The DNS wire constants and the 12-byte header (\<open>dataplane/include/dns/protocol.h\<close>).
  \<open>QType\<close> and \<open>QClass\<close> are C++ enumerations with a fixed underlying type, and the parser casts any
  16-bit value into them, so a value of such a type is a 16-bit word; the enumerators are datatypes with
  their codes.
\<close>

section \<open>Constants\<close>

definition kDnsHeaderSize :: nat where "kDnsHeaderSize = 12"
definition kMaxEdns0PayloadSize :: nat where "kMaxEdns0PayloadSize = 4096"
definition kMaxDomainNameLength :: nat where "kMaxDomainNameLength = 253"
definition kMaxLabelLength :: nat where "kMaxLabelLength = 63"
definition kMaxCompressionDepth :: nat where "kMaxCompressionDepth = 8"

lemmas k_defs [simp] =
  kDnsHeaderSize_def kMaxEdns0PayloadSize_def kMaxDomainNameLength_def kMaxLabelLength_def
  kMaxCompressionDepth_def

datatype opcode = QUERY | IQUERY | STATUS | NOTIFY | UPDATE

fun opcode_code :: "opcode \<Rightarrow> u8" where
  "opcode_code QUERY = 0"
| "opcode_code IQUERY = 1"
| "opcode_code STATUS = 2"
| "opcode_code NOTIFY = 4"
| "opcode_code UPDATE = 5"

datatype rcode =
  NOERROR | FORMERR | SERVFAIL | NXDOMAIN | NOTIMP | REFUSED | YXDOMAIN | YXRRSET | NXRRSET
  | NOTAUTH | NOTZONE

fun rcode_code :: "rcode \<Rightarrow> u8" where
  "rcode_code NOERROR = 0"
| "rcode_code FORMERR = 1"
| "rcode_code SERVFAIL = 2"
| "rcode_code NXDOMAIN = 3"
| "rcode_code NOTIMP = 4"
| "rcode_code REFUSED = 5"
| "rcode_code YXDOMAIN = 6"
| "rcode_code YXRRSET = 7"
| "rcode_code NXRRSET = 8"
| "rcode_code NOTAUTH = 9"
| "rcode_code NOTZONE = 10"

type_synonym q_type = u16
type_synonym q_class = u16

datatype qtype_name =
  QT_A | QT_NS | QT_CNAME | QT_SOA | QT_PTR | QT_MX | QT_TXT | QT_AAAA | QT_OPT | QT_ANY

fun qtype_code :: "qtype_name \<Rightarrow> q_type" where
  "qtype_code QT_A = 1"
| "qtype_code QT_NS = 2"
| "qtype_code QT_CNAME = 5"
| "qtype_code QT_SOA = 6"
| "qtype_code QT_PTR = 12"
| "qtype_code QT_MX = 15"
| "qtype_code QT_TXT = 16"
| "qtype_code QT_AAAA = 28"
| "qtype_code QT_OPT = 41"
| "qtype_code QT_ANY = 255"

datatype qclass_name = QC_IN | QC_CS | QC_CH | QC_HS | QC_ANY

fun qclass_code :: "qclass_name \<Rightarrow> q_class" where
  "qclass_code QC_IN = 1"
| "qclass_code QC_CS = 2"
| "qclass_code QC_CH = 3"
| "qclass_code QC_HS = 4"
| "qclass_code QC_ANY = 255"

section \<open>The header\<close>

record wire_header =
  wh_id :: u16
  wh_flags :: u16
  wh_qdcount :: u16
  wh_ancount :: u16
  wh_nscount :: u16
  wh_arcount :: u16

definition wire_header_parse :: "bytes \<Rightarrow> wire_header option" where
  "wire_header_parse buf = do {
     b0 \<leftarrow> rd buf 0; b1 \<leftarrow> rd buf 1;
     b2 \<leftarrow> rd buf 2; b3 \<leftarrow> rd buf 3;
     b4 \<leftarrow> rd buf 4; b5 \<leftarrow> rd buf 5;
     b6 \<leftarrow> rd buf 6; b7 \<leftarrow> rd buf 7;
     b8 \<leftarrow> rd buf 8; b9 \<leftarrow> rd buf 9;
     b10 \<leftarrow> rd buf 10; b11 \<leftarrow> rd buf 11;
     Some \<lparr>wh_id = be16 b0 b1, wh_flags = be16 b2 b3, wh_qdcount = be16 b4 b5,
           wh_ancount = be16 b6 b7, wh_nscount = be16 b8 b9, wh_arcount = be16 b10 b11\<rparr>
   }"

definition is_query :: "wire_header \<Rightarrow> bool" where
  "is_query h = (wh_flags h AND 0x8000 = 0)"

definition is_response :: "wire_header \<Rightarrow> bool" where
  "is_response h = (wh_flags h AND 0x8000 \<noteq> 0)"

definition wh_opcode :: "wire_header \<Rightarrow> u8" where
  "wh_opcode h = ucast (drop_bit 11 (wh_flags h) AND 0x0F)"

definition wh_tc :: "wire_header \<Rightarrow> bool" where
  "wh_tc h = (wh_flags h AND 0x0200 \<noteq> 0)"

definition wh_rd :: "wire_header \<Rightarrow> bool" where
  "wh_rd h = (wh_flags h AND 0x0100 \<noteq> 0)"

definition wh_rcode :: "wire_header \<Rightarrow> u8" where
  "wh_rcode h = ucast (wh_flags h AND 0x000F)"

text \<open>The header as the twelve bytes it is sent as.\<close>

definition header_bytes :: "wire_header \<Rightarrow> bytes" where
  "header_bytes h =
     [hi8 (wh_id h), lo8 (wh_id h), hi8 (wh_flags h), lo8 (wh_flags h),
      hi8 (wh_qdcount h), lo8 (wh_qdcount h), hi8 (wh_ancount h), lo8 (wh_ancount h),
      hi8 (wh_nscount h), lo8 (wh_nscount h), hi8 (wh_arcount h), lo8 (wh_arcount h)]"

lemma length_header_bytes [len_simps, simp]: "length (header_bytes h) = 12"
  by (simp add: header_bytes_def)

lemma wire_header_parse_eq:
  assumes "12 \<le> length buf"
  shows "wire_header_parse buf =
    Some \<lparr>wh_id = be16 (buf ! 0) (buf ! 1), wh_flags = be16 (buf ! 2) (buf ! 3),
          wh_qdcount = be16 (buf ! 4) (buf ! 5), wh_ancount = be16 (buf ! 6) (buf ! 7),
          wh_nscount = be16 (buf ! 8) (buf ! 9), wh_arcount = be16 (buf ! 10) (buf ! 11)\<rparr>"
proof -
  from assms have "buf \<noteq> []" by auto
  with assms show ?thesis by (simp add: wire_header_parse_def rd_def)
qed

lemma wire_header_parse_Some_iff: "(\<exists>h. wire_header_parse buf = Some h) \<longleftrightarrow> 12 \<le> length buf"
proof
  assume "\<exists>h. wire_header_parse buf = Some h"
  then have "rd buf 11 \<noteq> None"
    by (auto simp: wire_header_parse_def bind_eq_Some_conv)
  then show "12 \<le> length buf" by (auto simp: rd_eq_None_iff)
qed (auto simp: wire_header_parse_eq)

lemma wire_header_parse_header_bytes [simp]:
  "wire_header_parse (header_bytes h @ rest) = Some h"
  by (simp add: wire_header_parse_eq) (simp add: header_bytes_def)

lemma header_bytes_parse:
  assumes "wire_header_parse buf = Some h"
  shows "take 12 buf = header_bytes h"
proof -
  have len: "12 \<le> length buf" using assms wire_header_parse_Some_iff by blast
  have "take 12 buf = map (\<lambda>i. buf ! i) [0..<12]"
    using len by (intro nth_equalityI) auto
  also have "[0..<12] = [0,1,2,3,4,5,6,7,8,9,10,11 :: nat]"
    by (simp add: upt_rec)
  finally show ?thesis
    using assms len by (auto simp: wire_header_parse_eq header_bytes_def)
qed

lemma is_response_iff_bit: "is_response h \<longleftrightarrow> bit (wh_flags h) 15"
  using and_exp_eq_0_iff_not_bit [of "wh_flags h" 15] by (simp add: is_response_def)

lemma is_query_iff: "is_query h \<longleftrightarrow> \<not> is_response h"
  by (simp add: is_query_def is_response_def)

end
