(* ===== verification/Parser.thy ===== *)
theory Parser
  imports Protocol
begin

text \<open>
  The packet parser (\<open>dataplane/src/dns/parser.cpp\<close>, \<open>include/dns/parser.h\<close>).
  The model follows the code statement by statement: \<open>decode_loop\<close> is the \<open>while (true)\<close> of
  \<open>decode_name\<close> with its variables as arguments, \<open>copy_label\<close> its inner \<open>for\<close>. Both return
  \<open>None\<close> when the C++ would read outside the buffer, \<open>Some (Err e)\<close> for \<open>return ErrorCode::e\<close> and
  \<open>Some (Ok v)\<close> for a value.

  The lemmas show that no read is out of bounds, that the loop ends, and that the function
  implements the declarative relation \<open>wire_name\<close> of compressed names.
\<close>

section \<open>The code\<close>

record parsed_question =
  qname :: string
  qtype :: q_type
  qclass :: q_class
  wire_bytes_consumed :: nat

record parsed_packet =
  pp_header :: wire_header
  question :: parsed_question
  raw_packet :: bytes

text \<open>\<open>copy_label buf pos len name\<close>: the \<open>for\<close> loop that appends the bytes of one label.\<close>

fun copy_label :: "bytes \<Rightarrow> nat \<Rightarrow> nat \<Rightarrow> string \<Rightarrow> string result option" where
  "copy_label buf pos 0 name = Some (Ok name)"
| "copy_label buf pos (Suc n) name =
     (case rd buf pos of
        None \<Rightarrow> None
      | Some c \<Rightarrow>
          if c < 32 \<or> c = 127 then Some (Err INVALID_LABEL_LENGTH)
          else copy_label buf (Suc pos) n (name @ [tolower (byte_char c)]))"

function decode_loop ::
    "bytes \<Rightarrow> nat \<Rightarrow> string \<Rightarrow> nat \<Rightarrow> bool \<Rightarrow> nat \<Rightarrow> (string \<times> nat) result option" where
  "decode_loop buf curr_offset name bytes_consumed jumped depth =
     (if curr_offset \<ge> length buf then Some (Err POINTER_OUT_OF_BOUNDS)
      else case rd buf curr_offset of
        None \<Rightarrow> None
      | Some len \<Rightarrow>
          if len = 0 then
            Some (Ok (name, if jumped then bytes_consumed else bytes_consumed + 1))
          else if len AND 0xC0 = 0xC0 then
            if curr_offset + 1 \<ge> length buf then Some (Err POINTER_OUT_OF_BOUNDS)
            else if depth + 1 > kMaxCompressionDepth then Some (Err POINTER_LOOP_DETECTED)
            else (case rd buf (curr_offset + 1) of
              None \<Rightarrow> None
            | Some lo \<Rightarrow>
                let ptr_offset = unat (push_bit 8 (ucast len AND 0x3F) OR ucast lo :: u16) in
                if ptr_offset \<ge> length buf then Some (Err POINTER_OUT_OF_BOUNDS)
                else if ptr_offset \<ge> curr_offset \<and> \<not> jumped then Some (Err POINTER_LOOP_DETECTED)
                else decode_loop buf ptr_offset name
                       (if jumped then bytes_consumed else bytes_consumed + 2) True (depth + 1))
          else if len AND 0xC0 \<noteq> 0 then Some (Err INVALID_LABEL_LENGTH)
          else if unat len > kMaxLabelLength then Some (Err INVALID_LABEL_LENGTH)
          else if curr_offset + 1 + unat len > length buf then Some (Err POINTER_OUT_OF_BOUNDS)
          else (case copy_label buf (curr_offset + 1) (unat len)
                       (if name \<noteq> [] then name @ ''.'' else name) of
                  None \<Rightarrow> None
                | Some (Err e) \<Rightarrow> Some (Err e)
                | Some (Ok name') \<Rightarrow>
                    if length name' > kMaxDomainNameLength then Some (Err NAME_TOO_LONG)
                    else decode_loop buf (curr_offset + (1 + unat len)) name'
                           (if jumped then bytes_consumed else bytes_consumed + (1 + unat len))
                           jumped depth))"
  by pat_completeness auto

text \<open>
  The loop ends: a pointer uses up one unit of the compression budget, a label moves the offset
  forward inside the buffer.
\<close>

termination
  by (relation "measures [\<lambda>(buf, curr, name, n, j, depth). kMaxCompressionDepth - depth,
        \<lambda>(buf, curr, name, n, j, depth). length buf - curr]") auto

declare decode_loop.simps [simp del]

definition decode_name :: "bytes \<Rightarrow> nat \<Rightarrow> (string \<times> nat) result option" where
  "decode_name buf offset =
     (if offset \<ge> length buf then Some (Err POINTER_OUT_OF_BOUNDS)
      else decode_loop buf offset [] 0 False 0)"

definition parse :: "bytes \<Rightarrow> parsed_packet result option" where
  "parse buf =
     (if length buf < kDnsHeaderSize then Some (Err PACKET_TOO_SHORT)
      else if length buf > kMaxEdns0PayloadSize then Some (Err PACKET_TOO_LARGE)
      else do {
        hdr \<leftarrow> wire_header_parse buf;
        if wh_opcode hdr \<noteq> opcode_code QUERY then Some (Err UNSUPPORTED_OPCODE)
        else if wh_qdcount hdr \<noteq> 1 then Some (Err INVALID_QDCOUNT)
        else do {
          name_res \<leftarrow> decode_name buf kDnsHeaderSize;
          case name_res of
            Err e \<Rightarrow> Some (Err e)
          | Ok (name, qname_bytes) \<Rightarrow>
              let qtype_offset = kDnsHeaderSize + qname_bytes in
              if qtype_offset + 4 > length buf then Some (Err MALFORMED_QUESTION)
              else do {
                t0 \<leftarrow> rd buf qtype_offset;
                t1 \<leftarrow> rd buf (qtype_offset + 1);
                c0 \<leftarrow> rd buf (qtype_offset + 2);
                c1 \<leftarrow> rd buf (qtype_offset + 3);
                Some (Ok \<lparr>pp_header = hdr,
                          question = \<lparr>qname = name, qtype = be16 t0 t1, qclass = be16 c0 c1,
                                      wire_bytes_consumed = qname_bytes + 4\<rparr>,
                          raw_packet = buf\<rparr>)
              }
        }
      })"

section \<open>One label\<close>

definition label_char_ok :: "u8 \<Rightarrow> bool" where
  "label_char_ok c \<longleftrightarrow> \<not> (c < 32 \<or> c = 127)"

definition label_string :: "bytes \<Rightarrow> string" where
  "label_string = map (\<lambda>b. tolower (byte_char b))"

lemma label_string_simps [simp]:
  "label_string [] = []"
  "label_string (b # bs) = tolower (byte_char b) # label_string bs"
  "length (label_string bs) = length bs"
  by (simp_all add: label_string_def)

lemma copy_label_eq:
  assumes "pos + n \<le> length buf"
  shows "copy_label buf pos n name =
    (if \<forall>b \<in> set (take n (drop pos buf)). label_char_ok b
     then Some (Ok (name @ label_string (take n (drop pos buf))))
     else Some (Err INVALID_LABEL_LENGTH))"
  using assms
proof (induction n arbitrary: pos name)
  case 0
  then show ?case by simp
next
  case (Suc n)
  then have "drop pos buf = buf ! pos # drop (Suc pos) buf"
    by (simp add: Cons_nth_drop_Suc)
  with Suc show ?case by (auto simp: mem_simps label_char_ok_def)
qed

lemma label_length_iff: "(len :: u8) AND 0xC0 = 0 \<longleftrightarrow> unat len \<le> 63"
proof -
  have "(0xC0 :: u8) = NOT (mask 6)" by (simp add: mask_eq_exp_minus_1 not_eq_complement)
  then have "len AND 0xC0 = 0 \<longleftrightarrow> len AND NOT (mask 6) = 0" by simp
  also have "\<dots> \<longleftrightarrow> take_bit 6 len = len"
    by (auto simp: bit_eq_iff bit_simps)
  also have "\<dots> \<longleftrightarrow> take_bit 6 (unat len) = unat len"
    by (metis unsigned_take_bit_eq unsigned_word_eqI)
  also have "\<dots> \<longleftrightarrow> unat len < 64"
    by (simp add: take_bit_nat_eq_self_iff)
  also have "\<dots> \<longleftrightarrow> unat len \<le> 63" by arith
  finally show ?thesis .
qed

section \<open>The relation of compressed names\<close>

text \<open>
  \<open>wire_name buf j off k ls n\<close>: at offset \<open>off\<close> of the packet stands a name with labels \<open>ls\<close>,
  reached through \<open>k\<close> compression pointers, of which \<open>n\<close> bytes stand in place. \<open>j\<close> says that a
  pointer was followed before \<open>off\<close>: then no byte counts as standing in place, and a further
  pointer may lead anywhere in the packet; the first pointer must lead backwards.
\<close>

definition pointer_target :: "u8 \<Rightarrow> u8 \<Rightarrow> nat" where
  "pointer_target len lo = unat (push_bit 8 (ucast len AND 0x3F) OR ucast lo :: u16)"

inductive wire_name :: "bytes \<Rightarrow> bool \<Rightarrow> nat \<Rightarrow> nat \<Rightarrow> bytes list \<Rightarrow> nat \<Rightarrow> bool"
  for buf :: bytes where
  root: "\<lbrakk>off < length buf; buf ! off = 0\<rbrakk> \<Longrightarrow> wire_name buf j off 0 [] (if j then 0 else 1)"
| label: "\<lbrakk>off < length buf; buf ! off \<noteq> 0; unat (buf ! off) \<le> 63;
      off + 1 + unat (buf ! off) \<le> length buf;
      l = take (unat (buf ! off)) (drop (off + 1) buf); \<forall>b \<in> set l. label_char_ok b;
      wire_name buf j (off + 1 + unat (buf ! off)) k ls n\<rbrakk>
    \<Longrightarrow> wire_name buf j off k (l # ls) (if j then n else 1 + unat (buf ! off) + n)"
| pointer: "\<lbrakk>off + 1 < length buf; buf ! off AND 0xC0 = 0xC0;
      ptr = pointer_target (buf ! off) (buf ! (off + 1)); ptr < length buf; j \<or> ptr < off;
      wire_name buf True ptr k ls n\<rbrakk>
    \<Longrightarrow> wire_name buf j off (Suc k) ls (if j then n else 2 + n)"

text \<open>The first byte decides the case, so an offset has at most one name.\<close>

inductive_cases wire_nameE: "wire_name buf j off k ls n"

lemma wire_name_unique:
  assumes "wire_name buf j off k ls n" "wire_name buf j off k' ls' n'"
  shows "k' = k \<and> ls' = ls \<and> n' = n"
  using assms
proof (induction arbitrary: k' ls' n' rule: wire_name.induct)
  case (root off j)
  from root(3) root(2) show ?case by (auto elim: wire_nameE)
next
  case (label off l j k ls n)
  have b: "buf ! off \<noteq> 0" "buf ! off AND 0xC0 \<noteq> 0xC0"
    using label(2,3) label_length_iff [of "buf ! off"] by auto
  from label(9) show ?case
  proof (cases rule: wire_nameE [consumes 1])
    case (2 ls2 n2)
    then show ?thesis using label.IH [of k' ls2 n2] label(5) by simp
  qed (use b in simp_all)
next
  case (pointer off ptr j k ls n)
  have b: "buf ! off \<noteq> 0" "\<not> unat (buf ! off) \<le> 63"
    using pointer(2) label_length_iff [of "buf ! off"] by auto
  from pointer(8) show ?case
  proof (cases rule: wire_nameE [consumes 1])
    case (3 k2 n2)
    then show ?thesis using pointer.IH [of k2 ls' n2] pointer(3) by simp
  qed (use b in simp_all)
qed

text \<open>The text form of a label list, and the same as the loop builds it, label after label.\<close>

fun join_dots :: "string list \<Rightarrow> string" where
  "join_dots [] = []"
| "join_dots [l] = l"
| "join_dots (l # ls) = l @ ''.'' @ join_dots ls"

fun add_labels :: "string \<Rightarrow> string list \<Rightarrow> string" where
  "add_labels name [] = name"
| "add_labels name (l # ls) = add_labels ((if name \<noteq> [] then name @ ''.'' else name) @ l) ls"

lemma join_dots_append: "join_dots ((a @ b) # ls) = a @ join_dots (b # ls)"
  by (cases ls) simp_all

lemma add_labels_nonempty: "name \<noteq> [] \<Longrightarrow> add_labels name ls = join_dots (name # ls)"
proof (induction ls arbitrary: name)
  case (Cons l ls)
  then show ?case
    using join_dots_append [of "name @ ''.''" l ls] by simp
qed simp

lemma add_labels_join: "[] \<notin> set ls \<Longrightarrow> add_labels [] ls = join_dots ls"
  by (cases ls) (auto simp: add_labels_nonempty)

lemma length_add_labels: "length name \<le> length (add_labels name ls)"
  by (induction name ls rule: add_labels.induct) (auto split: if_splits)

lemma decode_loop_root [simp]:
  assumes "off < length buf" "buf ! off = 0"
  shows "decode_loop buf off name c j d = Some (Ok (name, if j then c else c + 1))"
  using assms by (subst decode_loop.simps) (simp add: mem_simps)

lemma decode_loop_label:
  assumes "off < length buf" "buf ! off \<noteq> 0" "unat (buf ! off) \<le> 63"
    "off + 1 + unat (buf ! off) \<le> length buf"
    "l = take (unat (buf ! off)) (drop (off + 1) buf)"
  shows "decode_loop buf off name c j d =
    (if \<forall>b \<in> set l. label_char_ok b
     then let name' = (if name \<noteq> [] then name @ ''.'' else name) @ label_string l in
       if length name' > 253 then Some (Err NAME_TOO_LONG)
       else decode_loop buf (off + 1 + unat (buf ! off)) name'
              (if j then c else c + (1 + unat (buf ! off))) j d
     else Some (Err INVALID_LABEL_LENGTH))"
proof -
  have "buf ! off AND 0xC0 = 0" using assms(3) label_length_iff by blast
  with assms show ?thesis
    by (subst decode_loop.simps) (simp add: mem_simps copy_label_eq Let_def)
qed

lemma decode_loop_pointer:
  assumes "off + 1 < length buf" "buf ! off AND 0xC0 = 0xC0" "d + 1 \<le> 8"
    "ptr = pointer_target (buf ! off) (buf ! (off + 1))" "ptr < length buf" "j \<or> ptr < off"
  shows "decode_loop buf off name c j d =
    decode_loop buf ptr name (if j then c else c + 2) True (d + 1)"
proof -
  have "buf ! off \<noteq> 0" using assms(2) by auto
  with assms show ?thesis
    by (subst decode_loop.simps) (auto simp: mem_simps pointer_target_def Let_def)
qed

text \<open>The three ways the loop goes on, and that every other way returns an error.\<close>

lemma decode_loop_not_None: "decode_loop buf off name c j d \<noteq> None"
proof (induction buf off name c j d rule: decode_loop.induct)
  case (1 buf off name c j d)
  show ?case
  proof (cases "off < length buf")
    case True
    note bounds = this
    show ?thesis
    proof (cases "buf ! off AND 0xC0 = 0xC0")
      case True
      with bounds "1.IH"(1) show ?thesis
        by (subst decode_loop.simps) (auto simp: mem_simps Let_def)
    next
      case False
      show ?thesis
      proof (cases "off + 1 + unat (buf ! off) \<le> length buf")
        case True
        with bounds False "1.IH"(2) show ?thesis
          by (subst decode_loop.simps) (auto simp: mem_simps copy_label_eq)
      qed (use bounds False in \<open>subst decode_loop.simps, auto simp: mem_simps\<close>)
    qed
  qed (subst decode_loop.simps, simp)
qed

text \<open>What a successful run of the loop has read, by which of the three steps it took first.\<close>

lemma decode_loop_OkE:
  assumes "decode_loop buf off name c j d = Some (Ok r)"
  obtains
    (root) "off < length buf" "buf ! off = 0" "r = (name, if j then c else c + 1)"
  | (pointer) "off + 1 < length buf" "buf ! off AND 0xC0 = 0xC0" "d + 1 \<le> 8"
      "pointer_target (buf ! off) (buf ! (off + 1)) < length buf"
      "j \<or> pointer_target (buf ! off) (buf ! (off + 1)) < off"
      "decode_loop buf (pointer_target (buf ! off) (buf ! (off + 1))) name
         (if j then c else c + 2) True (d + 1) = Some (Ok r)"
  | (label) l where "off < length buf" "buf ! off \<noteq> 0" "unat (buf ! off) \<le> 63"
      "off + 1 + unat (buf ! off) \<le> length buf"
      "l = take (unat (buf ! off)) (drop (off + 1) buf)" "\<forall>b \<in> set l. label_char_ok b"
      "length ((if name \<noteq> [] then name @ ''.'' else name) @ label_string l) \<le> 253"
      "decode_loop buf (off + 1 + unat (buf ! off))
         ((if name \<noteq> [] then name @ ''.'' else name) @ label_string l)
         (if j then c else c + (1 + unat (buf ! off))) j d = Some (Ok r)"
proof -
  have off: "off < length buf"
    using assms by (subst (asm) decode_loop.simps) (simp split: if_splits)
  consider "buf ! off = 0" | "buf ! off \<noteq> 0" "buf ! off AND 0xC0 = 0xC0"
    | "buf ! off \<noteq> 0" "buf ! off AND 0xC0 \<noteq> 0xC0" by blast
  then show thesis
  proof cases
    case 1
    with assms off show thesis by (intro root) auto
  next
    case 2
    with assms off show thesis
      by (intro pointer)
        (subst (asm) decode_loop.simps;
         auto simp: mem_simps pointer_target_def Let_def split: if_splits)+
  next
    case 3
    let ?l = "take (unat (buf ! off)) (drop (off + 1) buf)"
    from 3 off assms have b: "unat (buf ! off) \<le> 63" "off + 1 + unat (buf ! off) \<le> length buf"
      by (subst (asm) decode_loop.simps; auto simp: mem_simps split: if_splits)+
    with 3 off assms show thesis
      by (intro label [of ?l]) (auto simp: decode_loop_label Let_def split: if_splits)
  qed
qed

lemma decode_loop_sound:
  assumes "decode_loop buf off name c j d = Some (Ok r)" "d \<le> 8"
  shows "\<exists>k ls n. wire_name buf j off k ls n \<and> d + k \<le> 8 \<and>
    r = (add_labels name (map label_string ls), c + n) \<and>
    (length name \<le> 253 \<longrightarrow> length (fst r) \<le> 253)"
  using assms
proof (induction buf off name c j d arbitrary: r rule: decode_loop.induct)
  case (1 buf off name c j d)
  from "1.prems"(1) show ?case
  proof (cases rule: decode_loop_OkE)
    case root
    have "wire_name buf j off 0 [] (if j then 0 else 1)"
      using root(1,2) by (rule wire_name.root)
    with root(3) \<open>d \<le> 8\<close> show ?thesis
      by (intro exI [of _ 0] exI [of _ "[]"] exI [of _ "if j then 0 else 1"]) auto
  next
    case pointer
    let ?ptr = "pointer_target (buf ! off) (buf ! (off + 1))"
    have "buf ! off \<noteq> 0" using pointer(2) by auto
    with pointer obtain k ls n where IH: "wire_name buf True ?ptr k ls n" "d + 1 + k \<le> 8"
      "r = (add_labels name (map label_string ls), (if j then c else c + 2) + n)"
      "length name \<le> 253 \<longrightarrow> length (fst r) \<le> 253"
      using "1.IH"(1) [of "buf ! off" "buf ! (off + 1)" ?ptr r]
      by (auto simp: mem_simps pointer_target_def)
    moreover have "wire_name buf j off (Suc k) ls (if j then n else 2 + n)"
      using pointer IH by (intro wire_name.pointer) auto
    ultimately show ?thesis
      by (intro exI [of _ "Suc k"] exI [of _ ls] exI [of _ "if j then n else 2 + n"]) auto
  next
    case (label l)
    have "buf ! off AND 0xC0 = 0" using label(3) label_length_iff by blast
    with label \<open>d \<le> 8\<close> obtain k ls n where
      IH: "wire_name buf j (off + 1 + unat (buf ! off)) k ls n" "d + k \<le> 8"
      "r = (add_labels ((if name \<noteq> [] then name @ ''.'' else name) @ label_string l)
             (map label_string ls), (if j then c else c + (1 + unat (buf ! off))) + n)"
      "length (fst r) \<le> 253"
      using "1.IH"(2) [of "buf ! off" _ "(if name \<noteq> [] then name @ ''.'' else name) @ label_string l" r]
      by (auto simp: mem_simps copy_label_eq)
    moreover have "wire_name buf j off k (l # ls) (if j then n else 1 + unat (buf ! off) + n)"
      using label IH by (intro wire_name.label) auto
    ultimately show ?thesis
      by (intro exI [of _ k] exI [of _ "l # ls"]
          exI [of _ "if j then n else 1 + unat (buf ! off) + n"]) auto
  qed
qed

lemma decode_loop_complete:
  assumes "wire_name buf j off k ls n" "d + k \<le> 8"
    "length (add_labels name (map label_string ls)) \<le> 253"
  shows "decode_loop buf off name c j d =
    Some (Ok (add_labels name (map label_string ls), c + n))"
  using assms
proof (induction arbitrary: name c d rule: wire_name.induct)
  case (root off j)
  then show ?case by simp
next
  case (label off l j k ls n)
  let ?name = "(if name \<noteq> [] then name @ ''.'' else name) @ label_string l"
  have "length ?name \<le> 253"
    using label.prems(2) length_add_labels [of ?name "map label_string ls"]
    by (simp split: if_splits)
  with label.IH [of d ?name] label show ?case by (simp add: decode_loop_label Let_def)
next
  case (pointer off ptr j k ls n)
  with pointer.IH [of "d + 1" name] show ?case by (simp add: decode_loop_pointer)
qed

lemma wire_name_label_lengths:
  "wire_name buf j off k ls n \<Longrightarrow> \<forall>l \<in> set ls. 0 < length l \<and> length l \<le> 63"
proof (induction rule: wire_name.induct)
  case (label off l j k ls n)
  have "length l = unat (buf ! off)" using label.hyps(4,5) by simp
  then have "0 < length l" "length l \<le> 63" using label.hyps(2,3) by (simp_all add: unat_gt_0)
  with label.IH show ?case by simp
qed simp_all

lemma wire_name_no_empty_label: "wire_name buf j off k ls n \<Longrightarrow> [] \<notin> set (map label_string ls)"
  by (fastforce simp: label_string_def dest: wire_name_label_lengths)

lemma decode_name_iff:
  "decode_name buf off = Some (Ok (name, n)) \<longleftrightarrow>
    (\<exists>k ls. wire_name buf False off k ls n \<and> k \<le> 8 \<and>
       name = join_dots (map label_string ls) \<and> length name \<le> 253)"
proof
  assume "decode_name buf off = Some (Ok (name, n))"
  then have "decode_loop buf off [] 0 False 0 = Some (Ok (name, n))"
    by (simp add: decode_name_def split: if_splits)
  from decode_loop_sound [OF this] obtain k ls where
    w: "wire_name buf False off k ls n" "k \<le> 8" "name = add_labels [] (map label_string ls)"
    "length name \<le> 253" by auto
  then show "\<exists>k ls. wire_name buf False off k ls n \<and> k \<le> 8 \<and>
      name = join_dots (map label_string ls) \<and> length name \<le> 253"
    using wire_name_no_empty_label [OF w(1)] by (auto simp: add_labels_join)
next
  assume "\<exists>k ls. wire_name buf False off k ls n \<and> k \<le> 8 \<and>
      name = join_dots (map label_string ls) \<and> length name \<le> 253"
  then obtain k ls where w: "wire_name buf False off k ls n" "k \<le> 8"
    "name = join_dots (map label_string ls)" "length name \<le> 253" by blast
  then have "off < length buf" by (auto elim: wire_name.cases)
  moreover have "add_labels [] (map label_string ls) = name"
    using w(3) wire_name_no_empty_label [OF w(1)] by (simp add: add_labels_join del: set_map)
  ultimately show "decode_name buf off = Some (Ok (name, n))"
    using w decode_loop_complete [of buf False off k ls n 0 "[]" 0] by (simp add: decode_name_def)
qed

section \<open>What a decoded name looks like\<close>

definition normalized :: "string \<Rightarrow> bool" where
  "normalized s \<longleftrightarrow> (\<forall>c \<in> set s. tolower c = c \<and> 32 \<le> (of_char c :: nat) \<and> of_char c \<noteq> (127 :: nat))"

lemma normalized_simps [simp]:
  "normalized []"
  "normalized (c # s) \<longleftrightarrow> tolower c = c \<and> 32 \<le> (of_char c :: nat) \<and> of_char c \<noteq> (127 :: nat) \<and> normalized s"
  "normalized (s @ t) \<longleftrightarrow> normalized s \<and> normalized t"
  by (auto simp: normalized_def)

lemma normalized_label_string:
  "\<forall>b \<in> set l. label_char_ok b \<Longrightarrow> normalized (label_string l)"
proof (induction l)
  case (Cons b l)
  have "\<not> unat b < 32" "unat b \<noteq> 127"
    using Cons.prems by (auto simp: label_char_ok_def word_less_nat_alt word_unat_eq_iff)
  with Cons show ?case by (simp add: of_char_tolower)
qed simp

lemma normalized_join_dots: "\<forall>s \<in> set ls. normalized s \<Longrightarrow> normalized (join_dots ls)"
  by (induction ls rule: join_dots.induct) (simp_all add: tolower_def)

lemma wire_name_chars: "wire_name buf j off k ls n \<Longrightarrow> \<forall>l \<in> set ls. \<forall>b \<in> set l. label_char_ok b"
  by (induction rule: wire_name.induct) simp_all

lemma decode_name_normalized:
  "decode_name buf off = Some (Ok (name, n)) \<Longrightarrow> normalized name"
  by (auto simp: decode_name_iff dest!: wire_name_chars
      intro!: normalized_join_dots normalized_label_string)

lemma wire_name_extent:
  "wire_name buf j off k ls n \<Longrightarrow>
     off < length buf \<and> (if j then n = 0 else 1 \<le> n \<and> off + n \<le> length buf)"
  by (induction rule: wire_name.induct) auto

lemma decode_name_extent:
  "decode_name buf off = Some (Ok (name, n)) \<Longrightarrow> 1 \<le> n \<and> off + n \<le> length buf"
  by (auto simp: decode_name_iff dest: wire_name_extent)

lemma length_join_dots: "[] \<notin> set ls \<Longrightarrow> 2 * length ls \<le> Suc (length (join_dots ls))"
proof (induction ls rule: join_dots.induct)
  case (2 l)
  then show ?case by (cases l) auto
next
  case (3 l l' ls)
  then show ?case by (cases l) auto
qed simp

lemma decode_name_not_None: "decode_name buf off \<noteq> None"
  using decode_loop_not_None [of buf off "[]" 0 False 0] by (auto simp: decode_name_def)

section \<open>Encoding\<close>

text \<open>The wire form of a label list, and of a question with its header, without compression.\<close>

definition valid_label :: "bytes \<Rightarrow> bool" where
  "valid_label l \<longleftrightarrow> 1 \<le> length l \<and> length l \<le> 63 \<and> (\<forall>b \<in> set l. label_char_ok b)"

definition encode_name :: "bytes list \<Rightarrow> bytes" where
  "encode_name ls = concat (map (\<lambda>l. word_of_nat (length l) # l) ls) @ [0]"

definition name_text :: "bytes list \<Rightarrow> string" where
  "name_text ls = join_dots (map label_string ls)"

definition query_bytes :: "wire_header \<Rightarrow> bytes list \<Rightarrow> q_type \<Rightarrow> q_class \<Rightarrow> bytes" where
  "query_bytes h ls t c = header_bytes h @ encode_name ls @ [hi8 t, lo8 t, hi8 c, lo8 c]"

lemma encode_name_Cons [simp]: "encode_name (l # ls) = word_of_nat (length l) # l @ encode_name ls"
  by (simp add: encode_name_def)

lemma encode_name_Nil [simp]: "encode_name [] = [0]"
  by (simp add: encode_name_def)

lemma wire_name_encode:
  assumes "\<forall>l \<in> set ls. valid_label l"
  shows "wire_name (pre @ encode_name ls @ post) False (length pre) 0 ls (length (encode_name ls))"
  using assms
proof (induction ls arbitrary: pre)
  case Nil
  then show ?case using wire_name.root [of "length pre" "pre @ [0] @ post" False] by simp
next
  case (Cons l ls)
  let ?buf = "pre @ encode_name (l # ls) @ post" and ?len = "word_of_nat (length l) :: u8"
  have l: "unat ?len = length l" "length l \<le> 63" "1 \<le> length l"
    using Cons.prems by (auto simp: valid_label_def unat_of_nat)
  then have "?len \<noteq> 0" by auto
  have "wire_name ?buf False (length pre + 1 + length l) 0 ls (length (encode_name ls))"
    using Cons.IH [of "pre @ ?len # l"] Cons.prems by simp
  with l \<open>?len \<noteq> 0\<close> Cons.prems show ?case
    using wire_name.label [of "length pre" ?buf l False 0 ls "length (encode_name ls)"]
    by (simp add: valid_label_def nth_append)
qed

text \<open>A name is still there when it is reached through a pointer.\<close>

lemma wire_name_jumped: "wire_name buf j off k ls n \<Longrightarrow> wire_name buf True off k ls 0"
proof (induction rule: wire_name.induct)
  case (root off j)
  then show ?case using wire_name.root [of off buf True] by simp
next
  case (label off l j k ls n)
  then show ?case using wire_name.label [of off buf l True k ls 0] by simp
next
  case (pointer off ptr j k ls n)
  then show ?case using wire_name.pointer [of off buf ptr True k ls 0] by simp
qed

lemma decode_name_encode:
  assumes "\<forall>l \<in> set ls. valid_label l" "length (name_text ls) \<le> 253"
  shows "decode_name (pre @ encode_name ls @ post) (length pre) =
    Some (Ok (name_text ls, length (encode_name ls)))"
  using wire_name_encode [OF assms(1)] assms(2)
  unfolding decode_name_iff name_text_def by blast

section \<open>Whole packets\<close>

lemma parse_not_None: "parse buf \<noteq> None"
proof (cases "12 \<le> length buf")
  case True
  obtain r where r: "decode_name buf 12 = Some r" using decode_name_not_None by blast
  show ?thesis
  proof (cases r)
    case (Ok v)
    with True r show ?thesis
      by (cases v) (simp add: parse_def wire_header_parse_eq mem_simps Let_def)
  next
    case (Err e)
    with True r show ?thesis by (simp add: parse_def wire_header_parse_eq)
  qed
qed (simp add: parse_def)

text \<open>What the parser has checked of a packet it accepts, with \<open>n\<close> the bytes of the name.\<close>

definition parsed_from :: "parsed_packet \<Rightarrow> bytes \<Rightarrow> nat \<Rightarrow> bool" where
  "parsed_from p buf n \<longleftrightarrow>
     12 \<le> length buf \<and> length buf \<le> 4096 \<and> raw_packet p = buf \<and>
     wire_header_parse buf = Some (pp_header p) \<and>
     wh_opcode (pp_header p) = 0 \<and> wh_qdcount (pp_header p) = 1 \<and>
     decode_name buf 12 = Some (Ok (qname (question p), n)) \<and>
     wire_bytes_consumed (question p) = n + 4 \<and> 12 + n + 4 \<le> length buf \<and>
     qtype (question p) = be16 (buf ! (12 + n)) (buf ! (13 + n)) \<and>
     qclass (question p) = be16 (buf ! (14 + n)) (buf ! (15 + n))"

lemma parse_OkD:
  assumes "parse buf = Some (Ok p)"
  obtains n where "parsed_from p buf n"
proof -
  have len: "12 \<le> length buf" "length buf \<le> 4096"
    using assms by (simp_all add: parse_def split: if_splits)
  obtain h where h: "wire_header_parse buf = Some h" using len wire_header_parse_Some_iff by blast
  have op: "wh_opcode h = 0" "wh_qdcount h = 1"
    using assms len h by (simp_all add: parse_def split: if_splits)
  obtain name n where d: "decode_name buf 12 = Some (Ok (name, n))"
  proof -
    obtain r where r: "decode_name buf 12 = Some r" using decode_name_not_None by blast
    with assms len h op that show thesis by (cases r) (auto simp: parse_def)
  qed
  have n: "12 + n + 4 \<le> length buf"
    using assms len h op d by (simp add: parse_def Let_def split: if_splits)
  have "parsed_from p buf n"
    using assms len h op d n
    by (simp add: parse_def parsed_from_def mem_simps Let_def add.commute) (clarsimp simp: add.commute)
  then show thesis by (rule that)
qed

lemma parse_OkI:
  assumes "parsed_from p buf n"
  shows "parse buf = Some (Ok p)"
proof -
  have "p = \<lparr>pp_header = pp_header p,
      question = \<lparr>qname = qname (question p), qtype = qtype (question p),
        qclass = qclass (question p), wire_bytes_consumed = wire_bytes_consumed (question p)\<rparr>,
      raw_packet = raw_packet p\<rparr>" by simp
  with assms show ?thesis
    by (simp add: parse_def parsed_from_def mem_simps Let_def add.commute)
qed

lemma parse_Ok_iff: "parse buf = Some (Ok p) \<longleftrightarrow> (\<exists>n. parsed_from p buf n)"
  by (blast elim: parse_OkD intro: parse_OkI)

lemma parse_Ok_question:
  assumes "parse buf = Some (Ok p)"
  shows "raw_packet p = buf" "12 + wire_bytes_consumed (question p) \<le> length buf"
    "5 \<le> wire_bytes_consumed (question p)" "length (qname (question p)) \<le> 253"
    "normalized (qname (question p))"
proof -
  obtain n where p: "parsed_from p buf n" using assms parse_Ok_iff by blast
  then have d: "decode_name buf 12 = Some (Ok (qname (question p), n))"
    by (simp add: parsed_from_def)
  show "raw_packet p = buf" "12 + wire_bytes_consumed (question p) \<le> length buf"
    using p by (simp_all add: parsed_from_def)
  show "5 \<le> wire_bytes_consumed (question p)"
    using p decode_name_extent [OF d] by (simp add: parsed_from_def)
  show "length (qname (question p)) \<le> 253" using d by (auto simp: decode_name_iff)
  show "normalized (qname (question p))" using d by (rule decode_name_normalized)
qed

lemma length_query_bytes [len_simps]:
  "length (query_bytes h ls t c) = 16 + length (encode_name ls)"
  by (simp add: query_bytes_def)

lemma parse_query_bytes:
  assumes "\<forall>l \<in> set ls. valid_label l" "length (name_text ls) \<le> 253"
    and "wh_opcode h = 0" "wh_qdcount h = 1"
    and "length (query_bytes h ls t c @ extra) \<le> 4096"
  shows "parse (query_bytes h ls t c @ extra) = Some (Ok
    \<lparr>pp_header = h,
     question = \<lparr>qname = name_text ls, qtype = t, qclass = c,
                 wire_bytes_consumed = length (encode_name ls) + 4\<rparr>,
     raw_packet = query_bytes h ls t c @ extra\<rparr>)"
proof (rule parse_OkI [where n = "length (encode_name ls)"])
  let ?n = "length (encode_name ls)" and ?post = "[hi8 t, lo8 t, hi8 c, lo8 c] @ extra"
  have "decode_name (header_bytes h @ encode_name ls @ ?post) (length (header_bytes h)) =
      Some (Ok (name_text ls, ?n))"
    using assms(1,2) by (rule decode_name_encode)
  moreover have "(header_bytes h @ encode_name ls @ ?post) ! (12 + ?n + i) = ?post ! i" for i
    using nth_append_length_plus [of "header_bytes h @ encode_name ls" ?post i] by simp
  note this [of 0] this [of 1] this [of 2] this [of 3]
  ultimately show "parsed_from \<lparr>pp_header = h,
     question = \<lparr>qname = name_text ls, qtype = t, qclass = c, wire_bytes_consumed = ?n + 4\<rparr>,
     raw_packet = query_bytes h ls t c @ extra\<rparr> (query_bytes h ls t c @ extra) ?n"
    using assms(3-5)
    by (simp add: parsed_from_def query_bytes_def add.commute add.left_commute eval_nat_numeral)
qed

section \<open>More and fewer bytes\<close>

lemma wire_name_extend:
  "wire_name buf j off k ls n \<Longrightarrow> wire_name (buf @ extra) j off k ls n"
proof (induction rule: wire_name.induct)
  case (root off j)
  then show ?case by (intro wire_name.root) (simp_all add: nth_append)
next
  case (label off l j k ls n)
  then have b: "(buf @ extra) ! off = buf ! off" by (simp add: nth_append)
  with label show ?case using wire_name.label [of off "buf @ extra" l j k ls n] unfolding b by simp
next
  case (pointer off ptr j k ls n)
  then have "(buf @ extra) ! off = buf ! off" "(buf @ extra) ! (off + 1) = buf ! (off + 1)" by (simp_all add: nth_append)
  with pointer wire_name.pointer [of off "buf @ extra" ptr j k ls n] show ?case by simp
qed

lemma wire_header_parse_append:
  assumes "12 \<le> length buf"
  shows "wire_header_parse (buf @ extra) = wire_header_parse buf"
proof -
  have "(buf @ extra) ! i = buf ! i" if "i < 12" for i using assms that by (simp add: nth_append)
  with assms show ?thesis by (simp add: wire_header_parse_eq)
qed

lemma parsed_from_extend:
  assumes "parsed_from p buf n" "length (buf @ extra) \<le> 4096"
  shows "parsed_from (p\<lparr>raw_packet := buf @ extra\<rparr>) (buf @ extra) n"
  using assms unfolding parsed_from_def decode_name_iff
  by (auto simp: wire_header_parse_append nth_append intro: wire_name_extend)

lemma parse_extend:
  assumes "parse buf = Some (Ok p)" "length (buf @ extra) \<le> 4096"
  shows "parse (buf @ extra) = Some (Ok (p\<lparr>raw_packet := buf @ extra\<rparr>))"
proof -
  obtain n where "parsed_from p buf n" using assms(1) by (rule parse_OkD)
  from parse_OkI [OF parsed_from_extend [OF this assms(2)]] show ?thesis .
qed

lemma strict_prefix_rejected:
  assumes "parse buf = Some (Ok p)" "n < 12 + wire_bytes_consumed (question p)"
  shows "\<exists>e. parse (take n buf) = Some (Err e)"
proof -
  obtain r where r: "parse (take n buf) = Some r" using parse_not_None by blast
  show ?thesis
  proof (cases r)
    case (Ok p')
    have "length buf \<le> 4096" using assms(1) by (simp add: parse_def split: if_splits)
    with parse_extend [of "take n buf" p' "drop n buf"] r Ok assms(1)
    have "question p' = question p" by auto
    with parse_Ok_question(2) [of "take n buf" p'] r Ok assms(2) show ?thesis by simp
  qed (use r in simp)
qed

section \<open>Properties\<close>

text \<open>A sample query, for the witnesses: \<open>WwW.ex\<close>, type A, class IN, recursion desired.\<close>

definition sample_header :: wire_header where
  "sample_header = \<lparr>wh_id = 0x1234, wh_flags = 0x0100, wh_qdcount = 1, wh_ancount = 0,
     wh_nscount = 0, wh_arcount = 0\<rparr>"

definition sample_labels :: "bytes list" where
  "sample_labels = map (map char_byte) [''WwW'', ''ex'']"

lemma sample_query_parses: "\<exists>p. parse (query_bytes sample_header sample_labels 1 1) = Some (Ok p)"
proof -
  let ?q = "query_bytes sample_header sample_labels 1 1"
  obtain r where "parse ?q = Some r" using parse_not_None by blast
  moreover have "is_ok (the (parse ?q))" by code_simp
  ultimately show ?thesis by (auto simp: is_ok_iff)
qed

text \<open>Property C10 (memory safety and totality of the parser). On every buffer and at every offset,
  \<open>decode_name\<close> and \<open>parse\<close> return a value or an error code; no read leaves the buffer.\<close>

theorem parser_memory_safe:
  "(\<exists>r. parse buf = Some r) \<and> (\<exists>r. decode_name buf off = Some r)"
  using parse_not_None [of buf] decode_name_not_None [of buf off] by auto

text \<open>Property C11 (refinement of the name decoder). \<open>decode_name\<close> succeeds exactly on the names of
  the relation \<open>wire_name\<close> that use at most eight pointers and whose text has at most 253
  characters; it returns the lowercased labels joined by dots and the bytes that stand in place.\<close>

theorem decode_name_refines_wire_name:
  "decode_name buf off = Some (Ok (name, n)) \<longleftrightarrow>
    (\<exists>k ls. wire_name buf False off k ls n \<and> k \<le> kMaxCompressionDepth \<and>
       name = join_dots (map label_string ls) \<and> length name \<le> kMaxDomainNameLength)"
  by (simp add: decode_name_iff)

text \<open>Property C12 (what an accepted packet guarantees). The question of an accepted packet lies
  inside the packet, which has 17 to 4096 bytes and is kept unchanged; the name is lowercase, free
  of control characters, at most 253 characters and built from at most 127 labels of 1 to 63 bytes;
  the header has opcode QUERY and exactly one question.\<close>

theorem parse_accepted_packet:
  assumes "parse buf = Some (Ok p)"
  shows "raw_packet p = buf \<and> length buf \<le> 4096 \<and>
    5 \<le> wire_bytes_consumed (question p) \<and> 12 + wire_bytes_consumed (question p) \<le> length buf \<and>
    wh_opcode (pp_header p) = opcode_code QUERY \<and> wh_qdcount (pp_header p) = 1 \<and>
    normalized (qname (question p)) \<and> length (qname (question p)) \<le> 253 \<and>
    (\<exists>ls. qname (question p) = name_text ls \<and> length ls \<le> 127 \<and> (\<forall>l \<in> set ls. valid_label l))"
proof -
  obtain n where p: "parsed_from p buf n" using assms by (rule parse_OkD)
  then obtain k ls where w: "wire_name buf False 12 k ls n" "length (qname (question p)) \<le> 253"
    and name: "qname (question p) = name_text ls"
    by (auto simp: parsed_from_def decode_name_iff name_text_def)
  have "2 * length ls \<le> Suc (length (name_text ls))"
    using length_join_dots [OF wire_name_no_empty_label [OF w(1)]] by (simp add: name_text_def)
  then have "length ls \<le> 127" using w(2) name by simp
  moreover have "\<forall>l \<in> set ls. valid_label l"
    using wire_name_chars [OF w(1)] wire_name_label_lengths [OF w(1)]
    by (auto simp: valid_label_def Suc_le_eq)
  ultimately show ?thesis
    using p name parse_Ok_question [OF assms] by (auto simp: parsed_from_def)
qed

theorem parse_accepted_packet_witness:
  "\<exists>p. parse (query_bytes sample_header sample_labels 1 1) = Some (Ok p) \<and>
     normalized (qname (question p))"
  using sample_query_parses parse_accepted_packet by blast

text \<open>Property C13 (round trip). A query encoded from valid labels, with anything after its question
  (an OPT record, say), parses back to its header, the lowercased name, type and class.\<close>

theorem parse_encoded_query:
  assumes "\<forall>l \<in> set ls. valid_label l" "length (name_text ls) \<le> 253"
    and "wh_opcode h = opcode_code QUERY" "wh_qdcount h = 1"
    and "length (query_bytes h ls t c @ extra) \<le> kMaxEdns0PayloadSize"
  shows "parse (query_bytes h ls t c @ extra) = Some (Ok
    \<lparr>pp_header = h,
     question = \<lparr>qname = name_text ls, qtype = t, qclass = c,
                 wire_bytes_consumed = length (encode_name ls) + 4\<rparr>,
     raw_packet = query_bytes h ls t c @ extra\<rparr>)"
  using assms by (intro parse_query_bytes) simp_all

theorem parse_encoded_query_witness:
  "parse (query_bytes sample_header sample_labels 28 1 @ [7]) = Some (Ok
    \<lparr>pp_header = sample_header,
     question = \<lparr>qname = ''www.ex'', qtype = 28, qclass = 1, wire_bytes_consumed = 12\<rparr>,
     raw_packet = query_bytes sample_header sample_labels 28 1 @ [7]\<rparr>)"
proof -
  have "\<forall>l \<in> set sample_labels. valid_label l" by code_simp
  moreover have "name_text sample_labels = ''www.ex''" by code_simp
  moreover have "length (encode_name sample_labels) = 8" by code_simp
  moreover have "wh_opcode sample_header = opcode_code QUERY" by code_simp
  ultimately show ?thesis
    using parse_encoded_query [of sample_labels sample_header 28 1 "[7]"]
    by (simp add: len_simps sample_header_def)
qed

text \<open>Property C14 (the question decides). Bytes after the question of an accepted packet never change
  what the parser makes of it, as long as the packet keeps within 4096 bytes; and a packet that is cut
  anywhere before the end of its question is rejected.\<close>

theorem question_decides:
  assumes "parse buf = Some (Ok p)"
  shows "(length (buf @ extra) \<le> kMaxEdns0PayloadSize \<longrightarrow>
      parse (buf @ extra) = Some (Ok (p\<lparr>raw_packet := buf @ extra\<rparr>))) \<and>
    (n < kDnsHeaderSize + wire_bytes_consumed (question p) \<longrightarrow> (\<exists>e. parse (take n buf) = Some (Err e)))"
  using parse_extend [OF assms, of extra] strict_prefix_rejected [OF assms, of n] by simp

theorem question_decides_witness:
  "\<exists>p e. parse (query_bytes sample_header sample_labels 1 1) = Some (Ok p) \<and>
     parse (query_bytes sample_header sample_labels 1 1 @ [1, 2]) =
       Some (Ok (p\<lparr>raw_packet := query_bytes sample_header sample_labels 1 1 @ [1, 2]\<rparr>)) \<and>
     parse (take 16 (query_bytes sample_header sample_labels 1 1)) = Some (Err e)"
proof -
  obtain p where p: "parse (query_bytes sample_header sample_labels 1 1) = Some (Ok p)"
    using sample_query_parses by blast
  have "length (encode_name sample_labels) = 8" by code_simp
  then have "length (query_bytes sample_header sample_labels 1 1 @ [1, 2]) \<le> kMaxEdns0PayloadSize"
    by (simp add: len_simps)
  moreover have "16 < kDnsHeaderSize + wire_bytes_consumed (question p)"
    using parse_Ok_question(3) [OF p] by simp
  ultimately show ?thesis using question_decides [OF p, of "[1, 2]" 16] p by blast
qed

text \<open>Further fact (names are not separated from their labels). A dot inside a label is kept as it
  is, so the one-label name \<open>l1.l2\<close> and the two-label name with labels \<open>l1\<close> and \<open>l2\<close> decode to the
  same string: the policy engine and the cache cannot tell them apart.\<close>

theorem decode_name_not_injective:
  assumes "valid_label l1" "valid_label l2" "length l1 + length l2 \<le> 62"
  shows "\<exists>name n n'. [l1 @ char_byte CHR ''.'' # l2] \<noteq> [l1, l2] \<and>
    decode_name (encode_name [l1 @ char_byte CHR ''.'' # l2]) 0 = Some (Ok (name, n)) \<and>
    decode_name (encode_name [l1, l2]) 0 = Some (Ok (name, n'))"
proof -
  let ?dot = "char_byte CHR ''.''"
  have "label_char_ok ?dot" by code_simp
  with assms have "valid_label (l1 @ ?dot # l2)" by (auto simp: valid_label_def)
  moreover have "name_text [l1 @ ?dot # l2] = name_text [l1, l2]"
    by (simp add: name_text_def label_string_def)
  moreover have "length (name_text [l1, l2]) \<le> 253"
    using assms(3) by (simp add: name_text_def)
  ultimately show ?thesis
    using assms decode_name_encode [of "[l1 @ ?dot # l2]" "[]" "[]"]
      decode_name_encode [of "[l1, l2]" "[]" "[]"] by auto
qed

theorem decode_name_not_injective_witness:
  "\<exists>name n n'.
    decode_name (encode_name [map char_byte ''evil.com'']) 0 = Some (Ok (name, n)) \<and>
    decode_name (encode_name [map char_byte ''evil'', map char_byte ''com'']) 0 = Some (Ok (name, n'))"
proof -
  let ?a = "map char_byte ''evil''" and ?b = "map char_byte ''com''"
  have e: "map char_byte ''evil.com'' = ?a @ char_byte CHR ''.'' # ?b"
    by code_simp
  have v: "valid_label ?a" "valid_label ?b" by code_simp+
  have "length ?a + length ?b \<le> 62" by (simp only: length_map) simp
  from decode_name_not_injective [OF v this] show ?thesis
    unfolding e by (elim exE conjE) (intro exI conjI, assumption, assumption)
qed

definition forward_pointer_packet :: bytes where
  "forward_pointer_packet =
     [0x12, 0x34, 0x01, 0x00, 0x00, 0x01, 0xC0, 0x12, 0, 0, 0, 0,
      0xC0, 0x06, 0, 1, 0, 1, 1, 0x61, 0]"

text \<open>Further fact (forward pointers). Only the first pointer of a name has to lead backwards: in
  this 21-byte packet the name at offset 12 is a pointer to offset 6, where a pointer leads forward
  to offset 18, and the packet is accepted.\<close>

theorem forward_pointer_accepted:
  "pointer_target (forward_pointer_packet ! 6) (forward_pointer_packet ! 7) = 18 \<and>
   map_option is_ok (parse forward_pointer_packet) = Some True \<and>
   decode_name forward_pointer_packet 12 = Some (Ok (''a'', 2))"
proof (intro conjI)
  show "pointer_target (forward_pointer_packet ! 6) (forward_pointer_packet ! 7) = 18" by code_simp
  show "map_option is_ok (parse forward_pointer_packet) = Some True" by code_simp
  show "decode_name forward_pointer_packet 12 = Some (Ok (''a'', 2))" by code_simp
qed

end
