(* ===== verification/Response.thy ===== *)
theory Response
  imports Parser
begin

text \<open>
  The response builder (\<open>dataplane/src/dns/response.cpp\<close>): error responses, sinkhole answers and the
  translation of transaction ids. A vector is allocated with zero bytes and written byte by byte;
  each write and each \<open>memcpy\<close> is checked, and \<open>None\<close> is an access outside the vector or outside the
  packet the question is copied from. The target is little-endian (ARM64, x86-64): a \<open>uint32_t\<close> in
  memory is its low byte first.
\<close>

section \<open>The code\<close>

text \<open>The destination operand of \<open>memcpy(dst.data() + off, src, n)\<close>.\<close>

definition wr_range :: "'a list \<Rightarrow> nat \<Rightarrow> 'a list \<Rightarrow> 'a list option" where
  "wr_range dst off src =
     (if off + length src \<le> length dst
      then Some (take off dst @ src @ drop (off + length src) dst) else None)"

definition htonl :: "u32 \<Rightarrow> u32" where
  "htonl x = push_bit 24 (x AND 0xFF) OR push_bit 8 (x AND 0xFF00)
     OR drop_bit 8 (x AND 0xFF0000) OR drop_bit 24 x"

definition mem_bytes32 :: "u32 \<Rightarrow> bytes" where
  "mem_bytes32 x = [ucast x, ucast (drop_bit 8 x), ucast (drop_bit 16 x), ucast (drop_bit 24 x)]"

definition build_error_response :: "parsed_packet \<Rightarrow> rcode \<Rightarrow> bytes option" where
  "build_error_response query rc = do {
     let resp_size = kDnsHeaderSize + wire_bytes_consumed (question query);
     let resp = replicate resp_size 0;
     resp \<leftarrow> wr resp 0 (hi8 (wh_id (pp_header query)));
     resp \<leftarrow> wr resp 1 (lo8 (wh_id (pp_header query)));
     let flags = 0x8180 OR (ucast (rcode_code rc) AND 0x000F);
     let flags = (if wh_rd (pp_header query) then flags OR 0x0100 else flags);
     resp \<leftarrow> wr resp 2 (hi8 flags);
     resp \<leftarrow> wr resp 3 (lo8 flags);
     resp \<leftarrow> wr resp 4 0x00; resp \<leftarrow> wr resp 5 0x01;
     resp \<leftarrow> wr resp 6 0x00; resp \<leftarrow> wr resp 7 0x00;
     resp \<leftarrow> wr resp 8 0x00; resp \<leftarrow> wr resp 9 0x00;
     resp \<leftarrow> wr resp 10 0x00; resp \<leftarrow> wr resp 11 0x00;
     q \<leftarrow> rd_range (raw_packet query) kDnsHeaderSize (wire_bytes_consumed (question query));
     wr_range resp kDnsHeaderSize q
   }"

definition build_sinkhole_response :: "parsed_packet \<Rightarrow> u32 \<Rightarrow> u32 \<Rightarrow> bytes option" where
  "build_sinkhole_response query sinkhole_ipv4_be ttl_sec = do {
     let q_size = wire_bytes_consumed (question query);
     let resp_size = kDnsHeaderSize + q_size + 16;
     let resp = replicate resp_size 0;
     resp \<leftarrow> wr resp 0 (hi8 (wh_id (pp_header query)));
     resp \<leftarrow> wr resp 1 (lo8 (wh_id (pp_header query)));
     let flags = 0x8580;
     let flags = (if wh_rd (pp_header query) then flags OR 0x0100 else flags);
     resp \<leftarrow> wr resp 2 (hi8 flags);
     resp \<leftarrow> wr resp 3 (lo8 flags);
     resp \<leftarrow> wr resp 4 0x00; resp \<leftarrow> wr resp 5 0x01;
     resp \<leftarrow> wr resp 6 0x00; resp \<leftarrow> wr resp 7 0x01;
     resp \<leftarrow> wr resp 8 0x00; resp \<leftarrow> wr resp 9 0x00;
     resp \<leftarrow> wr resp 10 0x00; resp \<leftarrow> wr resp 11 0x00;
     q \<leftarrow> rd_range (raw_packet query) kDnsHeaderSize q_size;
     resp \<leftarrow> wr_range resp kDnsHeaderSize q;
     let ans = kDnsHeaderSize + q_size;
     resp \<leftarrow> wr resp (ans + 0) 0xC0; resp \<leftarrow> wr resp (ans + 1) 0x0C;
     resp \<leftarrow> wr resp (ans + 2) 0x00; resp \<leftarrow> wr resp (ans + 3) 0x01;
     resp \<leftarrow> wr resp (ans + 4) 0x00; resp \<leftarrow> wr resp (ans + 5) 0x01;
     let net_ttl = htonl ttl_sec;
     resp \<leftarrow> wr_range resp (ans + 6) (mem_bytes32 net_ttl);
     resp \<leftarrow> wr resp (ans + 10) 0x00; resp \<leftarrow> wr resp (ans + 11) 0x04;
     wr_range resp (ans + 12) (mem_bytes32 sinkhole_ipv4_be)
   }"

text \<open>The result and the buffer after the call.\<close>

definition translate_txid :: "bytes \<Rightarrow> u16 \<Rightarrow> bool \<times> bytes" where
  "translate_txid response_buffer client_txid =
     (if length response_buffer < 2 then (False, response_buffer)
      else (True, response_buffer[0 := hi8 client_txid, 1 := lo8 client_txid]))"

section \<open>Writing a block of bytes\<close>

lemma wr_append1: "i < length xs \<Longrightarrow> wr (xs @ ys) i v = Some (xs[i := v] @ ys)"
  by (simp add: wr_def list_update_append)

lemma wr_append2: "length xs \<le> i \<Longrightarrow> i < length xs + length ys \<Longrightarrow>
    wr (xs @ ys) i v = Some (xs @ ys[i - length xs := v])"
  by (simp add: wr_def list_update_append)

lemma wr_range_append:
  "off = length xs \<Longrightarrow> length src = length ys \<Longrightarrow> wr_range (xs @ ys @ zs) off src = Some (xs @ src @ zs)"
  by (simp add: wr_range_def)

lemma mem_bytes32_htonl:
  "mem_bytes32 (htonl x) = [ucast (drop_bit 24 x), ucast (drop_bit 16 x), ucast (drop_bit 8 x), ucast x]"
proof -
  have m: "(0xFF :: u32) = mask 8" "(0xFF00 :: u32) = push_bit 8 (mask 8)"
    "(0xFF0000 :: u32) = push_bit 16 (mask 8)"
    by (simp_all add: mask_eq_exp_minus_1)
  show ?thesis
    unfolding mem_bytes32_def htonl_def m
    by (auto intro!: bit_word_eqI simp: bit_simps)
qed

section \<open>The response as header, question and answer\<close>

definition question_bytes :: "parsed_packet \<Rightarrow> bytes" where
  "question_bytes q = take (wire_bytes_consumed (question q)) (drop 12 (raw_packet q))"

definition error_flags :: "rcode \<Rightarrow> u16" where
  "error_flags rc = 0x8180 OR ucast (rcode_code rc)"

definition error_header :: "parsed_packet \<Rightarrow> rcode \<Rightarrow> wire_header" where
  "error_header q rc = \<lparr>wh_id = wh_id (pp_header q), wh_flags = error_flags rc,
     wh_qdcount = 1, wh_ancount = 0, wh_nscount = 0, wh_arcount = 0\<rparr>"

definition sinkhole_header :: "parsed_packet \<Rightarrow> wire_header" where
  "sinkhole_header q = \<lparr>wh_id = wh_id (pp_header q), wh_flags = 0x8580,
     wh_qdcount = 1, wh_ancount = 1, wh_nscount = 0, wh_arcount = 0\<rparr>"

definition answer_bytes :: "u32 \<Rightarrow> u32 \<Rightarrow> bytes" where
  "answer_bytes ip_be ttl =
     [0xC0, 0x0C, 0, 1, 0, 1,
      ucast (drop_bit 24 ttl), ucast (drop_bit 16 ttl), ucast (drop_bit 8 ttl), ucast ttl,
      0, 4] @ mem_bytes32 ip_be"

lemma length_mem_bytes32 [len_simps, simp]: "length (mem_bytes32 x) = 4"
  by (simp add: mem_bytes32_def)

lemma length_answer_bytes [len_simps, simp]: "length (answer_bytes ip ttl) = 16"
  by (simp add: answer_bytes_def)

lemma error_flags_code:
  "0x8180 OR (ucast (rcode_code rc) AND 0x000F) = error_flags rc"
  "error_flags rc OR 0x0100 = error_flags rc"
  by (cases rc; simp add: error_flags_def)+

lemma const_bytes:
  "hi8 0 = 0" "lo8 0 = 0" "hi8 1 = 0" "lo8 1 = 1"
  by (simp_all add: hi8_def lo8_def)

text \<open>Twelve writes to a zeroed vector leave the twelve bytes of a header, whatever is done next.\<close>

lemma write_header:
  "wr (replicate (12 + n) 0) 0 a0 \<bind> (\<lambda>r. wr r 1 a1 \<bind> (\<lambda>r. wr r 2 a2 \<bind> (\<lambda>r. wr r 3 a3 \<bind>
   (\<lambda>r. wr r 4 a4 \<bind> (\<lambda>r. wr r 5 a5 \<bind> (\<lambda>r. wr r 6 a6 \<bind> (\<lambda>r. wr r 7 a7 \<bind>
   (\<lambda>r. wr r 8 a8 \<bind> (\<lambda>r. wr r 9 a9 \<bind> (\<lambda>r. wr r 10 a10 \<bind> (\<lambda>r. wr r 11 a11 \<bind> k))))))))))) =
   k ([a0, a1, a2, a3, a4, a5, a6, a7, a8, a9, a10, a11] @ replicate n (0 :: u8))"
proof -
  have "replicate (12 + n) (0 :: u8) = [0,0,0,0,0,0,0,0,0,0,0,0] @ replicate n 0"
    by (simp add: eval_nat_numeral)
  then show ?thesis by (simp add: wr_def eval_nat_numeral)
qed

lemma question_bytes_range:
  assumes "12 + wire_bytes_consumed (question q) \<le> length (raw_packet q)"
  shows "rd_range (raw_packet q) 12 (wire_bytes_consumed (question q)) = Some (question_bytes q)"
    and "length (question_bytes q) = wire_bytes_consumed (question q)"
  using assms by (simp_all add: rd_range_def question_bytes_def)

lemma build_error_response_eq:
  assumes "12 + wire_bytes_consumed (question q) \<le> length (raw_packet q)"
  shows "build_error_response q rc = Some (header_bytes (error_header q rc) @ question_bytes q)"
  unfolding build_error_response_def k_defs Let_def write_header question_bytes_range(1) [OF assms]
  using question_bytes_range(2) [OF assms]
  by (simp add: wr_range_def error_flags_code header_bytes_def error_header_def const_bytes)

text \<open>The sixteen bytes of the answer, written after header and question.\<close>

lemma write_answer:
  assumes "length xs = a"
  shows "wr (xs @ replicate 16 0) (a + 0) 0xC0 \<bind> (\<lambda>r. wr r (a + 1) 0x0C \<bind>
    (\<lambda>r. wr r (a + 2) 0x00 \<bind> (\<lambda>r. wr r (a + 3) 0x01 \<bind> (\<lambda>r. wr r (a + 4) 0x00 \<bind>
    (\<lambda>r. wr r (a + 5) 0x01 \<bind> (\<lambda>r. wr_range r (a + 6) (mem_bytes32 (htonl ttl)) \<bind>
    (\<lambda>r. wr r (a + 10) 0x00 \<bind> (\<lambda>r. wr r (a + 11) 0x04 \<bind>
    (\<lambda>r. wr_range r (a + 12) (mem_bytes32 ip)))))))))) = Some (xs @ answer_bytes ip ttl)"
proof -
  have "replicate 16 (0 :: u8) = [0,0,0,0,0,0,0,0,0,0,0,0,0,0,0,0]"
    by (simp add: eval_nat_numeral)
  with assms show ?thesis
    by (simp add: wr_append2 list_update_append wr_range_def mem_bytes32_htonl answer_bytes_def
        eval_nat_numeral)
qed

lemma build_sinkhole_response_eq:
  assumes "12 + wire_bytes_consumed (question q) \<le> length (raw_packet q)"
  shows "build_sinkhole_response q ip ttl =
    Some (header_bytes (sinkhole_header q) @ question_bytes q @ answer_bytes ip ttl)"
proof -
  let ?n = "wire_bytes_consumed (question q)"
  have copy: "wr_range (xs @ replicate (?n + 16) 0) 12 (question_bytes q) =
      Some ((xs @ question_bytes q) @ replicate 16 0)" if "length xs = 12" for xs :: bytes
    using wr_range_append [of 12 xs "question_bytes q" "replicate ?n 0" "replicate 16 0"] that
      question_bytes_range(2) [OF assms] by (simp add: replicate_add)
  have flags: "(if b then 0x8580 OR 0x0100 else 0x8580) = (0x8580 :: u16)" for b by simp
  have size: "12 + ?n + 16 = 12 + (?n + 16)" by simp
  show ?thesis
    unfolding build_sinkhole_response_def k_defs Let_def size write_header flags
      question_bytes_range(1) [OF assms] Option.bind.bind_lunit
    by (subst copy, simp, subst Option.bind.bind_lunit, subst write_answer)
      (simp_all add: question_bytes_range(2) [OF assms] header_bytes_def sinkhole_header_def const_bytes)
qed

text \<open>An encoded query is answered in the same encoding.\<close>

lemma question_bytes_query:
  "question_bytes \<lparr>pp_header = h,
     question = \<lparr>qname = s, qtype = t', qclass = c', wire_bytes_consumed = length (encode_name ls) + 4\<rparr>,
     raw_packet = query_bytes h ls t c @ extra\<rparr> = encode_name ls @ [hi8 t, lo8 t, hi8 c, lo8 c]"
  by (simp add: question_bytes_def query_bytes_def)

lemma decode_name_pointer_to_question:
  assumes "\<forall>l \<in> set ls. valid_label l" "length (name_text ls) \<le> 253"
    and "q = query_bytes h ls t c"
  shows "decode_name (q @ 0xC0 # 0x0C # rest) (length q) = Some (Ok (name_text ls, 2))"
proof -
  let ?buf = "q @ 0xC0 # 0x0C # rest"
  have "?buf = header_bytes h @ encode_name ls @ ([hi8 t, lo8 t, hi8 c, lo8 c] @ 0xC0 # 0x0C # rest)"
    by (simp add: assms(3) query_bytes_def)
  then have "wire_name ?buf True 12 0 ls 0"
    using wire_name_jumped [OF wire_name_encode [OF assms(1)]] length_header_bytes by metis
  moreover have "pointer_target 0xC0 0x0C = 12" by code_simp
  ultimately have "wire_name ?buf False (length q) 1 ls 2"
    using wire_name.pointer [of "length q" ?buf 12 False 0 ls 0] assms(3)
    by (simp add: nth_append len_simps)
  with assms(2) show ?thesis unfolding decode_name_iff name_text_def by force
qed

section \<open>Properties\<close>

lemma error_header_fields:
  "is_response (error_header q rc)" "wh_rcode (error_header q rc) = rcode_code rc"
  "wh_opcode (error_header q rc) = 0" "wh_rd (error_header q rc)"
  "wh_flags (error_header q rc) AND 0x0400 = 0"
  by (cases rc; simp add: error_header_def error_flags_def is_response_def wh_rcode_def
      wh_opcode_def wh_rd_def)+

text \<open>Further fact (error responses). For every accepted packet and every response code the builder
  stays in bounds and produces the header of a response with the query's id, opcode QUERY, the
  requested code and one question, followed by the question section byte for byte; the response is
  never longer than the query.\<close>

theorem error_response_of_accepted_packet:
  assumes "parse buf = Some (Ok q)"
  shows "\<exists>resp h. build_error_response q rc = Some resp \<and> wire_header_parse resp = Some h \<and>
    wh_id h = wh_id (pp_header q) \<and> is_response h \<and> wh_opcode h = opcode_code QUERY \<and>
    wh_rcode h = rcode_code rc \<and>
    wh_qdcount h = 1 \<and> wh_ancount h = 0 \<and> wh_nscount h = 0 \<and> wh_arcount h = 0 \<and>
    drop 12 resp = take (wire_bytes_consumed (question q)) (drop 12 buf) \<and>
    length resp \<le> length buf"
proof -
  note q = parse_Ok_question [OF assms]
  have "build_error_response q rc = Some (header_bytes (error_header q rc) @ question_bytes q)"
    using q by (intro build_error_response_eq) simp
  moreover have "question_bytes q = take (wire_bytes_consumed (question q)) (drop 12 buf)"
    by (simp add: question_bytes_def q)
  ultimately show ?thesis
    using q error_header_fields [of q rc] by (simp add: error_header_def)
qed

theorem error_response_of_accepted_packet_witness:
  "\<exists>q resp. parse (query_bytes sample_header sample_labels 1 1) = Some (Ok q) \<and>
     build_error_response q NXDOMAIN = Some resp"
  using sample_query_parses error_response_of_accepted_packet by blast

text \<open>Further fact (flags of error responses). Every error response has RD set, whether or not the
  query had it, and AA clear: the constant is \<open>0x8180\<close>.\<close>

theorem error_response_flags:
  assumes "parse buf = Some (Ok q)"
  shows "\<exists>resp h. build_error_response q rc = Some resp \<and> wire_header_parse resp = Some h \<and>
    wh_rd h \<and> wh_flags h AND 0x0400 = 0"
  using parse_Ok_question [OF assms] error_header_fields [of q rc]
  by (simp add: build_error_response_eq)

theorem error_response_flags_witness:
  "\<exists>q resp h. parse (query_bytes (sample_header\<lparr>wh_flags := 0\<rparr>) sample_labels 1 1) = Some (Ok q) \<and>
     \<not> wh_rd (pp_header q) \<and>
     build_error_response q REFUSED = Some resp \<and> wire_header_parse resp = Some h \<and> wh_rd h"
proof -
  have "\<forall>l \<in> set sample_labels. valid_label l" "length (name_text sample_labels) \<le> 253"
    "length (encode_name sample_labels) = 8" "wh_opcode (sample_header\<lparr>wh_flags := 0\<rparr>) = 0"
    "wh_qdcount (sample_header\<lparr>wh_flags := 0\<rparr>) = 1" "\<not> wh_rd (sample_header\<lparr>wh_flags := 0\<rparr>)"
    by code_simp+
  with parse_query_bytes [of sample_labels "sample_header\<lparr>wh_flags := 0\<rparr>" 1 1 "[]"]
  have "\<exists>q. parse (query_bytes (sample_header\<lparr>wh_flags := 0\<rparr>) sample_labels 1 1) = Some (Ok q) \<and>
      \<not> wh_rd (pp_header q)"
    by (simp add: len_simps)
  then show ?thesis using error_response_flags by blast
qed

text \<open>Further fact (error responses parse back). The error response to an encoded query is itself an
  accepted packet with the same question.\<close>

theorem error_response_parses_back:
  assumes "\<forall>l \<in> set ls. valid_label l" "length (name_text ls) \<le> 253"
    and "parse (query_bytes h ls t c @ extra) = Some (Ok q)"
  shows "\<exists>resp r. build_error_response q rc = Some resp \<and> parse resp = Some (Ok r) \<and>
    qname (question r) = name_text ls \<and> qtype (question r) = t \<and> qclass (question r) = c \<and>
    wh_id (pp_header r) = wh_id h \<and> wh_rcode (pp_header r) = rcode_code rc"
proof -
  obtain n where "parsed_from q (query_bytes h ls t c @ extra) n" using assms(3) by (rule parse_OkD)
  then have h: "wh_opcode h = 0" "wh_qdcount h = 1" "length (query_bytes h ls t c @ extra) \<le> 4096"
    by (auto simp: parsed_from_def query_bytes_def)
  from parse_query_bytes [OF assms(1,2) h] have
    q: "q = \<lparr>pp_header = h, question = \<lparr>qname = name_text ls, qtype = t, qclass = c,
          wire_bytes_consumed = length (encode_name ls) + 4\<rparr>, raw_packet = query_bytes h ls t c @ extra\<rparr>"
    using assms(3) by simp
  have "build_error_response q rc = Some (query_bytes (error_header q rc) ls t c)"
    by (subst build_error_response_eq)
      (simp_all add: q question_bytes_query len_simps, simp add: query_bytes_def)
  moreover have "wh_opcode (error_header q rc) = 0" "wh_qdcount (error_header q rc) = 1"
    by (simp_all only: error_header_fields) (simp add: error_header_def)
  note parse_query_bytes [OF assms(1,2) this, of t c "[]"]
  ultimately show ?thesis
    using h(3) error_header_fields [of q rc] by (simp add: len_simps) (simp add: q error_header_def)
qed

theorem error_response_parses_back_witness:
  "\<exists>q resp r. parse (query_bytes sample_header sample_labels 1 1 @ []) = Some (Ok q) \<and>
     build_error_response q SERVFAIL = Some resp \<and> parse resp = Some (Ok r) \<and>
     qname (question r) = name_text sample_labels"
proof -
  have "\<forall>l \<in> set sample_labels. valid_label l" "length (name_text sample_labels) \<le> 253"
    by code_simp+
  then show ?thesis
    using error_response_parses_back [of sample_labels sample_header 1 1 "[]" _ SERVFAIL]
      sample_query_parses by fastforce
qed

text \<open>Property C38 (sinkhole answers). The sinkhole response to an encoded query stays in bounds; it
  is a response with one answer, it parses back to the same question, the answer's name is a
  compression pointer that decodes to the queried name, and the answer is an A record of class IN
  with the given time to live in network order and the given address.\<close>

theorem sinkhole_response_of_encoded_query:
  assumes "\<forall>l \<in> set ls. valid_label l" "length (name_text ls) \<le> 253"
    and "parse (query_bytes h ls t c @ extra) = Some (Ok q)"
    and "length (encode_name ls) \<le> 4000"
  shows "\<exists>resp r a. build_sinkhole_response q ip ttl = Some resp \<and> parse resp = Some (Ok r) \<and>
    is_response (pp_header r) \<and> wh_ancount (pp_header r) = 1 \<and> wh_id (pp_header r) = wh_id h \<and>
    qname (question r) = name_text ls \<and> qtype (question r) = t \<and> qclass (question r) = c \<and>
    a = 12 + wire_bytes_consumed (question r) \<and> length resp = a + 16 \<and>
    decode_name resp a = Some (Ok (name_text ls, 2)) \<and>
    drop (a + 2) resp = [0, 1, 0, 1, ucast (drop_bit 24 ttl), ucast (drop_bit 16 ttl),
      ucast (drop_bit 8 ttl), ucast ttl, 0, 4] @ mem_bytes32 ip"
proof -
  obtain n where "parsed_from q (query_bytes h ls t c @ extra) n" using assms(3) by (rule parse_OkD)
  then have h: "wh_opcode h = 0" "wh_qdcount h = 1" "length (query_bytes h ls t c @ extra) \<le> 4096"
    by (auto simp: parsed_from_def query_bytes_def)
  from parse_query_bytes [OF assms(1,2) h] have
    q: "q = \<lparr>pp_header = h, question = \<lparr>qname = name_text ls, qtype = t, qclass = c,
          wire_bytes_consumed = length (encode_name ls) + 4\<rparr>, raw_packet = query_bytes h ls t c @ extra\<rparr>"
    using assms(3) by simp
  let ?h = "sinkhole_header q" and ?ans = "answer_bytes ip ttl"
  let ?resp = "query_bytes ?h ls t c @ ?ans"
  have hdr: "wh_opcode ?h = 0" "wh_qdcount ?h = 1" "is_response ?h"
    by (simp_all add: sinkhole_header_def wh_opcode_def is_response_def)
  have build: "build_sinkhole_response q ip ttl = Some ?resp"
    by (subst build_sinkhole_response_eq)
      (simp_all add: q question_bytes_query len_simps, simp add: query_bytes_def)
  have "length ?resp \<le> 4096" using assms(4) by (simp add: len_simps)
  note parsed = parse_query_bytes [OF assms(1,2) hdr(1,2) this]
  have dec: "decode_name ?resp (16 + length (encode_name ls)) = Some (Ok (name_text ls, 2))"
    using decode_name_pointer_to_question [OF assms(1,2) refl, of ?h t c "drop 2 ?ans"]
    by (simp add: answer_bytes_def len_simps)
  have "drop (18 + length (encode_name ls)) ?resp = drop 2 ?ans"
    by (simp add: len_simps)
  then show ?thesis
    using build parsed dec hdr(3)
    by (simp add: sinkhole_header_def q len_simps add.commute answer_bytes_def)
qed

theorem sinkhole_response_of_encoded_query_witness:
  "\<exists>q resp. parse (query_bytes sample_header sample_labels 1 1 @ []) = Some (Ok q) \<and>
     build_sinkhole_response q 0x0100007F 60 = Some resp \<and>
     drop (length resp - 8) resp = [0, 60, 0, 4, 127, 0, 0, 1]"
proof -
  have l: "\<forall>l \<in> set sample_labels. valid_label l" "length (name_text sample_labels) \<le> 253"
    "length (encode_name sample_labels) \<le> 4000" by code_simp+
  obtain q where q: "parse (query_bytes sample_header sample_labels 1 1 @ []) = Some (Ok q)"
    using sample_query_parses by auto
  from sinkhole_response_of_encoded_query [OF l(1,2) q l(3), of "0x0100007F" 60]
  obtain resp a where r: "build_sinkhole_response q 0x0100007F 60 = Some resp" "length resp = a + 16"
    and ans: "drop (a + 2) resp = [0, 1, 0, 1, ucast (drop_bit 24 (60 :: u32)),
      ucast (drop_bit 16 (60 :: u32)), ucast (drop_bit 8 (60 :: u32)), ucast (60 :: u32), 0, 4] @
      mem_bytes32 0x0100007F" by blast
  have "drop (length resp - 8) resp = drop 6 (drop (a + 2) resp)" by (simp add: r(2) add.commute)
  also have "\<dots> = [0, 60, 0, 4, 127, 0, 0, 1]"
    unfolding ans by (simp add: mem_bytes32_def)
  finally show ?thesis using q r(1) by blast
qed

text \<open>Further fact (transaction id translation). On a buffer of at least two bytes the call succeeds,
  sets the header's id and changes no other byte; translating back restores the buffer. A shorter
  buffer is refused and left alone.\<close>

theorem translate_txid_spec:
  "translate_txid buf i = (2 \<le> length buf, if 2 \<le> length buf then [hi8 i, lo8 i] @ drop 2 buf else buf) \<and>
   (\<forall>h. wire_header_parse buf = Some h \<longrightarrow>
      wire_header_parse (snd (translate_txid buf i)) = Some (h\<lparr>wh_id := i\<rparr>) \<and>
      snd (translate_txid (snd (translate_txid buf i)) (wh_id h)) = buf)"
proof (cases "2 \<le> length buf")
  case True
  then obtain a b rest where buf: "buf = a # b # rest"
    by (metis Suc_le_length_iff numeral_2_eq_2)
  have "12 \<le> length buf" if "wire_header_parse buf = Some h" for h
    using that wire_header_parse_Some_iff by blast
  then show ?thesis
    by (auto simp: buf translate_txid_def wire_header_parse_eq)
next
  case False
  then have "\<not> 12 \<le> length buf" by simp
  then have "wire_header_parse buf = None"
    using wire_header_parse_Some_iff [of buf] by (cases "wire_header_parse buf") auto
  with False show ?thesis by (simp add: translate_txid_def)
qed

theorem translate_txid_spec_witness:
  "\<exists>h. wire_header_parse (query_bytes sample_header sample_labels 1 1) = Some h \<and>
     wire_header_parse (snd (translate_txid (query_bytes sample_header sample_labels 1 1) 7)) = Some (h\<lparr>wh_id := 7\<rparr>) \<and>
     snd (translate_txid (snd (translate_txid (query_bytes sample_header sample_labels 1 1) 7)) (wh_id h)) =
       query_bytes sample_header sample_labels 1 1"
proof -
  have "12 \<le> length (query_bytes sample_header sample_labels 1 1)" by (simp add: length_query_bytes)
  then obtain h where "wire_header_parse (query_bytes sample_header sample_labels 1 1) = Some h"
    using wire_header_parse_Some_iff by blast
  then show ?thesis using translate_txid_spec by blast
qed

end
