(* ===== verification/Rule_Matcher.thy ===== *)
theory Rule_Matcher
  imports Common
begin

text \<open>
  The interface between a policy and the structure that holds its suffix rules: a matcher is
  created empty, rules are added with an id, and a lookup says whether a rule covers a domain and
  which id it has. What a matcher promises is stated on the map from label paths (the labels of a
  domain from the top-level domain down) to rule ids that it represents.
\<close>

text \<open>The rule with the shortest nonempty prefix of a path.\<close>

definition covering_rule :: "(string list \<Rightarrow> u32 option) \<Rightarrow> string list \<Rightarrow> u32 option" where
  "covering_rule R path =
     (case filter (\<lambda>p. R p \<noteq> None) (tl (prefixes path)) of [] \<Rightarrow> None | p # _ \<Rightarrow> R p)"

lemma covering_rule_Nil [simp]: "covering_rule R [] = None"
  by (simp add: covering_rule_def)

lemma covering_rule_Cons:
  "covering_rule R (l # ls) =
     (case R [l] of Some r \<Rightarrow> Some r | None \<Rightarrow> covering_rule (\<lambda>p. R (l # p)) ls)"
  by (cases ls)
    (auto simp: covering_rule_def filter_map o_def split: option.splits list.splits)

lemma set_tl_prefixes: "set (tl (prefixes xs)) = {p. p \<noteq> [] \<and> prefix p xs}"
  by (cases xs) (auto simp: image_iff Cons_prefix_Cons prefix_Cons)

lemma covering_rule_None_iff:
  "covering_rule R path = None \<longleftrightarrow> (\<forall>p. p \<noteq> [] \<and> prefix p path \<longrightarrow> R p = None)"
proof -
  have "covering_rule R path = None \<longleftrightarrow> filter (\<lambda>p. R p \<noteq> None) (tl (prefixes path)) = []"
    by (auto simp: covering_rule_def filter_eq_Cons_iff split: list.splits)
  also have "\<dots> \<longleftrightarrow> (\<forall>p \<in> set (tl (prefixes path)). R p = None)"
    by (simp add: filter_empty_conv)
  finally show ?thesis by (auto simp: set_tl_prefixes)
qed

lemma covering_rule_none [simp]: "covering_rule (\<lambda>_. None) path = None"
  by (simp add: covering_rule_None_iff)

lemma covering_rule_shortest:
  assumes "covering_rule R path = Some r"
  shows "\<exists>p. p \<noteq> [] \<and> prefix p path \<and> R p = Some r \<and>
    (\<forall>p'. p' \<noteq> [] \<and> prefix p' path \<and> R p' \<noteq> None \<longrightarrow> prefix p p')"
  using assms
proof (induction path arbitrary: R)
  case (Cons l ls)
  show ?case
  proof (cases "R [l]")
    case None
    then have "covering_rule (\<lambda>p. R (l # p)) ls = Some r" using Cons.prems by (simp add: covering_rule_Cons)
    from Cons.IH [OF this] obtain p where p: "p \<noteq> []" "prefix p ls" "R (l # p) = Some r"
        "\<And>p'. p' \<noteq> [] \<Longrightarrow> prefix p' ls \<Longrightarrow> R (l # p') \<noteq> None \<Longrightarrow> prefix p p'"
      by metis
    have "prefix (l # p) p'" if p': "p' \<noteq> []" "prefix p' (l # ls)" "R p' \<noteq> None" for p'
    proof -
      from p'(1,2) obtain q where q: "p' = l # q" "prefix q ls" by (auto simp: prefix_Cons)
      moreover have "q \<noteq> []" using None p'(3) q(1) by auto
      ultimately show ?thesis using p(4) [of q] p'(3) by simp
    qed
    with p(2,3) show ?thesis by (intro exI [of _ "l # p"]) simp
  next
    case (Some r')
    with Cons.prems have "R [l] = Some r" by (simp add: covering_rule_Cons)
    then show ?thesis by (intro exI [of _ "[l]"]) (auto simp: prefix_Cons)
  qed
qed simp

locale rule_matcher =
  fixes empty_matcher :: 't
    and add :: "'t \<Rightarrow> string \<Rightarrow> u32 \<Rightarrow> 't"
    and lookup :: "'t \<Rightarrow> string \<Rightarrow> bool \<times> u32 option"
    and path_of :: "string \<Rightarrow> string list"
    and rules :: "'t \<Rightarrow> string list \<Rightarrow> u32 option"
  assumes rules_empty: "rules empty_matcher p = None"
    and rules_add: "rules (add t d i) p =
      (if p = path_of d \<and> p \<noteq> [] \<and> rules t p = None then Some i else rules t p)"
    and lookup_eq: "lookup t d =
      (covering_rule (rules t) (path_of d) \<noteq> None, covering_rule (rules t) (path_of d))"
begin

text \<open>A matcher built from a list of rules, and the first rule of the list for a path.\<close>

lemma rules_build:
  "rules (foldl (\<lambda>t (d, i). add t d i) t rs) p =
     (case rules t p of
        Some i \<Rightarrow> Some i
      | None \<Rightarrow> if p = [] then None
                else map_option snd (find (\<lambda>(d, i). path_of d = p) rs))"
proof (induction rs arbitrary: t)
  case Nil
  then show ?case by (simp split: option.splits)
next
  case (Cons r rs)
  then show ?case by (cases r) (auto simp: rules_add split: option.splits)
qed

lemma rules_build_None_iff:
  "rules (foldl (\<lambda>t (d, i). add t d i) empty_matcher rs) p = None \<longleftrightarrow>
     p = [] \<or> p \<notin> path_of ` fst ` set rs"
  by (auto simp: rules_build rules_empty find_None_iff image_iff)

lemma lookup_iff: "fst (lookup t q) \<longleftrightarrow> (\<exists>p. p \<noteq> [] \<and> prefix p (path_of q) \<and> rules t p \<noteq> None)"
  by (simp add: lookup_eq covering_rule_None_iff)

theorem lookup_build_iff:
  "fst (lookup (foldl (\<lambda>t (d, i). add t d i) empty_matcher rs) q) \<longleftrightarrow>
     (\<exists>(d, i) \<in> set rs. path_of d \<noteq> [] \<and> prefix (path_of d) (path_of q))"
proof -
  let ?t = "foldl (\<lambda>t (d, i). add t d i) empty_matcher rs"
  have "fst (lookup ?t q) \<longleftrightarrow> (\<exists>p. p \<noteq> [] \<and> prefix p (path_of q) \<and> rules ?t p \<noteq> None)"
    by (rule lookup_iff)
  also have "\<dots> \<longleftrightarrow> (\<exists>p \<in> path_of ` fst ` set rs. p \<noteq> [] \<and> prefix p (path_of q))"
    unfolding rules_build_None_iff by blast
  finally show ?thesis by (simp add: case_prod_beta)
qed

lemma lookup_out_param: "lookup t d = (b, r) \<Longrightarrow> b \<longleftrightarrow> r \<noteq> None"
  by (auto simp: lookup_eq)

lemma lookup_mono: "fst (lookup t q) \<Longrightarrow> fst (lookup (add t d i) q)"
  unfolding lookup_iff rules_add by (elim exE) (metis option.distinct(1))

lemma lookup_subdomain:
  "fst (lookup t q) \<Longrightarrow> prefix (path_of q) (path_of q') \<Longrightarrow> fst (lookup t q')"
  unfolding lookup_iff by (blast intro: prefix_order.trans)

end

end
