(* ===== verification/Suffix_Trie.thy ===== *)
theory Suffix_Trie
  imports Rule_Matcher
begin

text \<open>
  The reverse-label suffix trie (\<open>dataplane/src/engine/suffix_trie.cpp\<close>). A node's
  \<open>unordered_map<string, unique_ptr<TrieNode>>\<close> is the map of its children; the walk that
  \<open>insert\<close> makes with a pointer is a recursion that rebuilds the path. The out-parameter
  \<open>uint32_t* out_rule_id\<close> of \<open>matches\<close> is an option: \<open>None\<close> when the call does not write it.

  The trie refines the map from label paths to rule ids: \<open>rule_at\<close> is the abstraction, and the
  interpretation of \<open>rule_matcher\<close> at the end is the refinement.
\<close>

section \<open>The code\<close>

datatype trie_node =
  TrieNode (children: "string \<Rightarrow> trie_node option") (is_terminal: bool) (rule_id: u32)

record suffix_trie =
  trie_root :: trie_node
  trie_size :: nat

definition new_node :: trie_node where
  "new_node = TrieNode (\<lambda>_. None) False 0"

definition empty_trie :: suffix_trie where
  "empty_trie = \<lparr>trie_root = new_node, trie_size = 0\<rparr>"

text \<open>The two loops that drop leading and trailing dots from the view.\<close>

fun strip_front :: "string \<Rightarrow> string" where
  "strip_front [] = []"
| "strip_front (c # s) = (if c = CHR ''.'' then strip_front s else c # s)"

definition strip_back :: "string \<Rightarrow> string" where
  "strip_back s = rev (strip_front (rev s))"

function split_loop :: "string \<Rightarrow> nat \<Rightarrow> string list \<Rightarrow> string list" where
  "split_loop domain start labels =
     (if start < length domain then
        let dot = (case find_char CHR ''.'' domain start of None \<Rightarrow> length domain | Some d \<Rightarrow> d);
            label = map tolower (take (dot - start) (drop start domain))
        in split_loop domain (dot + 1) (if label \<noteq> [] then labels @ [label] else labels)
      else labels)"
  by pat_completeness auto
termination
  by (relation "measure (\<lambda>(domain, start, labels). length domain - start)")
    (auto split: option.splits dest: find_char_SomeD)

declare split_loop.simps [simp del]

definition split_labels_reversed :: "string \<Rightarrow> string list" where
  "split_labels_reversed domain =
     (if domain = [] then [] else rev (split_loop (strip_back (strip_front domain)) 0 []))"

text \<open>The walk of \<open>insert\<close>; the flag says that \<open>size_\<close> was incremented.\<close>

fun insert_labels :: "string list \<Rightarrow> u32 \<Rightarrow> trie_node \<Rightarrow> trie_node \<times> bool" where
  "insert_labels [] rid node =
     (if \<not> is_terminal node then (TrieNode (children node) True rid, True) else (node, False))"
| "insert_labels (label # labels) rid node =
     (let child = (case children node label of None \<Rightarrow> new_node | Some c \<Rightarrow> c);
          (child', grown) = insert_labels labels rid child
      in (TrieNode ((children node)(label \<mapsto> child')) (is_terminal node) (rule_id node), grown))"

definition trie_insert :: "suffix_trie \<Rightarrow> string \<Rightarrow> u32 \<Rightarrow> suffix_trie" where
  "trie_insert t domain rid =
     (let labels = split_labels_reversed domain in
      if labels = [] then t
      else let (r, grown) = insert_labels labels rid (trie_root t) in
        t\<lparr>trie_root := r, trie_size := (if grown then trie_size t + 1 else trie_size t)\<rparr>)"

fun match_labels :: "trie_node \<Rightarrow> string list \<Rightarrow> bool \<times> u32 option" where
  "match_labels node [] = (is_terminal node, None)"
| "match_labels node (label # labels) =
     (case children node label of
        None \<Rightarrow> (False, None)
      | Some c \<Rightarrow> if is_terminal c then (True, Some (rule_id c)) else match_labels c labels)"

definition trie_matches :: "suffix_trie \<Rightarrow> string \<Rightarrow> bool \<times> u32 option" where
  "trie_matches t domain =
     (let labels = split_labels_reversed domain in
      if labels = [] then (False, None) else match_labels (trie_root t) labels)"

section \<open>Splitting into labels\<close>

text \<open>The reference: cut at every dot, drop empty pieces.\<close>

function pieces :: "string \<Rightarrow> string list" where
  "pieces s =
     (case dropWhile ((\<noteq>) CHR ''.'') s of
        [] \<Rightarrow> [s]
      | _ # rest \<Rightarrow> takeWhile ((\<noteq>) CHR ''.'') s # pieces rest)"
  by pat_completeness auto
termination
  by (relation "measure length")
    (auto, metis length_dropWhile_le length_Cons less_eq_Suc_le)

declare pieces.simps [simp del]

definition labels_of :: "string \<Rightarrow> string list" where
  "labels_of s = filter (\<lambda>l. l \<noteq> []) (pieces (map tolower s))"

lemma dropWhile_no_dot: "CHR ''.'' \<notin> set s \<Longrightarrow> dropWhile ((\<noteq>) CHR ''.'') (s @ r) = dropWhile ((\<noteq>) CHR ''.'') r"
  by (induction s) auto

lemma takeWhile_no_dot: "CHR ''.'' \<notin> set s \<Longrightarrow> takeWhile ((\<noteq>) CHR ''.'') (s @ r) = s @ takeWhile ((\<noteq>) CHR ''.'') r"
  by (induction s) auto

lemma pieces_no_dot: "CHR ''.'' \<notin> set s \<Longrightarrow> pieces s = [s]"
  using dropWhile_no_dot [of s "[]"] by (subst pieces.simps) (simp del: dropWhile_eq_Nil_conv)

lemma pieces_dot: "CHR ''.'' \<notin> set l \<Longrightarrow> pieces (l @ CHR ''.'' # s) = l # pieces s"
  by (subst pieces.simps) (simp add: dropWhile_no_dot takeWhile_no_dot)

lemma dot_in_map_tolower [simp]: "CHR ''.'' \<in> set (map tolower s) \<longleftrightarrow> CHR ''.'' \<in> set s"
  by (induction s) auto

lemma labels_of_Nil [simp]: "labels_of [] = []"
  by (simp add: labels_of_def pieces_no_dot)

lemma labels_of_no_dot: "CHR ''.'' \<notin> set s \<Longrightarrow> labels_of s = (if s = [] then [] else [map tolower s])"
  by (simp add: labels_of_def pieces_no_dot del: set_map)

lemma labels_of_first_dot:
  "CHR ''.'' \<notin> set l \<Longrightarrow> labels_of (l @ CHR ''.'' # s) = labels_of l @ labels_of s"
  using pieces_dot [of "map tolower l" "map tolower s"]
  by (simp add: labels_of_def pieces_no_dot del: set_map)

lemma labels_of_dot: "labels_of (a @ CHR ''.'' # b) = labels_of a @ labels_of b"
proof (induction a rule: length_induct)
  case (1 a)
  show ?case
  proof (cases "CHR ''.'' \<in> set a")
    case True
    then obtain l r where a: "a = l @ CHR ''.'' # r" "CHR ''.'' \<notin> set l"
      by (meson split_list_first)
    then have "labels_of (r @ CHR ''.'' # b) = labels_of r @ labels_of b"
      using "1.IH" by simp
    with a show ?thesis by (simp add: labels_of_first_dot)
  qed (simp add: labels_of_first_dot)
qed

lemma labels_of_dot_Cons [simp]: "labels_of (CHR ''.'' # b) = labels_of b"
  using labels_of_dot [of "[]" b] by simp

lemma labels_of_append_dots [simp]: "labels_of (a @ replicate n CHR ''.'') = labels_of a"
proof (induction n)
  case (Suc n)
  then show ?case
    using labels_of_dot [of "a @ replicate n CHR ''.''" "[]"]
    by (simp add: replicate_append_same [symmetric])
qed simp

lemma labels_of_strip_front [simp]: "labels_of (strip_front s) = labels_of s"
  by (induction s rule: strip_front.induct) simp_all

lemma strip_front_dots: "\<exists>n. s = replicate n CHR ''.'' @ strip_front s"
proof (induction s rule: strip_front.induct)
  case (2 c s)
  then show ?case
    by (metis append_Cons append_Nil replicate_0 replicate_Suc strip_front.simps(2))
qed simp

lemma labels_of_strip_back [simp]: "labels_of (strip_back s) = labels_of s"
proof -
  obtain n where "rev s = replicate n CHR ''.'' @ strip_front (rev s)"
    using strip_front_dots by blast
  then have "s = strip_back s @ replicate n CHR ''.''"
    by (metis rev_append rev_replicate rev_rev_ident strip_back_def)
  then show ?thesis by (metis labels_of_append_dots)
qed

lemma split_loop_eq: "split_loop domain start labels = labels @ labels_of (drop start domain)"
proof (induction domain start labels rule: split_loop.induct)
  case (1 domain start labels)
  let ?s = "drop start domain"
  show ?case
  proof (cases "find_char CHR ''.'' domain start")
    case None
    then have "CHR ''.'' \<notin> set ?s" by (rule find_char_NoneD)
    with None "1.IH" show ?thesis
      by (subst split_loop.simps) (auto simp: labels_of_no_dot Let_def split_loop.simps)
  next
    case (Some d)
    note d = find_char_SomeD [OF Some]
    have "?s = take (d - start) ?s @ drop d domain"
      using d(1) by (metis append_take_drop_id drop_drop le_add_diff_inverse2)
    also have "drop d domain = CHR ''.'' # drop (d + 1) domain"
      using d(2,3) by (metis Cons_nth_drop_Suc Suc_eq_plus1)
    finally have "labels_of ?s = labels_of (take (d - start) ?s) @ labels_of (drop (d + 1) domain)"
      by (metis labels_of_dot)
    with Some d "1.IH" show ?thesis
      by (subst split_loop.simps) (auto simp: Let_def labels_of_no_dot)
  qed
qed

lemma split_labels_reversed_eq: "split_labels_reversed domain = rev (labels_of domain)"
  by (simp add: split_labels_reversed_def split_loop_eq)

section \<open>The trie as a map from label paths to rule ids\<close>

fun rule_at :: "trie_node \<Rightarrow> string list \<Rightarrow> u32 option" where
  "rule_at node [] = (if is_terminal node then Some (rule_id node) else None)"
| "rule_at node (l # ls) = (case children node l of None \<Rightarrow> None | Some c \<Rightarrow> rule_at c ls)"

abbreviation trie_rules :: "suffix_trie \<Rightarrow> string list \<Rightarrow> u32 option" where
  "trie_rules t \<equiv> rule_at (trie_root t)"

lemma rule_at_new_node [simp]: "rule_at new_node p = None"
  by (cases p) (simp_all add: new_node_def)

lemma rule_at_insert:
  "rule_at (fst (insert_labels ls rid node)) p =
     (if p = ls \<and> rule_at node ls = None then Some rid else rule_at node p)"
proof (induction ls rid node arbitrary: p rule: insert_labels.induct)
  case (1 rid node)
  then show ?case by (cases p) auto
next
  case (2 l ls rid node)
  then show ?case by (cases p) (auto simp: Let_def split: option.splits prod.splits)
qed

lemma insert_labels_grown: "snd (insert_labels ls rid node) \<longleftrightarrow> rule_at node ls = None"
  by (induction ls rid node rule: insert_labels.induct)
    (auto simp: Let_def split: option.splits prod.splits)

lemma match_labels_eq:
  "ls \<noteq> [] \<or> \<not> is_terminal node \<Longrightarrow>
   match_labels node ls =
     (covering_rule (rule_at node) ls \<noteq> None, covering_rule (rule_at node) ls)"
proof (induction node ls rule: match_labels.induct)
  case (2 node l ls)
  show ?case
  proof (cases "children node l")
    case None
    then show ?thesis by (simp add: covering_rule_Cons)
  next
    case (Some c)
    then have "(\<lambda>p. rule_at node (l # p)) = rule_at c" by auto
    with Some "2.IH" [OF Some] show ?thesis by (simp add: covering_rule_Cons)
  qed
qed simp

lemma trie_rules_insert:
  "trie_rules (trie_insert t d i) p =
     (if p = split_labels_reversed d \<and> p \<noteq> [] \<and> trie_rules t p = None then Some i
      else trie_rules t p)"
  using rule_at_insert [of "split_labels_reversed d" i "trie_root t" p]
  by (auto simp: trie_insert_def Let_def split: prod.splits)

interpretation trie: rule_matcher empty_trie trie_insert trie_matches split_labels_reversed trie_rules
  by unfold_locales
    (auto simp: empty_trie_def trie_rules_insert trie_matches_def match_labels_eq Let_def)

text \<open>\<open>size_\<close> counts the rules.\<close>

definition trie_wf :: "suffix_trie \<Rightarrow> bool" where
  "trie_wf t \<longleftrightarrow> trie_rules t [] = None \<and> finite (dom (trie_rules t)) \<and>
     trie_size t = card (dom (trie_rules t))"

lemma trie_wf_empty [inv_intros]: "trie_wf empty_trie"
proof -
  have "dom (trie_rules empty_trie) = {}" by (auto simp: trie.rules_empty)
  then show ?thesis by (simp add: trie_wf_def trie.rules_empty) (simp add: empty_trie_def)
qed

lemma trie_wf_insert [inv_intros]: "trie_wf t \<Longrightarrow> trie_wf (trie_insert t d i)"
proof -
  assume wf: "trie_wf t"
  let ?ls = "split_labels_reversed d"
  show ?thesis
  proof (cases "?ls \<noteq> [] \<and> trie_rules t ?ls = None")
    case True
    then have "dom (trie_rules (trie_insert t d i)) = insert ?ls (dom (trie_rules t))"
      by (auto simp: trie_rules_insert split: if_splits)
    moreover have "trie_size (trie_insert t d i) = Suc (trie_size t)"
      using True insert_labels_grown [of ?ls i "trie_root t"]
      by (auto simp: trie_insert_def Let_def split: prod.splits)
    moreover have "trie_rules (trie_insert t d i) [] = None"
      using wf True unfolding trie_wf_def trie_rules_insert by simp
    ultimately show ?thesis
      using wf True unfolding trie_wf_def by (simp add: domIff card_insert_if)
  next
    case False
    then have "trie_rules (trie_insert t d i) = trie_rules t"
      by (intro ext) (auto simp: trie_rules_insert)
    moreover have "trie_size (trie_insert t d i) = trie_size t"
      using False insert_labels_grown [of ?ls i "trie_root t"]
      by (auto simp: trie_insert_def Let_def split: prod.splits)
    ultimately show ?thesis using wf unfolding trie_wf_def by simp
  qed
qed

text \<open>The trie of a list of rules, inserted in order.\<close>

definition build_trie :: "(string \<times> u32) list \<Rightarrow> suffix_trie" where
  "build_trie rs = foldl (\<lambda>t (d, i). trie_insert t d i) empty_trie rs"

lemma trie_wf_build [inv_intros]: "trie_wf (build_trie rs)"
proof -
  have "trie_wf (foldl (\<lambda>t (d, i). trie_insert t d i) t rs)" if "trie_wf t" for t
    using that by (induction rs arbitrary: t) (auto intro: inv_intros)
  then show ?thesis by (simp add: build_trie_def trie_wf_empty)
qed

lemma prefix_rev_iff [simp]: "prefix (rev xs) (rev ys) \<longleftrightarrow> suffix xs ys"
  by (simp add: suffix_to_prefix)

lemma matches_build_iff:
  "fst (trie_matches (build_trie rs) q) \<longleftrightarrow>
     (\<exists>(d, i) \<in> set rs. labels_of d \<noteq> [] \<and> suffix (labels_of d) (labels_of q))"
  by (simp add: build_trie_def trie.lookup_build_iff split_labels_reversed_eq)

section \<open>Properties\<close>

text \<open>Property C24 (what the trie matches). A trie built from any list of rules matches a domain exactly
  when some rule with at least one label has labels that end the labels of the domain; empty labels
  and letter case do not count.\<close>

theorem trie_matches_subdomains:
  "fst (trie_matches (build_trie rs) q) \<longleftrightarrow>
     (\<exists>(d, i) \<in> set rs. labels_of d \<noteq> [] \<and> suffix (labels_of d) (labels_of q))"
  by (rule matches_build_iff)

text \<open>Further fact (which rule is reported). The reported rule id is that of the rule with the fewest
  labels that covers the domain and, among rules with equal labels, of the one inserted first; the
  out-parameter is written exactly when the result is true.\<close>

theorem trie_reports_shortest_first_rule:
  "trie_matches (build_trie rs) q =
     (let r = covering_rule (\<lambda>p. if p = [] then None
                else map_option snd (find (\<lambda>(d, i). rev (labels_of d) = p) rs)) (rev (labels_of q))
      in (r \<noteq> None, r))"
proof -
  have "trie_rules (build_trie rs) = (\<lambda>p. if p = [] then None
      else map_option snd (find (\<lambda>(d, i). rev (labels_of d) = p) rs))"
    by (rule ext) (simp add: build_trie_def trie.rules_build trie.rules_empty split_labels_reversed_eq)
  then show ?thesis by (simp add: trie.lookup_eq split_labels_reversed_eq Let_def)
qed

text \<open>A rule that covers a name, and which of a list of numbered rules the trie reports.\<close>

definition rule_covers :: "string \<Rightarrow> string \<Rightarrow> bool" where
  "rule_covers d n \<longleftrightarrow> labels_of d \<noteq> [] \<and> suffix (labels_of d) (labels_of n)"

lemma build_reports:
  assumes "trie_matches (build_trie (zip ss (map f [0..<length ss]))) n = (b, out)"
  shows "b \<longleftrightarrow> (\<exists>d \<in> set ss. rule_covers d n)"
    and "out = Some r \<Longrightarrow> \<exists>i < length ss. r = f i \<and> rule_covers (ss ! i) n \<and>
      (\<forall>j < length ss. rule_covers (ss ! j) n \<longrightarrow>
        length (labels_of (ss ! i)) < length (labels_of (ss ! j)) \<or>
        length (labels_of (ss ! i)) = length (labels_of (ss ! j)) \<and> i \<le> j)"
proof -
  let ?rs = "zip ss (map f [0..<length ss])"
  let ?R = "\<lambda>p. if p = [] then None else map_option snd (find (\<lambda>(d, i). rev (labels_of d) = p) ?rs)"
  have "(\<exists>d \<in> set ss. rule_covers d n) \<longleftrightarrow> (\<exists>(d, i) \<in> set ?rs. rule_covers d n)"
    by (force simp: in_set_conv_nth set_zip)
  then show "b \<longleftrightarrow> (\<exists>d \<in> set ss. rule_covers d n)"
    using matches_build_iff [of ?rs n] assms by (simp add: rule_covers_def)
  assume "out = Some r"
  then have "covering_rule ?R (rev (labels_of n)) = Some r"
    using assms trie_reports_shortest_first_rule [of ?rs n] by (simp add: Let_def)
  from covering_rule_shortest [OF this] obtain p where p: "p \<noteq> []" "prefix p (rev (labels_of n))" "?R p = Some r"
      "\<And>p'. p' \<noteq> [] \<Longrightarrow> prefix p' (rev (labels_of n)) \<Longrightarrow> ?R p' \<noteq> None \<Longrightarrow> prefix p p'"
    by metis
  from p(1,3) obtain x where x: "find (\<lambda>(d, i). rev (labels_of d) = p) ?rs = Some x" "snd x = r" by auto
  obtain i where i: "i < length ss" "rev (labels_of (ss ! i)) = p" "r = f i"
      "\<And>j. j < i \<Longrightarrow> rev (labels_of (ss ! j)) \<noteq> p"
    using x by (auto simp: find_Some_iff)
  have "length (labels_of (ss ! i)) < length (labels_of (ss ! j)) \<or>
      length (labels_of (ss ! i)) = length (labels_of (ss ! j)) \<and> i \<le> j"
    if j: "j < length ss" "rule_covers (ss ! j) n" for j
  proof -
    let ?p = "rev (labels_of (ss ! j))"
    have "?p \<noteq> []" "prefix ?p (rev (labels_of n))" using j(2) by (simp_all add: rule_covers_def)
    moreover have "?R ?p \<noteq> None" using j by (auto simp: rule_covers_def find_None_iff set_zip)
    ultimately have "prefix p ?p" by (rule p(4))
    then have "p = ?p \<or> length p < length ?p" by (metis prefix_length_less strict_prefix_def)
    moreover have "p = ?p \<Longrightarrow> i \<le> j" using i(4) by (metis linorder_not_less)
    ultimately show ?thesis using i(2) by (metis length_rev)
  qed
  moreover have "rule_covers (ss ! i) n" using p(1,2) i(2) by (auto simp: rule_covers_def)
  ultimately show "\<exists>i < length ss. r = f i \<and> rule_covers (ss ! i) n \<and>
      (\<forall>j < length ss. rule_covers (ss ! j) n \<longrightarrow>
        length (labels_of (ss ! i)) < length (labels_of (ss ! j)) \<or>
        length (labels_of (ss ! i)) = length (labels_of (ss ! j)) \<and> i \<le> j)"
    using i(1,3) by blast
qed

lemma labels_of_extended_label:
  assumes "d \<noteq> []" "hd d \<noteq> CHR ''.''" "CHR ''.'' \<notin> set x" "x \<noteq> []"
  shows "\<exists>l l' ls. labels_of d = l # ls \<and> labels_of (x @ d) = l' # ls \<and> l \<noteq> l'"
proof (cases "CHR ''.'' \<in> set d")
  case True
  then obtain l r where d: "d = l @ CHR ''.'' # r" "CHR ''.'' \<notin> set l"
    by (meson split_list_first)
  with assms have "l \<noteq> []" by (cases l) auto
  with d assms labels_of_first_dot [of "x @ l" r] labels_of_first_dot [of l r]
  show ?thesis by (auto simp: labels_of_no_dot)
next
  case False
  with assms show ?thesis by (auto simp: labels_of_no_dot)
qed

lemma labels_of_tolower [simp]: "labels_of (map tolower s) = labels_of s"
  by (simp add: labels_of_def o_def)

text \<open>Further fact (label boundaries). A rule covers its own domain and every subdomain of it, and
  does not cover a name that only continues its first label to the left: the rule
  \<open>example.com\<close> matches \<open>www.example.com\<close>, not \<open>fakeexample.com\<close>.\<close>

theorem trie_label_boundaries:
  assumes "labels_of d \<noteq> []" "hd d \<noteq> CHR ''.''" "CHR ''.'' \<notin> set x" "x \<noteq> []"
  shows "fst (trie_matches (build_trie [(d, i)]) d) \<and>
    fst (trie_matches (build_trie [(d, i)]) (sub @ ''.'' @ d)) \<and>
    \<not> fst (trie_matches (build_trie [(d, i)]) (x @ d))"
proof -
  have "d \<noteq> []" using assms(1) by auto
  then obtain l l' ls where "labels_of d = l # ls" "labels_of (x @ d) = l' # ls" "l \<noteq> l'"
    using labels_of_extended_label assms(2-4) by blast
  then have "\<not> suffix (labels_of d) (labels_of (x @ d))"
    by (auto simp: suffix_Cons dest: suffix_length_le)
  moreover have "suffix (labels_of d) (labels_of (sub @ ''.'' @ d))"
    using labels_of_dot [of sub d] by (simp add: suffix_def)
  ultimately show ?thesis using assms(1) by (simp add: matches_build_iff)
qed

theorem trie_label_boundaries_witness:
  "fst (trie_matches (build_trie [(''example.com'', 7)]) ''www.example.com'') \<and>
   \<not> fst (trie_matches (build_trie [(''example.com'', 7)]) ''fakeexample.com'')"
proof -
  have "labels_of ''example.com'' \<noteq> []" "hd ''example.com'' \<noteq> CHR ''.''" "CHR ''.'' \<notin> set ''fake''"
    by code_simp+
  from trie_label_boundaries [OF this, of 7 "''www''"] show ?thesis by simp
qed

text \<open>Further fact (letter case, stray dots and the rule count). Letter case and leading or trailing dots of a
  query never change the answer, and \<open>size()\<close> is the number of distinct label paths of the rules.\<close>

theorem trie_normalizes_and_counts:
  "trie_matches (build_trie rs) (map tolower q) = trie_matches (build_trie rs) q \<and>
   trie_matches (build_trie rs) (replicate m CHR ''.'' @ q @ replicate n CHR ''.'') =
     trie_matches (build_trie rs) q \<and>
   trie_size (build_trie rs) = card {labels_of d | d i. (d, i) \<in> set rs \<and> labels_of d \<noteq> []}"
proof (intro conjI)
  show "trie_matches (build_trie rs) (map tolower q) = trie_matches (build_trie rs) q"
    by (simp add: trie_matches_def split_labels_reversed_eq)
  have "labels_of (replicate m CHR ''.'' @ s) = labels_of s" for s
    by (induction m) simp_all
  then show "trie_matches (build_trie rs) (replicate m CHR ''.'' @ q @ replicate n CHR ''.'') =
     trie_matches (build_trie rs) q"
    using labels_of_append_dots [of q n] by (simp add: trie_matches_def split_labels_reversed_eq)
  let ?L = "{labels_of d | d i. (d, i) \<in> set rs \<and> labels_of d \<noteq> []}"
  let ?P = "labels_of ` fst ` set rs"
  have "dom (trie_rules (build_trie rs)) = (rev ` ?P) - {[]}"
    unfolding build_trie_def dom_def trie.rules_build_None_iff split_labels_reversed_eq
    by (auto simp: image_image)
  also have "\<dots> = rev ` (?P - {[]})" by auto
  also have "?P - {[]} = ?L" by (force simp: image_image)
  finally have "dom (trie_rules (build_trie rs)) = rev ` ?L" .
  then show "trie_size (build_trie rs) = card ?L"
    using trie_wf_build [of rs] by (simp add: trie_wf_def card_image)
qed

end
