(* ===== verification/Decision.thy ===== *)
theory Decision
  imports Suffix_Trie
begin

text \<open>
  The decision engine: \<open>PolicyEngine\<close> (\<open>dataplane/include/engine/decision.h\<close>) and the immutable
  \<open>PolicySnapshot\<close> that the packet path evaluates (\<open>dataplane/include/runtime/atomic_snapshot.h\<close>).
  An \<open>unordered_set<string>\<close> is a set of strings, the map of exact blocks a partial function.
\<close>

section \<open>The code\<close>

datatype action = ALLOW | BLOCK_NXDOMAIN | BLOCK_REFUSED | BLOCK_SINKHOLE

record decision =
  dec_action :: action
  dec_reason :: string
  matched_rule_id :: u32

definition default_decision :: decision where
  "default_decision = \<lparr>dec_action = ALLOW, dec_reason = ''DEFAULT_ALLOW'', matched_rule_id = 0\<rparr>"

record policy_engine =
  pe_allowlist :: "string set"
  pe_exact_blocks :: "string \<Rightarrow> action option"
  pe_suffix_trie :: suffix_trie

definition empty_engine :: policy_engine where
  "empty_engine = \<lparr>pe_allowlist = {}, pe_exact_blocks = (\<lambda>_. None), pe_suffix_trie = empty_trie\<rparr>"

definition add_allowlist :: "policy_engine \<Rightarrow> string \<Rightarrow> policy_engine" where
  "add_allowlist e domain = e\<lparr>pe_allowlist := insert domain (pe_allowlist e)\<rparr>"

definition add_exact_block :: "policy_engine \<Rightarrow> string \<Rightarrow> action \<Rightarrow> policy_engine" where
  "add_exact_block e domain a = e\<lparr>pe_exact_blocks := (pe_exact_blocks e)(domain \<mapsto> a)\<rparr>"

definition add_suffix_block :: "policy_engine \<Rightarrow> string \<Rightarrow> u32 \<Rightarrow> policy_engine" where
  "add_suffix_block e domain rid = e\<lparr>pe_suffix_trie := trie_insert (pe_suffix_trie e) domain rid\<rparr>"

text \<open>The third stage, shared by both: \<open>rule_id\<close> is 0 unless \<open>matches\<close> writes it.\<close>

definition suffix_decision :: "suffix_trie \<Rightarrow> string \<Rightarrow> decision" where
  "suffix_decision t domain =
     (let (hit, out) = trie_matches t domain in
      if hit then \<lparr>dec_action = BLOCK_NXDOMAIN, dec_reason = ''SUFFIX_TRIE_BLOCK'',
                   matched_rule_id = (case out of None \<Rightarrow> 0 | Some r \<Rightarrow> r)\<rparr>
      else default_decision)"

definition engine_evaluate :: "policy_engine \<Rightarrow> string \<Rightarrow> decision" where
  "engine_evaluate e domain =
     (if domain \<in> pe_allowlist e then
        \<lparr>dec_action = ALLOW, dec_reason = ''EXPLICIT_ALLOWLIST'', matched_rule_id = 0\<rparr>
      else case pe_exact_blocks e domain of
        Some a \<Rightarrow> \<lparr>dec_action = a, dec_reason = ''EXACT_BLOCK'', matched_rule_id = 0\<rparr>
      | None \<Rightarrow> suffix_decision (pe_suffix_trie e) domain)"

record policy_snapshot =
  generation :: u64
  version_hash :: string
  ps_suffix_trie :: suffix_trie
  exact_blocks :: "string set"
  allowlist :: "string set"

text \<open>The member initialisers of \<open>PolicySnapshot\<close>.\<close>

definition new_snapshot :: policy_snapshot where
  "new_snapshot = \<lparr>generation = 1, version_hash = ''init'', ps_suffix_trie = empty_trie,
     exact_blocks = {}, allowlist = {}\<rparr>"

definition snapshot_evaluate :: "policy_snapshot \<Rightarrow> string \<Rightarrow> decision" where
  "snapshot_evaluate s domain =
     (if domain \<in> allowlist s then
        \<lparr>dec_action = ALLOW, dec_reason = ''EXPLICIT_ALLOWLIST'', matched_rule_id = 0\<rparr>
      else if domain \<in> exact_blocks s then
        \<lparr>dec_action = BLOCK_NXDOMAIN, dec_reason = ''EXACT_BLOCK'', matched_rule_id = 0\<rparr>
      else suffix_decision (ps_suffix_trie s) domain)"

section \<open>The precedence of the stages\<close>

text \<open>What it means for a policy to block a name, without the order of the stages.\<close>

definition policy_blocks :: "policy_snapshot \<Rightarrow> string \<Rightarrow> bool" where
  "policy_blocks s domain \<longleftrightarrow>
     domain \<notin> allowlist s \<and> (domain \<in> exact_blocks s \<or> fst (trie_matches (ps_suffix_trie s) domain))"

lemma suffix_decision_action:
  "dec_action (suffix_decision t domain) = (if fst (trie_matches t domain) then BLOCK_NXDOMAIN else ALLOW)"
  by (simp add: suffix_decision_def default_decision_def case_prod_beta)

lemma snapshot_action:
  "dec_action (snapshot_evaluate s domain) = (if policy_blocks s domain then BLOCK_NXDOMAIN else ALLOW)"
  by (auto simp: snapshot_evaluate_def policy_blocks_def suffix_decision_action)

lemma snapshot_suffix_reason:
  assumes "dec_reason (snapshot_evaluate s domain) = ''SUFFIX_TRIE_BLOCK''"
    "trie_matches (ps_suffix_trie s) domain = (b, out)" "b \<longleftrightarrow> out \<noteq> None"
  shows "out = Some (matched_rule_id (snapshot_evaluate s domain))"
  using assms by (auto simp: snapshot_evaluate_def suffix_decision_def default_decision_def split: if_splits)

lemma snapshot_never_refused: "dec_action (snapshot_evaluate s domain) \<in> {ALLOW, BLOCK_NXDOMAIN}"
  by (simp add: snapshot_action)

text \<open>The snapshot as an engine whose exact blocks all answer NXDOMAIN.\<close>

definition engine_of_snapshot :: "policy_snapshot \<Rightarrow> policy_engine" where
  "engine_of_snapshot s = \<lparr>pe_allowlist = allowlist s,
     pe_exact_blocks = (\<lambda>d. if d \<in> exact_blocks s then Some BLOCK_NXDOMAIN else None),
     pe_suffix_trie = ps_suffix_trie s\<rparr>"

section \<open>Properties\<close>

text \<open>Further fact (the two engines agree). \<open>PolicySnapshot::evaluate\<close> returns, action, reason and
  rule id alike, what \<open>PolicyEngine::evaluate\<close> returns on the same rules with every exact block
  answered by NXDOMAIN.\<close>

theorem snapshot_refines_engine:
  "snapshot_evaluate s domain = engine_evaluate (engine_of_snapshot s) domain"
  by (simp add: snapshot_evaluate_def engine_evaluate_def engine_of_snapshot_def)

end
