(* ===== verification/Snapshot.thy ===== *)
theory Snapshot
  imports Decision
begin

text \<open>
  The snapshot manager (\<open>dataplane/src/runtime/atomic_snapshot.cpp\<close>): the active policy, the global
  generation and their update. The first part is the sequential behaviour of \<open>apply_candidate\<close>; the
  second part splits it, and the packet path's two loads, into the atomic accesses of the code and
  interleaves them (\<open>std::atomic_load\<close>/\<open>atomic_store\<close> and the acquire/release accesses of the
  counter, taken as one total order of steps).
\<close>

section \<open>The sequential code\<close>

record snapshot_manager =
  active_snapshot :: policy_snapshot
  global_generation :: u64

definition bootstrap_snapshot :: policy_snapshot where
  "bootstrap_snapshot = new_snapshot\<lparr>generation := 1, version_hash := ''bootstrap_v1''\<rparr>"

definition init_manager :: snapshot_manager where
  "init_manager = \<lparr>active_snapshot = bootstrap_snapshot, global_generation = 1\<rparr>"

definition reset_manager :: "snapshot_manager \<Rightarrow> snapshot_manager" where
  "reset_manager m = m\<lparr>global_generation := 1, active_snapshot := bootstrap_snapshot\<rparr>"

text \<open>The result, what is written to \<open>*err_out\<close> (if anything), and the manager afterwards; a
  \<open>unique_ptr\<close> that may be null is an option.\<close>

definition apply_candidate ::
    "snapshot_manager \<Rightarrow> policy_snapshot option \<Rightarrow> bool \<times> string option \<times> snapshot_manager" where
  "apply_candidate m candidate =
     (case candidate of
        None \<Rightarrow> (False, Some ''Null candidate pointer'', m)
      | Some c \<Rightarrow>
          let current_gen = global_generation m in
          if generation c \<le> current_gen then
            (False, Some ''Candidate generation must be > active generation'', m)
          else if version_hash c = [] then
            (False, Some ''Candidate missing cryptographic version hash'', m)
          else (True, None, m\<lparr>active_snapshot := c, global_generation := generation c\<rparr>))"

definition acceptable :: "u64 \<Rightarrow> policy_snapshot \<Rightarrow> bool" where
  "acceptable g c \<longleftrightarrow> g < generation c \<and> version_hash c \<noteq> []"

lemma apply_candidate_Some:
  "apply_candidate m (Some c) =
     (if acceptable (global_generation m) c
      then (True, None, m\<lparr>active_snapshot := c, global_generation := generation c\<rparr>)
      else (False, Some (if generation c \<le> global_generation m
                         then ''Candidate generation must be > active generation''
                         else ''Candidate missing cryptographic version hash''), m))"
  by (auto simp: apply_candidate_def acceptable_def)

lemma apply_candidate_accepts_iff:
  "fst (apply_candidate m c) \<longleftrightarrow> (\<exists>s. c = Some s \<and> acceptable (global_generation m) s)"
  by (cases c) (simp_all add: apply_candidate_Some, simp add: apply_candidate_def)

lemma apply_candidate_None: "snd (snd (apply_candidate m None)) = m"
  by (simp add: apply_candidate_def)

definition manager_inv :: "snapshot_manager \<Rightarrow> bool" where
  "manager_inv m \<longleftrightarrow> generation (active_snapshot m) = global_generation m \<and>
     1 \<le> global_generation m \<and> version_hash (active_snapshot m) \<noteq> []"

lemma manager_inv_init [inv_intros]: "manager_inv init_manager"
  by (simp add: manager_inv_def init_manager_def bootstrap_snapshot_def)

lemma apply_candidate_inv [inv_intros]:
  "manager_inv m \<Longrightarrow> manager_inv (snd (snd (apply_candidate m c)))"
  by (cases c)
    (auto simp: apply_candidate_None apply_candidate_Some manager_inv_def acceptable_def
      intro: order_trans [OF _ less_imp_le])

lemma apply_candidate_generation_mono:
  "global_generation m \<le> global_generation (snd (snd (apply_candidate m c)))"
  by (cases c) (auto simp: apply_candidate_None apply_candidate_Some acceptable_def)

text \<open>A sequence of updates.\<close>

fun apply_all :: "snapshot_manager \<Rightarrow> policy_snapshot option list \<Rightarrow> snapshot_manager" where
  "apply_all m [] = m"
| "apply_all m (c # cs) = apply_all (snd (snd (apply_candidate m c))) cs"

lemma apply_all_inv: "manager_inv m \<Longrightarrow> manager_inv (apply_all m cs)"
  by (induction cs arbitrary: m) (auto intro: inv_intros)

lemma apply_all_mono: "global_generation m \<le> global_generation (apply_all m cs)"
  by (induction cs arbitrary: m) (auto intro: order_trans apply_candidate_generation_mono)

section \<open>Interleaved updates and reads\<close>

text \<open>
  The atomic accesses of \<open>apply_candidate\<close>, per writer thread: load the counter, store the
  snapshot (or give up), store the counter. The packet path loads the snapshot, then the counter.
\<close>

datatype writer_pc =
    WIdle
  | WLoaded u64 policy_snapshot
  | WSwapped policy_snapshot

datatype reader_pc =
    RIdle
  | RSnap policy_snapshot
  | RBoth policy_snapshot u64

record world =
  w_active :: policy_snapshot
  w_gen :: u64
  w_pc :: "nat \<Rightarrow> writer_pc"
  w_reader :: reader_pc
  w_accepted :: "policy_snapshot list"

text \<open>\<open>w_accepted\<close> is history: every snapshot that was ever stored, newest first.\<close>

definition init_world :: world where
  "init_world = \<lparr>w_active = bootstrap_snapshot, w_gen = 1, w_pc = (\<lambda>_. WIdle), w_reader = RIdle,
     w_accepted = [bootstrap_snapshot]\<rparr>"

text \<open>The steps of a world in which the threads of \<open>W\<close> call \<open>apply_candidate\<close>.\<close>

inductive world_step :: "nat set \<Rightarrow> world \<Rightarrow> world \<Rightarrow> bool" for W :: "nat set" where
  load_generation: "\<lbrakk>i \<in> W; w_pc w i = WIdle\<rbrakk>
    \<Longrightarrow> world_step W w (w\<lparr>w_pc := (w_pc w)(i := WLoaded (w_gen w) c)\<rparr>)"
| reject: "\<lbrakk>i \<in> W; w_pc w i = WLoaded g c; \<not> acceptable g c\<rbrakk>
    \<Longrightarrow> world_step W w (w\<lparr>w_pc := (w_pc w)(i := WIdle)\<rparr>)"
| store_snapshot: "\<lbrakk>i \<in> W; w_pc w i = WLoaded g c; acceptable g c\<rbrakk>
    \<Longrightarrow> world_step W w (w\<lparr>w_active := c, w_pc := (w_pc w)(i := WSwapped c),
          w_accepted := c # w_accepted w\<rparr>)"
| store_generation: "\<lbrakk>i \<in> W; w_pc w i = WSwapped c\<rbrakk>
    \<Longrightarrow> world_step W w (w\<lparr>w_gen := generation c, w_pc := (w_pc w)(i := WIdle)\<rparr>)"
| read_snapshot: "world_step W w (w\<lparr>w_reader := RSnap (w_active w)\<rparr>)"
| read_generation: "w_reader w = RSnap s
    \<Longrightarrow> world_step W w (w\<lparr>w_reader := RBoth s (w_gen w)\<rparr>)"

inductive world_reachable :: "nat set \<Rightarrow> world \<Rightarrow> bool" for W :: "nat set" where
  start: "world_reachable W init_world"
| step: "world_reachable W w \<Longrightarrow> world_step W w w' \<Longrightarrow> world_reachable W w'"

text \<open>An update that is not interrupted is the sequential \<open>apply_candidate\<close>.\<close>

lemma uninterrupted_update:
  assumes "world_reachable W w" "i \<in> W" "w_pc w i = WIdle"
  shows "\<exists>w'. world_reachable W w' \<and> w_pc w' = w_pc w \<and>
    \<lparr>active_snapshot = w_active w', global_generation = w_gen w'\<rparr> =
    snd (snd (apply_candidate \<lparr>active_snapshot = w_active w, global_generation = w_gen w\<rparr> (Some c)))"
proof -
  let ?w1 = "w\<lparr>w_pc := (w_pc w)(i := WLoaded (w_gen w) c)\<rparr>"
  have r1: "world_reachable W ?w1"
    using assms by (blast intro: world_reachable.step load_generation)
  show ?thesis
  proof (cases "acceptable (w_gen w) c")
    case True
    let ?w2 = "?w1\<lparr>w_active := c, w_pc := (w_pc ?w1)(i := WSwapped c), w_accepted := c # w_accepted ?w1\<rparr>"
    let ?w3 = "?w2\<lparr>w_gen := generation c, w_pc := (w_pc ?w2)(i := WIdle)\<rparr>"
    have "world_step W ?w1 ?w2"
      using assms True by (intro store_snapshot) auto
    with r1 have "world_reachable W ?w2" by (rule world_reachable.step)
    moreover have "world_step W ?w2 ?w3" using assms by (intro store_generation) auto
    ultimately have "world_reachable W ?w3" by (rule world_reachable.step)
    with True assms show ?thesis
      by (intro exI [of _ ?w3]) (auto simp: apply_candidate_Some fun_upd_idem)
  next
    case False
    let ?w2 = "?w1\<lparr>w_pc := (w_pc ?w1)(i := WIdle)\<rparr>"
    have "world_step W ?w1 ?w2" using assms False by (intro reject) auto
    with r1 have "world_reachable W ?w2" by (rule world_reachable.step)
    with False assms show ?thesis
      by (intro exI [of _ ?w2]) (auto simp: apply_candidate_Some fun_upd_idem)
  qed
qed

text \<open>
  With one writer the counter lags behind the active snapshot only between the two stores, and
  both only grow.
\<close>

definition world_inv :: "nat \<Rightarrow> world \<Rightarrow> bool" where
  "world_inv i w \<longleftrightarrow> (\<forall>j. j \<noteq> i \<longrightarrow> w_pc w j = WIdle) \<and>
     (case w_pc w i of
        WIdle \<Rightarrow> w_gen w = generation (w_active w)
      | WLoaded g c \<Rightarrow> g = w_gen w \<and> w_gen w = generation (w_active w)
      | WSwapped c \<Rightarrow> w_active w = c \<and> w_gen w < generation c) \<and>
     w_active w \<in> set (w_accepted w) \<and>
     (\<forall>s \<in> set (w_accepted w). generation s \<le> generation (w_active w) \<and> version_hash s \<noteq> []) \<and>
     (case w_reader w of RIdle \<Rightarrow> True | RSnap s \<Rightarrow> s \<in> set (w_accepted w)
      | RBoth s g \<Rightarrow> s \<in> set (w_accepted w) \<and> g \<le> generation (w_active w))"

lemma world_inv_init: "world_inv i init_world"
  by (simp add: world_inv_def init_world_def bootstrap_snapshot_def)

lemma world_inv_step:
  "world_step {i} w w' \<Longrightarrow> world_inv i w \<Longrightarrow> world_inv i w' \<and> w_gen w \<le> w_gen w' \<and>
     generation (w_active w) \<le> generation (w_active w')"
proof (induction rule: world_step.induct)
  case (store_snapshot j w g c)
  then show ?case
    by (fastforce simp: world_inv_def acceptable_def split: reader_pc.splits)
next
  case (read_generation w s)
  then show ?case
    by (auto simp: world_inv_def split: writer_pc.splits)
qed (auto simp: world_inv_def split: writer_pc.splits reader_pc.splits)

lemma world_invD:
  assumes "world_inv i w"
  shows "w_gen w \<le> generation (w_active w)"
    and "\<nexists>c. w_pc w i = WSwapped c \<Longrightarrow> w_gen w = generation (w_active w)"
    and "w_reader w = RSnap s \<or> w_reader w = RBoth s g \<Longrightarrow>
      s \<in> set (w_accepted w) \<and> version_hash s \<noteq> []"
proof -
  show "w_gen w \<le> generation (w_active w)"
    using assms unfolding world_inv_def by (cases "w_pc w i") auto
  show "w_gen w = generation (w_active w)" if "\<nexists>c. w_pc w i = WSwapped c"
    using assms that unfolding world_inv_def by (cases "w_pc w i") auto
  show "s \<in> set (w_accepted w) \<and> version_hash s \<noteq> []"
    if "w_reader w = RSnap s \<or> w_reader w = RBoth s g"
    using assms that unfolding world_inv_def by (cases "w_reader w") auto
qed

lemma world_inv_reachable: "world_reachable {i} w \<Longrightarrow> world_inv i w"
  by (induction rule: world_reachable.induct) (auto simp: world_inv_init dest: world_inv_step)

section \<open>Properties\<close>

text \<open>The generations that a list of candidates offers with a version hash.\<close>

definition offered :: "policy_snapshot option list \<Rightarrow> u64 set" where
  "offered cs = {generation c | c. Some c \<in> set cs \<and> version_hash c \<noteq> []}"

lemma offered_simps [simp]:
  "offered [] = {}"
  "offered (None # cs) = offered cs"
  "offered (Some c # cs) =
     (if version_hash c = [] then offered cs else insert (generation c) (offered cs))"
  by (auto simp: offered_def)

lemma finite_offered [simp]: "finite (offered cs)"
proof -
  have "offered cs \<subseteq> (generation \<circ> the) ` set cs" by (force simp: offered_def)
  then show ?thesis by (rule finite_subset) simp
qed

lemma Max_insert_max:
  "finite S \<Longrightarrow> Max (insert a (insert b S)) = Max (insert (max a b) S)" for a :: "'a :: linorder"
  by (cases "S = {}") (simp_all add: max.assoc)

lemma apply_all_generation:
  "global_generation (apply_all m cs) = Max (insert (global_generation m) (offered cs))"
proof (induction cs arbitrary: m)
  case (Cons c cs)
  then show ?case
    by (cases c) (auto simp: apply_candidate_None apply_candidate_Some acceptable_def
        Max_insert_max max_def simp del: Max_insert)
qed simp

text \<open>Property C28 (updates and rollback). After any sequence of candidates the counter equals the
  generation of the active snapshot and is the largest generation offered with a version hash, 1 if
  none is larger; it never decreases on the way, and a refused candidate leaves the manager as it
  was and reports why.\<close>

theorem policy_updates_keep_maximum:
  "global_generation (apply_all init_manager cs) = Max (insert 1 (offered cs)) \<and>
   generation (active_snapshot (apply_all init_manager cs)) = global_generation (apply_all init_manager cs) \<and>
   global_generation (apply_all init_manager cs) \<le> global_generation (apply_all init_manager (cs @ cs')) \<and>
   (case apply_candidate (apply_all init_manager cs) c of (ok, err, m') \<Rightarrow>
      if ok then err = None \<and> c = Some (active_snapshot m')
      else err \<noteq> None \<and> m' = apply_all init_manager cs)"
proof (intro conjI)
  show "global_generation (apply_all init_manager cs) = Max (insert 1 (offered cs))"
    by (simp add: apply_all_generation) (simp add: init_manager_def)
  show "generation (active_snapshot (apply_all init_manager cs)) =
      global_generation (apply_all init_manager cs)"
    using apply_all_inv [OF manager_inv_init] by (simp add: manager_inv_def)
  have "apply_all m (cs @ cs') = apply_all (apply_all m cs) cs'" for m
    by (induction cs arbitrary: m) simp_all
  then show "global_generation (apply_all init_manager cs) \<le>
      global_generation (apply_all init_manager (cs @ cs'))"
    by (simp add: apply_all_mono)
  show "case apply_candidate (apply_all init_manager cs) c of (ok, err, m') \<Rightarrow>
      if ok then err = None \<and> c = Some (active_snapshot m')
      else err \<noteq> None \<and> m' = apply_all init_manager cs"
    by (cases c) (simp_all add: apply_candidate_Some, simp add: apply_candidate_def)
qed

lemma u64_le_max: "g \<le> (0xFFFFFFFFFFFFFFFF :: u64)"
proof -
  have max: "(0xFFFFFFFFFFFFFFFF :: u64) = - 1" by simp
  show ?thesis unfolding max by (rule word_order.extremum)
qed

text \<open>Further fact (when an update is possible). Some candidate is accepted exactly as long as the counter
  is below the largest 64-bit value; once that value is active no policy can ever replace it.\<close>

theorem update_possible_iff:
  "(\<exists>c. fst (apply_candidate m c)) \<longleftrightarrow> global_generation m \<noteq> 0xFFFFFFFFFFFFFFFF"
proof
  assume "\<exists>c. fst (apply_candidate m c)"
  then obtain c where "acceptable (global_generation m) c"
    by (auto simp: apply_candidate_accepts_iff)
  then show "global_generation m \<noteq> 0xFFFFFFFFFFFFFFFF"
    using u64_le_max [of "generation c"] by (auto simp: acceptable_def)
next
  assume "global_generation m \<noteq> 0xFFFFFFFFFFFFFFFF"
  then have "global_generation m < 0xFFFFFFFFFFFFFFFF" by (simp only: order_less_le u64_le_max) simp
  then have "fst (apply_candidate m (Some (new_snapshot\<lparr>generation := 0xFFFFFFFFFFFFFFFF\<rparr>)))"
    by (simp add: apply_candidate_Some acceptable_def new_snapshot_def)
  then show "\<exists>c. fst (apply_candidate m c)" ..
qed

text \<open>Further fact (one writer, concurrent readers). In every interleaving of one updating thread with the
  packet path, the counter and the generation of the active snapshot never decrease, the counter
  never runs ahead of the active snapshot and equals its generation whenever the writer is not
  between its two stores; a reader only ever holds a snapshot that was stored as a whole, with a
  version hash.\<close>

theorem single_writer_interleavings:
  assumes "world_reachable {i} w" "world_step {i} w w'"
  shows "w_gen w \<le> w_gen w' \<and> generation (w_active w) \<le> generation (w_active w') \<and>
    w_gen w \<le> generation (w_active w) \<and>
    ((\<nexists>c. w_pc w i = WSwapped c) \<longrightarrow> w_gen w = generation (w_active w)) \<and>
    (\<forall>s g. w_reader w \<in> {RSnap s, RBoth s g} \<longrightarrow> s \<in> set (w_accepted w) \<and> version_hash s \<noteq> [])"
proof -
  have inv: "world_inv i w" using assms(1) by (rule world_inv_reachable)
  with world_inv_step [OF assms(2) inv] show ?thesis
    using world_invD [OF inv] by blast
qed

theorem single_writer_interleavings_witness:
  "\<exists>w. world_step {0} init_world w \<and> w_gen init_world \<le> w_gen w"
proof -
  have "world_step {0} init_world (init_world\<lparr>w_reader := RSnap (w_active init_world)\<rparr>)"
    by (rule read_snapshot)
  from this single_writer_interleavings [OF world_reachable.start this] show ?thesis by blast
qed

definition policy2 :: policy_snapshot where
  "policy2 = new_snapshot\<lparr>generation := 2\<rparr>"

lemma reader_holds:
  "world_reachable W (w\<lparr>w_reader := RBoth s g\<rparr>) \<Longrightarrow> P s g \<Longrightarrow>
     \<exists>w s g. world_reachable W w \<and> w_reader w = RBoth s g \<and> P s g"
  by (rule exI [of _ "w\<lparr>w_reader := RBoth s g\<rparr>"], rule exI [of _ s], rule exI [of _ g]) simp

text \<open>Further fact (the packet path's two loads are not one). With one writer there are runs in which a
  packet is evaluated under a snapshot older than the generation it then uses for the cache, and
  runs in which it is newer.\<close>

theorem reader_generation_mismatch:
  "(\<exists>w s g. world_reachable {0} w \<and> w_reader w = RBoth s g \<and> generation s < g) \<and>
   (\<exists>w s g. world_reachable {0} w \<and> w_reader w = RBoth s g \<and> g < generation s)"
proof
  let ?w1 = "init_world\<lparr>w_pc := (w_pc init_world)(0 := WLoaded 1 policy2)\<rparr>"
  let ?swap = "\<lambda>w. w\<lparr>w_active := policy2, w_pc := (w_pc w)(0 := WSwapped policy2),
      w_accepted := policy2 # w_accepted w\<rparr>"
  let ?publish = "\<lambda>w. w\<lparr>w_gen := generation policy2, w_pc := (w_pc w)(0 := WIdle)\<rparr>"
  let ?snap = "\<lambda>w :: world. w\<lparr>w_reader := RSnap (w_active w)\<rparr>"
  have "world_step {0} init_world (init_world\<lparr>w_pc := (w_pc init_world)(0 := WLoaded (w_gen init_world) policy2)\<rparr>)"
    by (rule load_generation) (simp_all add: init_world_def)
  then have r1: "world_reachable {0} ?w1"
    using world_reachable.start world_reachable.step by (auto simp: init_world_def)
  have acc: "acceptable 1 policy2" by (simp add: acceptable_def policy2_def new_snapshot_def)
  have snap: "world_reachable {0} (?snap w)" if "world_reachable {0} w" for w
    using that by (rule world_reachable.step) (rule read_snapshot)
  have swap: "world_reachable {0} (?swap w)" if "world_reachable {0} w" "w_pc w 0 = WLoaded 1 policy2" for w
    using that(1) by (rule world_reachable.step) (rule store_snapshot [OF _ that(2) acc], simp)
  have publish: "world_reachable {0} (?publish w)" if "world_reachable {0} w" "w_pc w 0 = WSwapped policy2" for w
    using that(1) by (rule world_reachable.step) (rule store_generation [OF _ that(2)], simp)
  have both: "world_reachable {0} (w\<lparr>w_reader := RBoth s (w_gen w)\<rparr>)"
    if "world_reachable {0} w" "w_reader w = RSnap s" for w s
    using that(1) by (rule world_reachable.step) (rule read_generation [OF that(2)])
  have "world_reachable {0} (?publish (?swap (?snap ?w1)))"
    by (intro publish swap snap r1) simp_all
  from both [OF this, of bootstrap_snapshot]
  have "world_reachable {0} ((?publish (?swap (?snap ?w1)))\<lparr>w_reader := RBoth bootstrap_snapshot 2\<rparr>)"
    by (simp add: init_world_def policy2_def)
  moreover have "generation bootstrap_snapshot < 2" by (simp add: bootstrap_snapshot_def)
  ultimately show "\<exists>w s g. world_reachable {0} w \<and> w_reader w = RBoth s g \<and> generation s < g"
    by (intro reader_holds)
  have "world_reachable {0} (?snap (?swap ?w1))"
    by (intro swap snap r1) simp_all
  from both [OF this, of policy2]
  have "world_reachable {0} ((?snap (?swap ?w1))\<lparr>w_reader := RBoth policy2 1\<rparr>)"
    by (simp add: init_world_def)
  moreover have "1 < generation policy2" by (simp add: policy2_def)
  ultimately show "\<exists>w s g. world_reachable {0} w \<and> w_reader w = RBoth s g \<and> g < generation s"
    by (intro reader_holds)
qed

end
