(* ===== verification/Decimal.thy ===== *)
theory Decimal
  imports Prelude
begin

text \<open>
  Decimal numerals: \<open>std::to_string\<close> and \<open>operator<<\<close> on unsigned integers, and \<open>std::strtoull\<close>
  with base 10 (white space, an optional sign, then digits; no digits give 0; a value that does not
  fit gives \<open>ULLONG_MAX\<close>; a minus sign negates modulo \<open>2 ^ 64\<close>).
\<close>

section \<open>Printing\<close>

definition digit_char :: "nat \<Rightarrow> char" where
  "digit_char d = char_of (48 + d)"

fun dec_string :: "nat \<Rightarrow> string" where
  "dec_string n = (if n < 10 then [digit_char n] else dec_string (n div 10) @ [digit_char (n mod 10)])"

declare dec_string.simps [simp del]

section \<open>Reading\<close>

definition is_digit :: "char \<Rightarrow> bool" where
  "is_digit c \<longleftrightarrow> 48 \<le> (of_char c :: nat) \<and> (of_char c :: nat) \<le> 57"

definition is_space :: "char \<Rightarrow> bool" where
  "is_space c \<longleftrightarrow> (of_char c :: nat) = 32 \<or> (9 \<le> (of_char c :: nat) \<and> (of_char c :: nat) \<le> 13)"

definition dec_value :: "string \<Rightarrow> nat" where
  "dec_value s = foldl (\<lambda>n c. 10 * n + (of_char c - 48)) 0 s"

definition strtoull :: "string \<Rightarrow> u64" where
  "strtoull s =
     (let s = dropWhile is_space s;
          neg = (s \<noteq> [] \<and> hd s = CHR ''-'');
          s = (if s \<noteq> [] \<and> (hd s = CHR ''-'' \<or> hd s = CHR ''+'') then tl s else s);
          n = dec_value (takeWhile is_digit s)
      in if n \<ge> 2 ^ 64 then 0xFFFFFFFFFFFFFFFF
         else if neg then - word_of_nat n else word_of_nat n)"

text \<open>A code equation that compares in binary.\<close>

lemma strtoull_code [code]:
  "strtoull s =
     (let s = dropWhile is_space s;
          neg = (s \<noteq> [] \<and> hd s = CHR ''-'');
          s = (if s \<noteq> [] \<and> (hd s = CHR ''-'' \<or> hd s = CHR ''+'') then tl s else s);
          n = foldl (\<lambda>n c. 10 * n + (of_char c - 48)) (0 :: int) (takeWhile is_digit s)
      in if n \<ge> 18446744073709551616 then 0xFFFFFFFFFFFFFFFF
         else if neg then - word_of_int n else word_of_int n)"
proof -
  have "foldl (\<lambda>n c. 10 * n + (of_char c - 48)) (int m) ds = int (foldl (\<lambda>n c. 10 * n + (of_char c - 48)) m ds)"
    if "\<forall>c \<in> set ds. is_digit c" for m ds
    using that
  proof (induction ds arbitrary: m)
    case (Cons d ds)
    have "48 \<le> (of_char d :: nat)" using Cons.prems by (simp add: is_digit_def)
    then have "of_char d - 48 = int (of_char d - 48)"
      by (simp add: of_nat_diff of_nat_of_char)
    then have "10 * int m + (of_char d - 48) = int (10 * m + (of_char d - 48))" by simp
    then show ?case using Cons.IH [of "10 * m + (of_char d - 48)"] Cons.prems by simp
  qed simp
  from this [of "takeWhile is_digit t" 0 for t]
  have "foldl (\<lambda>n c. 10 * n + (of_char c - 48)) 0 (takeWhile is_digit t) = int (dec_value (takeWhile is_digit t))" for t
    using set_takeWhileD by (fastforce simp: dec_value_def)
  then show ?thesis by (simp add: strtoull_def Let_def of_int_of_nat_eq)
qed

section \<open>Reading back what was printed\<close>

lemma of_char_digit [simp]: "d < 10 \<Longrightarrow> of_char (digit_char d) = 48 + d"
  by (simp add: digit_char_def)

lemma is_digit_digit_char [simp]: "d < 10 \<Longrightarrow> is_digit (digit_char d)"
  by (simp add: is_digit_def)

lemma dec_value_snoc: "dec_value (s @ [c]) = 10 * dec_value s + (of_char c - 48)"
  by (simp add: dec_value_def)

lemma dec_value_dec_string [simp]: "dec_value (dec_string n) = n"
proof (induction n rule: dec_string.induct)
  case (1 n)
  show ?case
  proof (cases "n < 10")
    case True
    then show ?thesis by (subst dec_string.simps) (simp add: dec_value_def)
  next
    case False
    with 1 show ?thesis by (subst dec_string.simps) (simp add: dec_value_snoc)
  qed
qed

lemma dec_string_digits: "\<forall>c \<in> set (dec_string n). is_digit c"
proof (induction n rule: dec_string.induct)
  case (1 n)
  then show ?case by (subst dec_string.simps) simp
qed

lemma dec_string_nonempty [simp]: "dec_string n \<noteq> []"
  by (subst dec_string.simps) simp

lemma dec_string_inject [simp]: "dec_string m = dec_string n \<longleftrightarrow> m = n"
  by (metis dec_value_dec_string)

lemma not_digit_consts [simp]:
  "\<not> is_digit CHR '':''" "\<not> is_digit CHR '',''" "\<not> is_digit CHR ''}''" "\<not> is_digit CHR '']''" "\<not> is_digit CHR ''-''"
  "\<not> is_digit CHR ''+''" "\<not> is_digit CHR ''\"''"
  by (simp_all add: is_digit_def)

lemma is_digit_not_space: "is_digit c \<Longrightarrow> \<not> is_space c"
  by (auto simp: is_digit_def is_space_def)

lemma colon_notin_dec_string [simp]: "CHR '':'' \<notin> set (dec_string n)"
  using dec_string_digits not_digit_consts(1) by blast

lemma strtoull_dec_string:
  assumes "n < 2 ^ 64" "rest = [] \<or> \<not> is_digit (hd rest)"
  shows "strtoull (dec_string n @ rest) = word_of_nat n"
proof -
  obtain c s where cs: "dec_string n = c # s" by (cases "dec_string n") auto
  then have c: "is_digit c" using dec_string_digits [of n] by simp
  then have "c \<noteq> CHR ''-''" "c \<noteq> CHR ''+''" by auto
  moreover have "takeWhile is_digit (dec_string n @ rest) = dec_string n"
    using dec_string_digits [of n] assms(2) by (cases rest) (auto simp: takeWhile_append)
  moreover have "dropWhile is_space (dec_string n @ rest) = dec_string n @ rest"
    using cs is_digit_not_space [OF c] by simp
  moreover have "dec_value (c # s) = n" using dec_value_dec_string [of n] cs by simp
  ultimately show ?thesis using assms(1) cs by (simp add: strtoull_def Let_def)
qed

end
