(* ===== verification/Cache.thy ===== *)
theory Cache
  imports Decimal "HOL-Library.AList"
begin

text \<open>
  The answer cache (\<open>include/engine/cache.h\<close>, \<open>src/engine/cache.cpp\<close>).

  \<open>table_\<close>, an \<open>std::unordered_map\<close>, is an association list with distinct keys; \<open>lru_order_\<close>, an
  \<open>std::list\<close>, is a list of nodes, each with an identity (a number never given out twice), because
  the entries of the table hold iterators into it.  An iterator that points to no node of the list,
  or \<open>back\<close> and \<open>pop_back\<close> on the empty list, is undefined behaviour: those operations return
  \<open>None\<close>.  The steady clock is a parameter \<open>now\<close>, in nanoseconds.  The mutex makes each operation
  atomic.

  The detailed operations are refined to an abstract cache, one association list in order of use
  (\<open>spec_lookup\<close>, \<open>spec_insert\<close>), and, one level up, to the contract \<open>answer_cache\<close> that the event
  loop relies on.
\<close>

section \<open>The doubly linked list\<close>

type_synonym list_it = nat

definition list_erase :: "list_it \<Rightarrow> (list_it \<times> string) list \<Rightarrow> (list_it \<times> string) list option" where
  "list_erase it xs = (if it \<in> fst ` set xs then Some (filter (\<lambda>p. fst p \<noteq> it) xs) else None)"

definition splice_front :: "list_it \<Rightarrow> (list_it \<times> string) list \<Rightarrow> (list_it \<times> string) list option" where
  "splice_front it xs =
     (if it \<in> fst ` set xs then Some (filter (\<lambda>p. fst p = it) xs @ filter (\<lambda>p. fst p \<noteq> it) xs) else None)"

definition list_back :: "(list_it \<times> string) list \<Rightarrow> string option" where
  "list_back xs = (if xs = [] then None else Some (snd (last xs)))"

definition list_pop_back :: "(list_it \<times> string) list \<Rightarrow> (list_it \<times> string) list option" where
  "list_pop_back xs = (if xs = [] then None else Some (butlast xs))"

section \<open>State and operations\<close>

record cache_entry =
  ce_response :: bytes
  ce_expires_at :: int
  ce_policy_generation :: u64
  ce_lru_it :: list_it

record dns_cache =
  max_entries :: nat
  cache_table :: "(string \<times> cache_entry) list"
  lru_order :: "(list_it \<times> string) list"
  next_node :: list_it

definition new_cache :: "nat \<Rightarrow> dns_cache" where
  "new_cache n = \<lparr>max_entries = n, cache_table = [], lru_order = [], next_node = 0\<rparr>"

definition make_key :: "string \<Rightarrow> u16 \<Rightarrow> u16 \<Rightarrow> string" where
  "make_key qname qtype qclass = qname @ '':'' @ dec_string (unat qtype) @ '':'' @ dec_string (unat qclass)"

definition drop_entry :: "string \<Rightarrow> cache_entry \<Rightarrow> dns_cache \<Rightarrow> dns_cache option" where
  "drop_entry key e c =
     map_option (\<lambda>xs. c\<lparr>lru_order := xs, cache_table := AList.delete key (cache_table c)\<rparr>)
       (list_erase (ce_lru_it e) (lru_order c))"

definition cache_lookup ::
    "int \<Rightarrow> string \<Rightarrow> u16 \<Rightarrow> u16 \<Rightarrow> u64 \<Rightarrow> dns_cache \<Rightarrow> (cache_entry option \<times> dns_cache) option" where
  "cache_lookup now qname qtype qclass current_generation c =
     (let key = make_key qname qtype qclass in
      case map_of (cache_table c) key of
        None \<Rightarrow> Some (None, c)
      | Some e \<Rightarrow>
          if now \<ge> ce_expires_at e then map_option (Pair None) (drop_entry key e c)
          else if ce_policy_generation e \<noteq> current_generation then map_option (Pair None) (drop_entry key e c)
          else map_option (\<lambda>xs. (Some e, c\<lparr>lru_order := xs\<rparr>)) (splice_front (ce_lru_it e) (lru_order c)))"

definition clamp_ttl :: "u32 \<Rightarrow> u32" where
  "clamp_ttl ttl_sec = max 1 (min ttl_sec 86400)"

definition expiry :: "int \<Rightarrow> u32 \<Rightarrow> int" where
  "expiry now ttl_sec = now + uint (clamp_ttl ttl_sec) * 1000000000"

definition evict_oldest :: "dns_cache \<Rightarrow> dns_cache option" where
  "evict_oldest c =
     (case (list_back (lru_order c), list_pop_back (lru_order c)) of
        (Some oldest_key, Some xs) \<Rightarrow>
          Some (c\<lparr>cache_table := AList.delete oldest_key (cache_table c), lru_order := xs\<rparr>)
      | _ \<Rightarrow> None)"

definition push_entry :: "string \<Rightarrow> bytes \<Rightarrow> int \<Rightarrow> u64 \<Rightarrow> dns_cache \<Rightarrow> dns_cache" where
  "push_entry key response expires generation c =
     (let it = next_node c;
          entry = \<lparr>ce_response = response, ce_expires_at = expires,
                   ce_policy_generation = generation, ce_lru_it = it\<rparr>
      in c\<lparr>lru_order := (it, key) # lru_order c, next_node := Suc it,
           cache_table := AList.update key entry (cache_table c)\<rparr>)"

definition cache_insert ::
    "int \<Rightarrow> string \<Rightarrow> u16 \<Rightarrow> u16 \<Rightarrow> bytes \<Rightarrow> u32 \<Rightarrow> u64 \<Rightarrow> dns_cache \<Rightarrow> dns_cache option" where
  "cache_insert now qname qtype qclass response ttl_sec generation c =
     (let key = make_key qname qtype qclass in
      case map_of (cache_table c) key of
        Some e \<Rightarrow>
          map_option
            (\<lambda>xs. c\<lparr>lru_order := xs,
                     cache_table := AList.update key
                       (e\<lparr>ce_response := response, ce_expires_at := expiry now ttl_sec,
                          ce_policy_generation := generation\<rparr>) (cache_table c)\<rparr>)
            (splice_front (ce_lru_it e) (lru_order c))
      | None \<Rightarrow>
          map_option (push_entry key response (expiry now ttl_sec) generation)
            (if length (cache_table c) \<ge> max_entries c then evict_oldest c else Some c))"

definition cache_size :: "dns_cache \<Rightarrow> nat" where
  "cache_size c = length (cache_table c)"

definition cache_clear :: "dns_cache \<Rightarrow> dns_cache" where
  "cache_clear c = c\<lparr>cache_table := [], lru_order := []\<rparr>"

section \<open>Keys\<close>

lemma last_split_unique:
  "xs @ c # ys = xs' @ c # ys' \<Longrightarrow> c \<notin> set ys \<Longrightarrow> c \<notin> set ys' \<Longrightarrow> xs = xs' \<and> ys = ys'"
  by (auto simp: append_eq_append_conv2 append_eq_Cons_conv Cons_eq_append_conv)

lemma make_key_eq_iff:
  "make_key q t cl = make_key q' t' cl' \<longleftrightarrow> q = q' \<and> t = t' \<and> cl = cl'"
proof
  assume eq: "make_key q t cl = make_key q' t' cl'"
  have *: "q @ CHR '':'' # dec_string (unat t) = q' @ CHR '':'' # dec_string (unat t')
      \<and> dec_string (unat cl) = dec_string (unat cl')"
    by (rule last_split_unique [where c = "CHR '':''"]) (use eq in \<open>simp_all add: make_key_def\<close>)
  then have "q = q' \<and> dec_string (unat t) = dec_string (unat t')"
    by (intro last_split_unique [where c = "CHR '':''"]) simp_all
  with * show "q = q' \<and> t = t' \<and> cl = cl'" by (simp add: word_unat_eq_iff)
qed simp

section \<open>The invariant\<close>

definition cache_inv :: "dns_cache \<Rightarrow> bool" where
  "cache_inv c \<longleftrightarrow>
     distinct (map fst (cache_table c)) \<and> distinct (map fst (lru_order c)) \<and>
     distinct (map snd (lru_order c)) \<and>
     (\<forall>k e. map_of (cache_table c) k = Some e \<longrightarrow> (ce_lru_it e, k) \<in> set (lru_order c)) \<and>
     (\<forall>n k. (n, k) \<in> set (lru_order c) \<longrightarrow> (\<exists>e. map_of (cache_table c) k = Some e \<and> ce_lru_it e = n)) \<and>
     (\<forall>n k. (n, k) \<in> set (lru_order c) \<longrightarrow> n < next_node c) \<and>
     length (cache_table c) \<le> max_entries c"

lemma cache_invD:
  assumes "cache_inv c"
  shows "distinct (map fst (cache_table c))" "distinct (map fst (lru_order c))"
    "distinct (map snd (lru_order c))"
    "map_of (cache_table c) k = Some e \<Longrightarrow> (ce_lru_it e, k) \<in> set (lru_order c)"
    "(n, k) \<in> set (lru_order c) \<Longrightarrow> \<exists>e. map_of (cache_table c) k = Some e \<and> ce_lru_it e = n"
    "(n, k) \<in> set (lru_order c) \<Longrightarrow> n < next_node c"
    "length (cache_table c) \<le> max_entries c"
  using assms unfolding cache_inv_def by blast+

lemma cache_inv_keys:
  assumes "cache_inv c"
  shows "snd ` set (lru_order c) = fst ` set (cache_table c)"
proof -
  have "k \<in> snd ` set (lru_order c) \<longleftrightarrow> map_of (cache_table c) k \<noteq> None" for k
  proof
    assume "k \<in> snd ` set (lru_order c)"
    then obtain n where "(n, k) \<in> set (lru_order c)" by force
    from cache_invD(5) [OF assms this] show "map_of (cache_table c) k \<noteq> None" by auto
  next
    assume "map_of (cache_table c) k \<noteq> None"
    then obtain e where "map_of (cache_table c) k = Some e" by auto
    from cache_invD(4) [OF assms this] show "k \<in> snd ` set (lru_order c)" by force
  qed
  then show ?thesis unfolding map_of_eq_None_iff by blast
qed

lemma cache_inv_length:
  assumes "cache_inv c"
  shows "length (lru_order c) = length (cache_table c)"
proof -
  have "length (lru_order c) = card (snd ` set (lru_order c))"
    using distinct_card [OF cache_invD(3) [OF assms]] by simp
  also have "\<dots> = length (cache_table c)"
    using distinct_card [OF cache_invD(1) [OF assms]] cache_inv_keys [OF assms] by simp
  finally show ?thesis .
qed

lemma filter_fst_unique:
  "distinct (map fst xs) \<Longrightarrow> (a, b) \<in> set xs \<Longrightarrow> filter (\<lambda>p. fst p = a) xs = [(a, b)]"
proof (induction xs)
  case (Cons x xs)
  show ?case
  proof (cases "x = (a, b)")
    case True
    with Cons.prems have "filter (\<lambda>p. fst p = a) xs = []" by (auto simp: filter_empty_conv)
    with True show ?thesis by simp
  next
    case False
    with Cons.prems have mem: "(a, b) \<in> set xs" by simp
    then have "a \<in> fst ` set xs" by force
    with Cons.prems have "fst x \<noteq> a" by auto
    with Cons mem show ?thesis by simp
  qed
qed simp

lemma filter_fst_snd:
  assumes "distinct (map fst xs)" "distinct (map snd xs)" "(a, b) \<in> set xs"
  shows "filter (\<lambda>p. fst p \<noteq> a) xs = filter (\<lambda>p. snd p \<noteq> b) xs"
proof (rule filter_cong [OF refl])
  fix p assume "p \<in> set xs"
  then show "fst p \<noteq> a \<longleftrightarrow> snd p \<noteq> b"
    using assms by (metis distinct_map inj_onD fst_conv snd_conv)
qed

lemma lru_filter:
  assumes "cache_inv c" "map_of (cache_table c) k = Some e"
  shows "ce_lru_it e \<in> fst ` set (lru_order c)"
    "filter (\<lambda>p. fst p = ce_lru_it e) (lru_order c) = [(ce_lru_it e, k)]"
    "filter (\<lambda>p. fst p \<noteq> ce_lru_it e) (lru_order c) = filter (\<lambda>p. snd p \<noteq> k) (lru_order c)"
proof -
  note mem = cache_invD(4) [OF assms]
  show "ce_lru_it e \<in> fst ` set (lru_order c)" using mem by force
  show "filter (\<lambda>p. fst p = ce_lru_it e) (lru_order c) = [(ce_lru_it e, k)]"
    by (rule filter_fst_unique [OF cache_invD(2) [OF assms(1)] mem])
  show "filter (\<lambda>p. fst p \<noteq> ce_lru_it e) (lru_order c) = filter (\<lambda>p. snd p \<noteq> k) (lru_order c)"
    by (rule filter_fst_snd [OF cache_invD(2,3) [OF assms(1)] mem])
qed

lemma new_cache_inv: "cache_inv (new_cache n)"
  by (simp add: cache_inv_def new_cache_def)

lemma cache_clear_inv: "cache_inv (cache_clear c)"
  by (simp add: cache_inv_def cache_clear_def)

section \<open>The abstract cache\<close>

type_synonym content = "bytes \<times> int \<times> u64"

definition content_of :: "cache_entry \<Rightarrow> content" where
  "content_of e = (ce_response e, ce_expires_at e, ce_policy_generation e)"

definition cache_view :: "dns_cache \<Rightarrow> (string \<times> content) list" where
  "cache_view c = map (\<lambda>p. (snd p, content_of (the (map_of (cache_table c) (snd p))))) (lru_order c)"

definition spec_lookup :: "int \<Rightarrow> string \<Rightarrow> u64 \<Rightarrow> (string \<times> content) list \<Rightarrow> content option \<times> (string \<times> content) list" where
  "spec_lookup now k g xs =
     (case map_of xs k of
        None \<Rightarrow> (None, xs)
      | Some v \<Rightarrow>
          if now < fst (snd v) \<and> snd (snd v) = g then (Some v, (k, v) # AList.delete k xs)
          else (None, AList.delete k xs))"

definition spec_insert :: "nat \<Rightarrow> string \<Rightarrow> content \<Rightarrow> (string \<times> content) list \<Rightarrow> (string \<times> content) list" where
  "spec_insert cap k v xs =
     (k, v) # (if map_of xs k \<noteq> None then AList.delete k xs
               else if length xs \<ge> cap then butlast xs else xs)"

lemma cache_view_lookup:
  assumes "cache_inv c"
  shows "map_of (cache_view c) k = map_option content_of (map_of (cache_table c) k)"
proof -
  have "map_of (map (\<lambda>p. (snd p, f (snd p))) xs) k = (if k \<in> snd ` set xs then Some (f k) else None)"
    for f :: "string \<Rightarrow> content" and xs :: "(list_it \<times> string) list"
    by (induction xs) auto
  note this [of "\<lambda>k. content_of (the (map_of (cache_table c) k))" "lru_order c"]
  then have *: "map_of (cache_view c) k =
      (if k \<in> snd ` set (lru_order c) then Some (content_of (the (map_of (cache_table c) k))) else None)"
    unfolding cache_view_def .
  show ?thesis
  proof (cases "map_of (cache_table c) k")
    case None
    then have "k \<notin> fst ` set (cache_table c)" by (simp add: map_of_eq_None_iff)
    then show ?thesis using * cache_inv_keys [OF assms] None by (simp del: map_of_eq_None_iff)
  next
    case (Some e)
    then have "k \<in> fst ` set (cache_table c)" by (metis map_of_eq_None_iff option.distinct(1))
    then show ?thesis using * cache_inv_keys [OF assms] Some by simp
  qed
qed

lemma delete_filter: "AList.delete k xs = filter (\<lambda>p. fst p \<noteq> k) xs"
  by (induction xs) auto

lemma distinct_map_eq:
  "distinct (map f xs) \<Longrightarrow> x \<in> set xs \<Longrightarrow> y \<in> set xs \<Longrightarrow> f x = f y \<Longrightarrow> x = y"
  by (simp add: distinct_map inj_on_def)

lemma drop_entry_refines:
  assumes inv: "cache_inv c" and e: "map_of (cache_table c) k = Some e"
  obtains c' where "drop_entry k e c = Some c'" "cache_inv c'"
    "cache_view c' = AList.delete k (cache_view c)" "max_entries c' = max_entries c"
proof
  let ?c' = "c\<lparr>lru_order := filter (\<lambda>p. snd p \<noteq> k) (lru_order c), cache_table := AList.delete k (cache_table c)\<rparr>"
  show "drop_entry k e c = Some ?c'"
    using lru_filter [OF inv e] by (simp add: drop_entry_def list_erase_def)
  have len: "length (AList.delete k (cache_table c)) \<le> max_entries c"
    using cache_invD(7) [OF inv] AList.length_delete_le [of k "cache_table c"] by linarith
  show "cache_inv ?c'"
    unfolding cache_inv_def
    using cache_invD(1-6) [OF inv] len
    by (auto simp: AList.delete_conv' AList.distinct_delete distinct_map_filter) 
  have "map (\<lambda>p. (snd p, content_of (the (map_of (cache_table ?c') (snd p))))) (lru_order ?c')
      = map (\<lambda>p. (snd p, content_of (the (map_of (cache_table c) (snd p))))) (lru_order ?c')"
    by (rule map_cong) (auto simp: AList.delete_conv')
  then show "cache_view ?c' = AList.delete k (cache_view c)"
    by (simp add: cache_view_def delete_filter filter_map o_def)
  show "max_entries ?c' = max_entries c" by simp
qed

lemma splice_front_key:
  assumes "cache_inv c" "map_of (cache_table c) k = Some e"
  shows "splice_front (ce_lru_it e) (lru_order c) =
    Some ((ce_lru_it e, k) # filter (\<lambda>p. snd p \<noteq> k) (lru_order c))"
  using lru_filter [OF assms] by (simp add: splice_front_def)

lemma promoted_order:
  assumes "cache_inv c" "map_of (cache_table c) k = Some e"
  defines "l \<equiv> (ce_lru_it e, k) # filter (\<lambda>p. snd p \<noteq> k) (lru_order c)"
  shows "set l = set (lru_order c)" "distinct (map fst l)" "distinct (map snd l)"
proof -
  note mem = cache_invD(4) [OF assms(1,2)] and d = cache_invD(2,3) [OF assms(1)]
  have only: "p = (ce_lru_it e, k)" if "p \<in> set (lru_order c)" "snd p = k" for p
    using distinct_map_eq [OF d(2) that(1) mem] that(2) by simp
  have "set l = insert (ce_lru_it e, k) {p \<in> set (lru_order c). snd p \<noteq> k}" by (simp add: l_def)
  also have "\<dots> = set (lru_order c)" using mem only by blast
  finally show "set l = set (lru_order c)" .
  have "x = k" if "(ce_lru_it e, x) \<in> set (lru_order c)" for x
    using distinct_map_eq [OF d(1) that mem] by simp
  then show "distinct (map fst l)" using d(1) by (auto simp: l_def distinct_map_filter)
  show "distinct (map snd l)" using d(2) by (auto simp: l_def distinct_map_filter)
qed

lemma cache_inv_reorder:
  assumes inv: "cache_inv c" and "set l = set (lru_order c)" "distinct (map fst l)" "distinct (map snd l)"
    and "map fst t = map fst (cache_table c)"
    and it: "\<And>k. map_option ce_lru_it (map_of t k) = map_option ce_lru_it (map_of (cache_table c) k)"
  shows "cache_inv (c\<lparr>lru_order := l, cache_table := t\<rparr>)"
proof -
  have len: "length t = length (cache_table c)" using assms(5) by (metis length_map)
  have 1: "(ce_lru_it e, k) \<in> set (lru_order c)" if "map_of t k = Some e" for k e
  proof -
    have "\<exists>e0. map_of (cache_table c) k = Some e0 \<and> ce_lru_it e0 = ce_lru_it e"
      using it [of k] that by (cases "map_of (cache_table c) k") auto
    then obtain e0 where "map_of (cache_table c) k = Some e0" "ce_lru_it e0 = ce_lru_it e" by blast
    then show ?thesis using cache_invD(4) [OF inv] by fastforce
  qed
  have 2: "\<exists>e. map_of t k = Some e \<and> ce_lru_it e = n" if nk: "(n, k) \<in> set (lru_order c)" for n k
  proof -
    obtain e0 where "map_of (cache_table c) k = Some e0" "ce_lru_it e0 = n"
      using cache_invD(5) [OF inv nk] by blast
    then show ?thesis using it [of k] by (cases "map_of t k") auto
  qed
  show ?thesis
    using assms(2-5) cache_invD(1,6,7) [OF inv] 1 2 len by (simp add: cache_inv_def)
qed

lemma view_promoted:
  assumes "cache_inv c" "map_of (cache_table c) k = Some e"
    and "\<And>k'. k' \<noteq> k \<Longrightarrow> map_of t k' = map_of (cache_table c) k'"
  shows "cache_view (c\<lparr>lru_order := (n, k) # filter (\<lambda>p. snd p \<noteq> k) (lru_order c), cache_table := t\<rparr>)
    = (k, content_of (the (map_of t k))) # AList.delete k (cache_view c)"
  using assms(3) by (simp add: cache_view_def delete_filter filter_map o_def cong: map_cong)

section \<open>Refinement\<close>

lemma cache_lookup_refines_spec:
  assumes inv: "cache_inv c"
  obtains r c' where "cache_lookup now q t cl g c = Some (r, c')" "cache_inv c'"
    "max_entries c' = max_entries c"
    "spec_lookup now (make_key q t cl) g (cache_view c) = (map_option content_of r, cache_view c')"
proof (cases "map_of (cache_table c) (make_key q t cl)")
  case None
  then show ?thesis
    using inv by (intro that [of None c]) (simp_all add: cache_lookup_def spec_lookup_def cache_view_lookup)
next
  case (Some e)
  let ?k = "make_key q t cl"
  have v: "map_of (cache_view c) ?k = Some (content_of e)"
    using inv Some by (simp add: cache_view_lookup)
  show ?thesis
  proof (cases "now < ce_expires_at e \<and> ce_policy_generation e = g")
    case True
    let ?c' = "c\<lparr>lru_order := (ce_lru_it e, ?k) # filter (\<lambda>p. snd p \<noteq> ?k) (lru_order c)\<rparr>"
    have c': "?c' = c\<lparr>lru_order := (ce_lru_it e, ?k) # filter (\<lambda>p. snd p \<noteq> ?k) (lru_order c), cache_table := cache_table c\<rparr>"
      by simp
    have view: "cache_view ?c' = (?k, content_of e) # AList.delete ?k (cache_view c)"
      using view_promoted [OF inv Some, of "cache_table c" "ce_lru_it e"] Some by (subst c') simp
    show ?thesis
    proof (rule that [of "Some e" ?c'])
      show "cache_lookup now q t cl g c = Some (Some e, ?c')"
        using True Some splice_front_key [OF inv Some] by (simp add: cache_lookup_def Let_def)
      show "cache_inv ?c'"
        by (subst c') (rule cache_inv_reorder [OF inv promoted_order [OF inv Some]], simp_all)
      show "spec_lookup now ?k g (cache_view c) = (map_option content_of (Some e), cache_view ?c')"
        using True v view by (simp add: spec_lookup_def content_of_def)
    qed simp
  next
    case False
    obtain c' where c': "drop_entry ?k e c = Some c'" "cache_inv c'"
        "cache_view c' = AList.delete ?k (cache_view c)" "max_entries c' = max_entries c"
      using drop_entry_refines [OF inv Some] .
    show ?thesis
    proof (rule that [of None c'])
      show "cache_lookup now q t cl g c = Some (None, c')"
        using False Some c'(1) by (auto simp: cache_lookup_def Let_def)
      show "spec_lookup now ?k g (cache_view c) = (map_option content_of None, cache_view c')"
        using False v c'(3) by (auto simp: spec_lookup_def content_of_def)
    qed (use c' in simp_all)
  qed
qed

lemma evict_oldest_refines:
  assumes inv: "cache_inv c" and ne: "lru_order c \<noteq> []"
  obtains c' where "evict_oldest c = Some c'" "cache_inv c'" "cache_view c' = butlast (cache_view c)"
    "length (cache_table c') < max_entries c" "max_entries c' = max_entries c"
    "\<And>k. map_of (cache_table c) k = None \<Longrightarrow> map_of (cache_table c') k = None"
proof -
  obtain xs n k where l: "lru_order c = xs @ [(n, k)]"
    using ne by (metis append_butlast_last_id prod.collapse)
  note d = cache_invD(2,3) [OF inv]
  have xs: "filter (\<lambda>p. snd p \<noteq> k) (lru_order c) = xs"
    using d(2) l by (auto simp: filter_id_conv)
  have mem: "(n, k) \<in> set (lru_order c)" using l by simp
  obtain e where e: "map_of (cache_table c) k = Some e" "ce_lru_it e = n"
    using cache_invD(5) [OF inv mem] by blast
  obtain c' where c': "drop_entry k e c = Some c'" "cache_inv c'"
      "cache_view c' = AList.delete k (cache_view c)" "max_entries c' = max_entries c"
    using drop_entry_refines [OF inv e(1)] .
  have ev: "evict_oldest c = drop_entry k e c"
    using l xs lru_filter [OF inv e(1)]
    by (simp add: evict_oldest_def drop_entry_def list_back_def list_pop_back_def list_erase_def)
  have tab: "cache_table c' = AList.delete k (cache_table c)"
    using c'(1) by (auto simp: drop_entry_def)
  have "k \<notin> snd ` set xs" using d(2) l by (auto simp: image_iff)
  then have "filter (\<lambda>p. snd p \<noteq> k) xs = xs" by (auto simp: filter_id_conv)
  then have "cache_view c' = butlast (cache_view c)"
    using c'(3) l by (simp add: cache_view_def delete_filter filter_map o_def)
  moreover have "length (cache_table c') < length (cache_table c)"
    using e(1) tab by (auto simp: delete_filter dest!: map_of_SomeD intro!: length_filter_less)
  then have "length (cache_table c') < max_entries c" using cache_invD(7) [OF inv] by simp
  moreover have "map_of (cache_table c') k' = None" if "map_of (cache_table c) k' = None" for k'
    using that tab by (simp add: AList.delete_conv')
  ultimately show ?thesis using that c' ev by metis
qed

lemma push_entry_refines:
  assumes inv: "cache_inv c" and new: "map_of (cache_table c) k = None"
    and room: "length (cache_table c) < max_entries c"
  shows "cache_inv (push_entry k r t g c)"
    "cache_view (push_entry k r t g c) = (k, (r, t, g)) # cache_view c"
proof -
  have k: "k \<notin> snd ` set (lru_order c)"
    using new cache_inv_keys [OF inv] by (simp add: map_of_eq_None_iff)
  have n: "next_node c \<notin> fst ` set (lru_order c)"
    using cache_invD(6) [OF inv] by fastforce
  have len: "length (AList.update k e (cache_table c)) = Suc (length (cache_table c))" for e
    using new AList.update_keys [of k e "cache_table c"]
    by (metis length_append_singleton length_map map_of_eq_None_iff set_map)
  let ?e = "\<lparr>ce_response = r, ce_expires_at = t, ce_policy_generation = g, ce_lru_it = next_node c\<rparr>"
  have m: "map_of (AList.update k ?e (cache_table c)) = (map_of (cache_table c))(k \<mapsto> ?e)"
    by (rule AList.update_conv')
  have *: "(next_node c, x) \<notin> set (lru_order c)" "(x', k) \<notin> set (lru_order c)" for x x'
    using n k by force+
  show "cache_inv (push_entry k r t g c)"
    unfolding cache_inv_def push_entry_def Let_def
    using cache_invD(1-6) [OF inv] len room n k m *
    by (auto simp: AList.distinct_update less_Suc_eq)
  show "cache_view (push_entry k r t g c) = (k, (r, t, g)) # cache_view c"
    using k m by (auto simp: cache_view_def push_entry_def Let_def content_of_def image_iff)
qed

lemma cache_insert_refines_spec:
  assumes inv: "cache_inv c" and cap: "0 < max_entries c"
  obtains c' where "cache_insert now q t cl r ttl g c = Some c'" "cache_inv c'"
    "max_entries c' = max_entries c"
    "cache_view c' = spec_insert (max_entries c) (make_key q t cl) (r, expiry now ttl, g) (cache_view c)"
proof (cases "map_of (cache_table c) (make_key q t cl)")
  case (Some e)
  let ?k = "make_key q t cl"
  let ?e = "e\<lparr>ce_response := r, ce_expires_at := expiry now ttl, ce_policy_generation := g\<rparr>"
  let ?t = "AList.update ?k ?e (cache_table c)"
  let ?c' = "c\<lparr>lru_order := (ce_lru_it e, ?k) # filter (\<lambda>p. snd p \<noteq> ?k) (lru_order c), cache_table := ?t\<rparr>"
  have m: "map_of ?t = (map_of (cache_table c))(?k \<mapsto> ?e)" by (rule AList.update_conv')
  have "?k \<in> set (map fst (cache_table c))" using map_of_SomeD [OF Some] by force
  then have keys: "map fst ?t = map fst (cache_table c)" by (simp add: AList.update_keys)
  show ?thesis
  proof (rule that [of ?c'])
    show "cache_insert now q t cl r ttl g c = Some ?c'"
      using Some splice_front_key [OF inv Some] by (simp add: cache_insert_def Let_def)
    show "cache_inv ?c'"
      by (rule cache_inv_reorder [OF inv promoted_order [OF inv Some] keys]) (simp add: m Some)
    show "cache_view ?c' = spec_insert (max_entries c) ?k (r, expiry now ttl, g) (cache_view c)"
      by (subst view_promoted [OF inv Some])
        (simp_all add: m spec_insert_def cache_view_lookup [OF inv] Some content_of_def)
  qed simp
next
  case None
  let ?k = "make_key q t cl"
  let ?push = "push_entry ?k r (expiry now ttl) g"
  have len: "length (cache_view c) = length (cache_table c)"
    using cache_inv_length [OF inv] by (simp add: cache_view_def)
  have none: "map_of (cache_view c) ?k = None" using cache_view_lookup [OF inv] None by simp
  show ?thesis
  proof (cases "length (cache_table c) \<ge> max_entries c")
    case True
    then have "lru_order c \<noteq> []" using cap cache_inv_length [OF inv] by auto
    then obtain c1 where c1: "evict_oldest c = Some c1" "cache_inv c1" "cache_view c1 = butlast (cache_view c)"
        "length (cache_table c1) < max_entries c" "max_entries c1 = max_entries c"
        "map_of (cache_table c1) ?k = None"
      using evict_oldest_refines [OF inv] None by metis
    show ?thesis
      using True None none c1 push_entry_refines [OF c1(2,6)] len
      by (intro that [of "?push c1"])
        (simp_all add: cache_insert_def Let_def spec_insert_def, simp add: push_entry_def Let_def)
  next
    case False
    then show ?thesis
      using None none push_entry_refines [OF inv None] len
      by (intro that [of "?push c"])
        (simp_all add: cache_insert_def Let_def spec_insert_def, simp add: push_entry_def Let_def)
  qed
qed

section \<open>The contract the event loop relies on\<close>

lemma map_leD: "m \<subseteq>\<^sub>m m' \<Longrightarrow> m x = Some v \<Longrightarrow> m' x = Some v"
  by (metis domI map_le_def)

lemma map_leI: "(\<And>x v. m x = Some v \<Longrightarrow> m' x = Some v) \<Longrightarrow> m \<subseteq>\<^sub>m m'"
  by (auto simp: map_le_def dom_def)

type_synonym question_key = "string \<times> u16 \<times> u16"

datatype cache_op =
    Lookup int string u16 u16 u64
  | Insert int string u16 u16 bytes u32 u64

fun inserts :: "question_key \<Rightarrow> cache_op \<Rightarrow> bool" where
  "inserts x (Lookup now q t cl g) = False"
| "inserts x (Insert now q t cl r ttl g) = (x = (q, t, cl))"

fun op_key :: "cache_op \<Rightarrow> question_key" where
  "op_key (Lookup now q t cl g) = (q, t, cl)"
| "op_key (Insert now q t cl r ttl g) = (q, t, cl)"

fun run_op ::
    "(int \<Rightarrow> string \<Rightarrow> u16 \<Rightarrow> u16 \<Rightarrow> u64 \<Rightarrow> 'c \<Rightarrow> (cache_entry option \<times> 'c) option) \<Rightarrow>
     (int \<Rightarrow> string \<Rightarrow> u16 \<Rightarrow> u16 \<Rightarrow> bytes \<Rightarrow> u32 \<Rightarrow> u64 \<Rightarrow> 'c \<Rightarrow> 'c option) \<Rightarrow> cache_op \<Rightarrow> 'c \<Rightarrow> 'c option" where
  "run_op lkp ins (Lookup now q t cl g) c = map_option snd (lkp now q t cl g c)"
| "run_op lkp ins (Insert now q t cl resp ttl g) c = ins now q t cl resp ttl g c"

fun run_ops ::
    "(int \<Rightarrow> string \<Rightarrow> u16 \<Rightarrow> u16 \<Rightarrow> u64 \<Rightarrow> 'c \<Rightarrow> (cache_entry option \<times> 'c) option) \<Rightarrow>
     (int \<Rightarrow> string \<Rightarrow> u16 \<Rightarrow> u16 \<Rightarrow> bytes \<Rightarrow> u32 \<Rightarrow> u64 \<Rightarrow> 'c \<Rightarrow> 'c option) \<Rightarrow> cache_op list \<Rightarrow> 'c \<Rightarrow> 'c option" where
  "run_ops lkp ins [] c = Some c"
| "run_ops lkp ins (op # ops) c = Option.bind (run_op lkp ins op c) (run_ops lkp ins ops)"

locale answer_cache =
  fixes invar :: "'c \<Rightarrow> bool"
    and content :: "'c \<Rightarrow> question_key \<Rightarrow> content option"
    and lookup :: "int \<Rightarrow> string \<Rightarrow> u16 \<Rightarrow> u16 \<Rightarrow> u64 \<Rightarrow> 'c \<Rightarrow> (cache_entry option \<times> 'c) option"
    and insert :: "int \<Rightarrow> string \<Rightarrow> u16 \<Rightarrow> u16 \<Rightarrow> bytes \<Rightarrow> u32 \<Rightarrow> u64 \<Rightarrow> 'c \<Rightarrow> 'c option"
  assumes lookup_total: "invar c \<Longrightarrow> lookup now q t cl g c \<noteq> None"
    and lookup_invar: "invar c \<Longrightarrow> lookup now q t cl g c = Some (r, c') \<Longrightarrow> invar c'"
    and lookup_content: "invar c \<Longrightarrow> lookup now q t cl g c = Some (r, c') \<Longrightarrow> content c' \<subseteq>\<^sub>m content c"
    and lookup_hit: "invar c \<Longrightarrow> lookup now q t cl g c = Some (Some e, c') \<Longrightarrow>
      content c (q, t, cl) = Some (content_of e) \<and> now < ce_expires_at e \<and> ce_policy_generation e = g"
    and insert_total: "invar c \<Longrightarrow> insert now q t cl resp ttl g c \<noteq> None"
    and insert_invar: "invar c \<Longrightarrow> insert now q t cl resp ttl g c = Some c' \<Longrightarrow> invar c'"
    and insert_content: "invar c \<Longrightarrow> insert now q t cl resp ttl g c = Some c' \<Longrightarrow>
      content c' \<subseteq>\<^sub>m (content c)((q, t, cl) \<mapsto> (resp, expiry now ttl, g))"
begin

abbreviation step :: "cache_op \<Rightarrow> 'c \<Rightarrow> 'c option" where
  "step \<equiv> run_op lookup insert"

abbreviation run :: "cache_op list \<Rightarrow> 'c \<Rightarrow> 'c option" where
  "run \<equiv> run_ops lookup insert"

lemma step_total: "invar c \<Longrightarrow> \<exists>c'. step op c = Some c' \<and> invar c'"
proof (cases op)
  case (Lookup now q t cl g)
  assume "invar c"
  then show ?thesis using Lookup lookup_total [of c now q t cl g] lookup_invar [of c now q t cl g] by fastforce
next
  case (Insert now q t cl resp ttl g)
  assume "invar c"
  then show ?thesis
    using Insert insert_total [of c now q t cl resp ttl g] insert_invar [of c now q t cl resp ttl g] by auto
qed

lemma run_total: "invar c \<Longrightarrow> \<exists>c'. run ops c = Some c' \<and> invar c'"
proof (induction ops arbitrary: c)
  case (Cons op ops)
  then show ?case using step_total [of c op] by fastforce
qed simp

text \<open>What holds of every entry stays so under lookups, and under insertions of entries it holds of.\<close>

lemma lookup_keeps_entries:
  assumes "invar c" "lookup now q t cl g c = Some (r, c')" "\<And>x v. content c x = Some v \<Longrightarrow> P x v"
    and "content c' x = Some v"
  shows "P x v"
  using map_leD [OF lookup_content [OF assms(1,2)] assms(4)] assms(3) by blast

lemma insert_keeps_entries:
  assumes "invar c" "insert now q t cl resp ttl g c = Some c'" "\<And>x v. content c x = Some v \<Longrightarrow> P x v"
    and "P (q, t, cl) (resp, expiry now ttl, g)" "content c' x = Some v"
  shows "P x v"
  using map_leD [OF insert_content [OF assms(1,2)] assms(5)] assms(3,4) by (auto split: if_splits)

lemma run_append: "run (xs @ ys) c = Option.bind (run xs c) (run ys)"
  by (induction xs arbitrary: c) (auto split: bind_splits)

lemma run_content:
  assumes "invar c" "run ops c = Some c'" "content c' x = Some v"
  shows "(content c x = Some v \<and> (\<forall>op \<in> set ops. \<not> inserts x op)) \<or>
    (\<exists>pre now resp ttl g post. ops = pre @ Insert now (fst x) (fst (snd x)) (snd (snd x)) resp ttl g # post
       \<and> v = (resp, expiry now ttl, g) \<and> (\<forall>op \<in> set post. \<not> inserts x op))"
  using assms(2,3)
proof (induction ops arbitrary: c' rule: rev_induct)
  case (snoc op ops)
  obtain c1 where c1: "run ops c = Some c1" "invar c1" using run_total [OF assms(1)] by blast
  with snoc.prems have st: "step op c1 = Some c'" by (cases "step op c1") (simp_all add: run_append)
  show ?case
  proof (cases "inserts x op")
    case True
    then obtain now resp ttl g where op: "op = Insert now (fst x) (fst (snd x)) (snd (snd x)) resp ttl g"
      by (cases op) auto
    with st have "content c' \<subseteq>\<^sub>m (content c1)(x \<mapsto> (resp, expiry now ttl, g))"
      using insert_content [OF c1(2)] by force
    from map_leD [OF this snoc.prems(2)] have "v = (resp, expiry now ttl, g)" by simp
    then show ?thesis using op by fastforce
  next
    case False
    have "content c1 x = Some v"
    proof (cases op)
      case (Lookup now q t cl g)
      then obtain r where "lookup now q t cl g c1 = Some (r, c')" using st by auto
      from map_leD [OF lookup_content [OF c1(2) this] snoc.prems(2)] show ?thesis .
    next
      case (Insert now q t cl resp ttl g)
      then have "insert now q t cl resp ttl g c1 = Some c'" using st by simp
      from map_leD [OF insert_content [OF c1(2) this] snoc.prems(2)] show ?thesis
        using False Insert by (simp split: if_splits)
    qed
    from snoc.IH [OF c1(1) this] show ?thesis
    proof (elim disjE exE conjE)
      fix pre now resp ttl g post
      assume "ops = pre @ Insert now (fst x) (fst (snd x)) (snd (snd x)) resp ttl g # post"
        "v = (resp, expiry now ttl, g)" "\<forall>op \<in> set post. \<not> inserts x op"
      then have "ops @ [op] = pre @ Insert now (fst x) (fst (snd x)) (snd (snd x)) resp ttl g # (post @ [op])
         \<and> v = (resp, expiry now ttl, g) \<and> (\<forall>op \<in> set (post @ [op]). \<not> inserts x op)"
        using False by auto
      then show ?thesis by blast
    qed (use False in auto)
  qed
qed simp

lemma hit_has_source:
  assumes "invar c" "content c = Map.empty" "run ops c = Some c'"
    and "lookup now q t cl g c' = Some (Some e, c'')"
  shows "\<exists>pre t0 ttl post. ops = pre @ Insert t0 q t cl (ce_response e) ttl g # post \<and>
    now < expiry t0 ttl \<and> (\<forall>op \<in> set post. \<not> inserts (q, t, cl) op)"
proof -
  have "invar c'" using run_total [OF assms(1), of ops] assms(3) by auto
  note hit = lookup_hit [OF this assms(4)]
  then have "content c' (q, t, cl) = Some (content_of e)" by blast
  from run_content [OF assms(1,3) this] assms(2) obtain pre t0 resp ttl g' post where
    "ops = pre @ Insert t0 q t cl resp ttl g' # post" "content_of e = (resp, expiry t0 ttl, g')"
    "\<forall>op \<in> set post. \<not> inserts (q, t, cl) op"
    by auto
  with hit have "ops = pre @ Insert t0 q t cl (ce_response e) ttl g # post \<and>
      now < expiry t0 ttl \<and> (\<forall>op \<in> set post. \<not> inserts (q, t, cl) op)"
    by (simp add: content_of_def)
  then show ?thesis by blast
qed

end

definition cache_content :: "dns_cache \<Rightarrow> question_key \<Rightarrow> content option" where
  "cache_content c x = map_of (cache_view c) (make_key (fst x) (fst (snd x)) (snd (snd x)))"

definition cache_ok :: "dns_cache \<Rightarrow> bool" where
  "cache_ok c \<longleftrightarrow> cache_inv c \<and> 0 < max_entries c"

lemma map_of_delete_iff: "map_of (AList.delete k xs) k' = (if k' = k then None else map_of xs k')"
  by (simp add: AList.delete_conv')

lemma map_of_butlast: "map_of (butlast xs) k = Some v \<Longrightarrow> map_of xs k = Some v"
  by (induction xs) (auto split: if_splits)

lemma spec_lookup_content:
  "spec_lookup now k g xs = (r, ys) \<Longrightarrow> map_of ys \<subseteq>\<^sub>m map_of xs"
  by (auto simp: spec_lookup_def map_le_def map_of_delete_iff split: option.splits if_splits)

lemma spec_lookup_hit:
  "spec_lookup now k g xs = (Some v, ys) \<Longrightarrow> map_of xs k = Some v \<and> now < fst (snd v) \<and> snd (snd v) = g"
  by (auto simp: spec_lookup_def split: option.splits if_splits)

lemma spec_insert_content: "map_of (spec_insert cap k v xs) \<subseteq>\<^sub>m (map_of xs)(k \<mapsto> v)"
  by (rule map_leI) (auto simp: spec_insert_def map_of_delete_iff dest: map_of_butlast split: if_splits)

lemma cache_lookup_step:
  assumes "cache_inv c" "cache_lookup now q t cl g c = Some (r, c')"
  shows "cache_inv c'" "max_entries c' = max_entries c"
    "spec_lookup now (make_key q t cl) g (cache_view c) = (map_option content_of r, cache_view c')"
  using cache_lookup_refines_spec [OF assms(1), of now q t cl g] assms(2) by (metis option.inject prod.inject)+

lemma cache_insert_step:
  assumes "cache_ok c" "cache_insert now q t cl resp ttl g c = Some c'"
  shows "cache_ok c'" "max_entries c' = max_entries c"
    "cache_view c' = spec_insert (max_entries c) (make_key q t cl) (resp, expiry now ttl, g) (cache_view c)"
  using cache_insert_refines_spec [of c now q t cl resp ttl g] assms unfolding cache_ok_def
  by (metis option.inject)+

lemma cache_content_le:
  assumes "map_of (cache_view c') \<subseteq>\<^sub>m map_of (cache_view c)"
  shows "cache_content c' \<subseteq>\<^sub>m cache_content c"
  by (rule map_leI) (simp add: cache_content_def map_leD [OF assms])

interpretation dns_cache: answer_cache cache_ok cache_content cache_lookup cache_insert
proof unfold_locales
  fix c :: dns_cache and now q t cl g
  assume ok: "cache_ok c"
  then have inv: "cache_inv c" by (simp add: cache_ok_def)
  show "cache_lookup now q t cl g c \<noteq> None"
    using cache_lookup_refines_spec [OF inv, of now q t cl g] by (metis option.distinct(1))
  fix r c' assume *: "cache_lookup now q t cl g c = Some (r, c')"
  note st = cache_lookup_step [OF inv *]
  show "cache_ok c'" using st ok by (simp add: cache_ok_def)
  show "cache_content c' \<subseteq>\<^sub>m cache_content c" by (rule cache_content_le [OF spec_lookup_content [OF st(3)]])
next
  fix c :: dns_cache and now q t cl g e c'
  assume ok: "cache_ok c" and *: "cache_lookup now q t cl g c = Some (Some e, c')"
  then have inv: "cache_inv c" by (simp add: cache_ok_def)
  from spec_lookup_hit [OF cache_lookup_step(3) [OF inv *, simplified]]
  show "cache_content c (q, t, cl) = Some (content_of e) \<and> now < ce_expires_at e \<and> ce_policy_generation e = g"
    by (simp add: cache_content_def content_of_def)
next
  fix c :: dns_cache and now q t cl resp ttl g
  assume ok: "cache_ok c"
  show "cache_insert now q t cl resp ttl g c \<noteq> None"
    using cache_insert_refines_spec [of c now q t cl resp ttl g] ok unfolding cache_ok_def
    by (metis option.distinct(1))
  fix c' assume *: "cache_insert now q t cl resp ttl g c = Some c'"
  note st = cache_insert_step [OF ok *]
  show "cache_ok c'" by (rule st(1))
  show "cache_content c' \<subseteq>\<^sub>m (cache_content c)((q, t, cl) \<mapsto> (resp, expiry now ttl, g))"
  proof (rule map_leI)
    fix x v assume "cache_content c' x = Some v"
    then have "map_of (spec_insert (max_entries c) (make_key q t cl) (resp, expiry now ttl, g) (cache_view c))
        (make_key (fst x) (fst (snd x)) (snd (snd x))) = Some v"
      by (simp add: cache_content_def st(3))
    from map_leD [OF spec_insert_content this]
    show "((cache_content c)((q, t, cl) \<mapsto> (resp, expiry now ttl, g))) x = Some v"
      by (cases x) (auto simp: make_key_eq_iff cache_content_def split: if_splits)
  qed
qed

section \<open>Working sets\<close>

lemma map_of_take_Suc:
  assumes "map_of (take i xs) k = Some v"
  shows "map_of (take (Suc i) xs) k = Some v"
proof -
  have "take (Suc i) xs = take i xs @ take 1 (drop i xs)" by (metis Suc_eq_plus1 take_add)
  then show ?thesis using assms by (simp add: map_add_Some_iff)
qed

lemma map_of_take_filter:
  "map_of (take i xs) k = Some v \<Longrightarrow> k' \<noteq> k \<Longrightarrow>
   map_of (take i (filter (\<lambda>p. fst p \<noteq> k') xs)) k = Some v"
proof (induction xs arbitrary: i)
  case (Cons x xs)
  obtain j where i: "i = Suc j" using Cons.prems(1) by (cases i) auto
  show ?case
  proof (cases "fst x = k")
    case True
    then show ?thesis using Cons.prems i by simp
  next
    case False
    then have "map_of (take j (filter (\<lambda>p. fst p \<noteq> k') xs)) k = Some v"
      using Cons i by simp
    with map_of_take_Suc [OF this] show ?thesis using False i by simp
  qed
qed simp

lemma spec_lookup_recent:
  assumes "map_of (take i xs) k = Some v" "k' \<noteq> k" "spec_lookup now k' g xs = (r, ys)"
  shows "map_of (take (Suc i) ys) k = Some v"
proof -
  note d = map_of_take_filter [OF assms(1,2), folded delete_filter]
  have "\<exists>zs. (ys = zs \<or> (\<exists>w. ys = (k', w) # zs)) \<and> (zs = xs \<or> zs = AList.delete k' xs)"
    using assms(3) by (auto simp: spec_lookup_def split: option.splits if_splits)
  then obtain zs where zs: "ys = zs \<or> (\<exists>w. ys = (k', w) # zs)" "map_of (take i zs) k = Some v"
    using assms(1) d by blast
  then show ?thesis using map_of_take_Suc [OF zs(2)] assms(2) by auto
qed

lemma spec_insert_recent:
  assumes "map_of (take i xs) k = Some v" "k' \<noteq> k" "i < cap"
  shows "map_of (take (Suc i) (spec_insert cap k' w xs)) k = Some v"
proof -
  have "take i (butlast xs) = take i xs" if "cap \<le> length xs"
    using that assms(3) by (simp add: take_butlast)
  then show ?thesis
    using assms map_of_take_filter [OF assms(1,2), folded delete_filter] by (simp add: spec_insert_def)
qed

lemma run_recent:
  assumes "cache_ok c" "map_of (take i (cache_view c)) (make_key q t cl) = Some v"
    and "\<forall>op \<in> set ops. op_key op \<noteq> (q, t, cl)" "i + length ops \<le> max_entries c"
    and "run_ops cache_lookup cache_insert ops c = Some c'"
  shows "map_of (cache_view c') (make_key q t cl) = Some v"
  using assms
proof (induction ops arbitrary: c i)
  case Nil
  have "map_of (take i xs) k = Some v \<Longrightarrow> map_of xs k = Some v" for xs :: "(string \<times> content) list" and k
    by (metis append_take_drop_id map_add_Some_iff map_of_append)
  with Nil show ?case by simp
next
  case (Cons op ops)
  obtain c1 where c1: "run_op cache_lookup cache_insert op c = Some c1"
      "run_ops cache_lookup cache_insert ops c1 = Some c'"
    using Cons.prems(5) by (auto simp: bind_eq_Some_conv)
  have ok1: "cache_ok c1" using dns_cache.step_total [OF Cons.prems(1), of op] c1(1) by auto
  have "map_of (take (Suc i) (cache_view c1)) (make_key q t cl) = Some v \<and> max_entries c1 = max_entries c"
  proof (cases op)
    case (Lookup now q' t' cl' g)
    then obtain r where st: "cache_lookup now q' t' cl' g c = Some (r, c1)" using c1(1) by auto
    have "make_key q' t' cl' \<noteq> make_key q t cl" using Cons.prems(3) Lookup by (simp add: make_key_eq_iff)
    note spec_lookup_recent [OF Cons.prems(2) this]
    then show ?thesis using cache_lookup_step [OF _ st] Cons.prems(1) by (auto simp: cache_ok_def)
  next
    case (Insert now q' t' cl' resp ttl g)
    then have st: "cache_insert now q' t' cl' resp ttl g c = Some c1" using c1(1) by simp
    have "make_key q' t' cl' \<noteq> make_key q t cl" using Cons.prems(3) Insert by (simp add: make_key_eq_iff)
    note spec_insert_recent [OF Cons.prems(2) this, of "max_entries c"]
    then show ?thesis using cache_insert_step [OF Cons.prems(1) st] Cons.prems(4) by simp
  qed
  then show ?case using Cons.IH [OF ok1, of "Suc i"] Cons.prems c1(2) by simp
qed

lemma new_cache_ok: "0 < n \<Longrightarrow> cache_ok (new_cache n)"
  by (simp add: cache_ok_def new_cache_inv) (simp add: new_cache_def)

lemma new_cache_content [simp]: "cache_content (new_cache n) = Map.empty"
  by (auto simp: cache_content_def cache_view_def new_cache_def)

lemma run_max_entries:
  "cache_ok c \<Longrightarrow> run_ops cache_lookup cache_insert ops c = Some c' \<Longrightarrow> max_entries c' = max_entries c"
proof (induction ops arbitrary: c)
  case (Cons op ops)
  then obtain c1 where c1: "run_op cache_lookup cache_insert op c = Some c1"
      "run_ops cache_lookup cache_insert ops c1 = Some c'"
    by (auto simp: bind_eq_Some_conv)
  have "cache_ok c1" using dns_cache.step_total [OF Cons.prems(1), of op] c1(1) by auto
  moreover have "max_entries c1 = max_entries c"
    using c1(1) Cons.prems(1) cache_lookup_step(2) cache_insert_step(2)
    by (cases op) (auto simp: cache_ok_def)
  ultimately show ?case using Cons.IH c1(2) by simp
qed simp

lemma lookup_present:
  assumes "cache_inv c" "map_of (cache_view c) (make_key q t cl) = Some (r, x, g)"
  shows "\<exists>e c'. cache_lookup now q t cl g' c = Some ((if now < x \<and> g = g' then Some e else None), c')
    \<and> content_of e = (r, x, g)"
proof -
  obtain res c' where l: "cache_lookup now q t cl g' c = Some (res, c')"
      "spec_lookup now (make_key q t cl) g' (cache_view c) = (map_option content_of res, cache_view c')"
    using cache_lookup_refines_spec [OF assms(1), of now q t cl g'] by metis
  have "content_of \<lparr>ce_response = r, ce_expires_at = x, ce_policy_generation = g, ce_lru_it = 0\<rparr> = (r, x, g)"
    by (simp add: content_of_def)
  then show ?thesis
    using l assms(2) by (cases res) (auto simp: spec_lookup_def split: if_splits)
qed

section \<open>Properties\<close>

lemma case_hit:
  "case x of Some c \<Rightarrow> (case f c of Some (Some e, c') \<Rightarrow> True | _ \<Rightarrow> False) | None \<Rightarrow> False \<Longrightarrow>
   \<exists>c e c'. x = Some c \<and> f c = Some (Some e, c')"
  by (auto split: option.splits)

definition sample_ops :: "cache_op list" where
  "sample_ops =
    [Insert 0 ''a.test'' 1 1 [1, 2, 3] 60 7, Lookup 5 ''a.test'' 1 1 7, Insert 9 ''b.test'' 1 1 [4, 5, 6] 60 7]"

text \<open>
  Further fact (memory safety and capacity).  From an empty cache of positive capacity, any sequence
  of lookups and insertions, at any times, with any generations and time-to-live values, runs to the
  end: no iterator stored in the table is ever dangling and \<open>back\<close> and \<open>pop_back\<close> are never called
  on an empty list.  At the end the table and the recency list still hold the same keys, one node
  each, and the number of entries is at most the capacity.
\<close>

theorem cache_safe_and_bounded:
  assumes "0 < n"
  shows "\<exists>c. run_ops cache_lookup cache_insert ops (new_cache n) = Some c \<and> cache_inv c
    \<and> cache_size c \<le> n \<and> set (map snd (lru_order c)) = set (map fst (cache_table c))"
proof -
  note ok = new_cache_ok [OF assms]
  obtain c where c: "run_ops cache_lookup cache_insert ops (new_cache n) = Some c" "cache_ok c"
    using dns_cache.run_total [OF ok, of ops] by blast
  moreover have "max_entries c = n" using run_max_entries [OF ok c(1)] by (simp add: new_cache_def)
  ultimately show ?thesis
    using cache_invD(7) [of c] cache_inv_keys [of c] by (auto simp: cache_ok_def cache_size_def)
qed

theorem cache_safe_and_bounded_witness:
  "\<exists>c. run_ops cache_lookup cache_insert sample_ops (new_cache 1) = Some c \<and> cache_inv c
    \<and> cache_size c \<le> 1 \<and> set (map snd (lru_order c)) = set (map fst (cache_table c))"
  by (rule cache_safe_and_bounded) simp

text \<open>
  Property C16 (refinement).  On a well-formed cache, \<open>lookup\<close> and \<open>insert\<close> with their hash table,
  linked list and stored iterators compute exactly what the abstract cache computes on one list in
  order of use: a lookup of a live entry of the current generation returns it and moves it to the
  front; an expired entry or one of another generation is removed and reported as a miss; an
  insertion replaces and promotes an existing key, and otherwise evicts the least recently used entry
  when the cache is full.
\<close>

theorem cache_refines_lru_list:
  assumes "cache_inv c" "0 < max_entries c"
  shows "(\<exists>e c'. cache_lookup now q t cl g c = Some (e, c') \<and> cache_inv c' \<and>
      spec_lookup now (make_key q t cl) g (cache_view c) = (map_option content_of e, cache_view c')) \<and>
    (\<exists>c'. cache_insert now q t cl r ttl g c = Some c' \<and> cache_inv c' \<and>
      cache_view c' = spec_insert (max_entries c) (make_key q t cl) (r, expiry now ttl, g) (cache_view c))"
  using cache_lookup_refines_spec [OF assms(1), of now q t cl g]
    cache_insert_refines_spec [OF assms, of now q t cl r ttl g] by metis

theorem cache_refines_lru_list_witness:
  "\<exists>e c'. cache_lookup 5 ''a.test'' 1 1 7 (new_cache 2) = Some (e, c') \<and> cache_inv c' \<and>
      spec_lookup 5 (make_key ''a.test'' 1 1) 7 (cache_view (new_cache 2)) = (map_option content_of e, cache_view c')"
  by (rule cache_refines_lru_list [THEN conjunct1]) (rule new_cache_inv, simp add: new_cache_def)

text \<open>
  Property C17 (origin of a cached answer).  When a lookup hits after any sequence of operations on a
  new cache, the answer is the argument of the last insertion for that very name, type and class (the
  textual key never confuses two questions), made under the generation the lookup asks for, and the
  insertion has not expired.
\<close>

theorem cache_hit_has_source:
  assumes "0 < n" "run_ops cache_lookup cache_insert ops (new_cache n) = Some c"
    and "cache_lookup now q t cl g c = Some (Some e, c')"
  shows "\<exists>pre t0 ttl post. ops = pre @ Insert t0 q t cl (ce_response e) ttl g # post \<and>
    now < t0 + max 1 (min (uint ttl) 86400) * 10 ^ 9 \<and> (\<forall>op \<in> set post. \<not> inserts (q, t, cl) op)"
proof -
  have "uint (clamp_ttl ttl) = max 1 (min (uint ttl) 86400)" for ttl
    by (simp add: clamp_ttl_def max_def min_def word_le_def)
  then show ?thesis
    using dns_cache.hit_has_source [OF new_cache_ok [OF assms(1)] new_cache_content assms(2,3)]
    by (simp add: expiry_def)
qed

theorem cache_hit_has_source_witness:
  "\<exists>c e c'. run_ops cache_lookup cache_insert sample_ops (new_cache 2) = Some c \<and>
     cache_lookup 10 ''a.test'' 1 1 7 c = Some (Some e, c') \<and>
     (\<exists>pre t0 ttl post. sample_ops = pre @ Insert t0 ''a.test'' 1 1 (ce_response e) ttl 7 # post \<and>
       10 < t0 + max 1 (min (uint ttl) 86400) * 10 ^ 9 \<and> (\<forall>op \<in> set post. \<not> inserts (''a.test'', 1, 1) op))"
proof -
  have "case run_ops cache_lookup cache_insert sample_ops (new_cache 2) of
      Some c \<Rightarrow> (case cache_lookup 10 ''a.test'' 1 1 7 c of Some (Some e, c') \<Rightarrow> True | _ \<Rightarrow> False) | None \<Rightarrow> False"
    by code_simp
  from case_hit [OF this] obtain c e c' where
    "run_ops cache_lookup cache_insert sample_ops (new_cache 2) = Some c"
    "cache_lookup 10 ''a.test'' 1 1 7 c = Some (Some e, c')"
    by blast
  moreover from this have "\<exists>pre t0 ttl post. sample_ops = pre @ Insert t0 ''a.test'' 1 1 (ce_response e) ttl 7 # post \<and>
       10 < t0 + max 1 (min (uint ttl) 86400) * 10 ^ 9 \<and> (\<forall>op \<in> set post. \<not> inserts (''a.test'', 1, 1) op)"
    by (rule cache_hit_has_source [of 2, rotated 1]) simp
  ultimately show ?thesis by blast
qed

text \<open>
  Property C18 (retention).  An inserted answer survives any sequence of fewer operations on other
  questions than the cache has entries, whatever they insert, expire or promote: a later lookup hits
  and returns it if it asks for the generation of the insertion before the time-to-live has passed, and
  misses otherwise.
\<close>

theorem cache_retains_working_set:
  assumes "cache_inv c" "0 < max_entries c" "cache_insert t0 q t cl r ttl g c = Some c1"
    and "\<forall>op \<in> set ops. op_key op \<noteq> (q, t, cl)" "length ops < max_entries c"
  shows "\<exists>c2 e c3. run_ops cache_lookup cache_insert ops c1 = Some c2 \<and>
    cache_lookup now q t cl g' c2 = Some ((if now < expiry t0 ttl \<and> g = g' then Some e else None), c3) \<and>
    ce_response e = r"
proof -
  have ok: "cache_ok c" using assms(1,2) by (simp add: cache_ok_def)
  note ins = cache_insert_step [OF ok assms(3)]
  obtain c2 where c2: "run_ops cache_lookup cache_insert ops c1 = Some c2" "cache_ok c2"
    using dns_cache.run_total [OF ins(1), of ops] by blast
  have "map_of (take 1 (cache_view c1)) (make_key q t cl) = Some (r, expiry t0 ttl, g)"
    by (simp add: ins(3) spec_insert_def)
  from run_recent [OF ins(1) this assms(4) _ c2(1)] assms(5) ins(2)
  have "map_of (cache_view c2) (make_key q t cl) = Some (r, expiry t0 ttl, g)" by simp
  from lookup_present [OF _ this] c2 show ?thesis by (fastforce simp: cache_ok_def content_of_def)
qed

theorem cache_retains_working_set_witness:
  "\<exists>c1 c2 e c3. cache_insert 0 ''a.test'' 1 1 [1, 2, 3] 60 7 (new_cache 2) = Some c1 \<and>
    run_ops cache_lookup cache_insert [Insert 9 ''b.test'' 1 1 [4, 5, 6] 60 7] c1 = Some c2 \<and>
    cache_lookup 10 ''a.test'' 1 1 7 c2 =
      Some ((if 10 < expiry 0 60 \<and> (7 :: u64) = 7 then Some e else None), c3) \<and> ce_response e = [1, 2, 3]"
proof -
  obtain c1 where "cache_insert 0 ''a.test'' 1 1 [1, 2, 3] 60 7 (new_cache 2) = Some c1"
    using dns_cache.insert_total [OF new_cache_ok, of 2] by fastforce
  with cache_retains_working_set [OF new_cache_inv _ this, of "[Insert 9 ''b.test'' 1 1 [4, 5, 6] 60 7]" 10 7]
  show ?thesis by (simp add: new_cache_def)
qed

text \<open>
  Further fact (a capacity of zero).  The constructor accepts any capacity, but with capacity 0 the
  first insertion reads \<open>back\<close> of the empty recency list: undefined behaviour.  The data plane itself
  uses 10000.
\<close>

theorem zero_capacity_insert_undefined:
  "cache_insert now q t cl r ttl g (new_cache 0) = None"
  by (simp add: cache_insert_def new_cache_def evict_oldest_def list_back_def Let_def)

end
