(* ===== verification/Forwarder.thy ===== *)
theory Forwarder
  imports Parser "HOL-Library.Multiset"
begin

text \<open>
  The upstream forwarder (\<open>include/dns/forwarder.h\<close>, \<open>src/dns/forwarder.cpp\<close>).

  \<open>pending_tx_\<close>, an \<open>std::unordered_map\<close>, is an association list with distinct keys.  What the
  operating system and the random generator answer are arguments: \<open>draws n\<close> is the \<open>n\<close>-th value of
  \<open>dis(gen)\<close>, \<open>fw_drawn\<close> counts the values drawn so far, \<open>now\<close> is the steady clock in nanoseconds and
  \<open>sent\<close> tells whether \<open>sendto\<close> succeeds.  \<open>forward_query\<close> is \<open>None\<close> when it writes outside the
  packet or never leaves the loop that draws a transaction id; the theorems show when neither happens.
  A datagram is its destination with its bytes.
\<close>

section \<open>State\<close>

record sockaddr_in =
  sin_addr :: u32
  sin_port :: u16

record pending_transaction =
  client_txid :: u16
  client_addr :: sockaddr_in
  expected_qname :: string
  expected_qtype :: q_type
  timestamp :: int

record forwarder =
  upstream_ip :: string
  upstream_port :: u16
  socket_fd :: int
  upstream_addr :: sockaddr_in
  pending_tx :: "(u16 \<times> pending_transaction) list"
  fw_drawn :: nat

type_synonym datagram = "sockaddr_in \<times> bytes"

definition htons :: "u16 \<Rightarrow> u16" where
  "htons x = be16 (lo8 x) (hi8 x)"

definition new_forwarder :: "string \<Rightarrow> u16 \<Rightarrow> forwarder" where
  "new_forwarder ip port =
     \<lparr>upstream_ip = ip, upstream_port = port, socket_fd = -1,
      upstream_addr = \<lparr>sin_addr = 0, sin_port = 0\<rparr>, pending_tx = [], fw_drawn = 0\<rparr>"

text \<open>
  \<open>init\<close>: \<open>fd\<close> is what \<open>socket\<close> returns, \<open>nonblocking\<close> whether both calls of \<open>fcntl\<close> succeed, and
  \<open>pton\<close> is \<open>inet_pton\<close>, \<open>None\<close> for text that is no address.
\<close>

definition forwarder_init :: "int \<Rightarrow> bool \<Rightarrow> (string \<Rightarrow> u32 option) \<Rightarrow> forwarder \<Rightarrow> bool \<times> forwarder" where
  "forwarder_init fd nonblocking pton f =
     (let f = f\<lparr>socket_fd := fd\<rparr> in
      if fd < 0 then (False, f)
      else if \<not> nonblocking then (False, f\<lparr>socket_fd := -1\<rparr>)
      else let f = f\<lparr>upstream_addr := \<lparr>sin_addr = 0, sin_port = htons (upstream_port f)\<rparr>\<rparr> in
        case pton (upstream_ip f) of
          None \<Rightarrow> (False, f\<lparr>socket_fd := -1\<rparr>)
        | Some a \<Rightarrow> (True, f\<lparr>upstream_addr := (upstream_addr f)\<lparr>sin_addr := a\<rparr>\<rparr>))"

section \<open>Operations\<close>

partial_function (option) txid_loop ::
    "(nat \<Rightarrow> u16) \<Rightarrow> (u16 \<times> pending_transaction) list \<Rightarrow> u16 \<Rightarrow> nat \<Rightarrow> (u16 \<times> nat) option" where
  [code]: "txid_loop draws pending txid n =
     (if txid = 0 \<or> map_of pending txid \<noteq> None then txid_loop draws pending (draws n) (Suc n)
      else Some (txid, n))"

definition generate_unique_txid :: "(nat \<Rightarrow> u16) \<Rightarrow> forwarder \<Rightarrow> (u16 \<times> forwarder) option" where
  "generate_unique_txid draws f =
     map_option (\<lambda>(txid, n). (txid, f\<lparr>fw_drawn := n\<rparr>)) (txid_loop draws (pending_tx f) 0 (fw_drawn f))"

text \<open>
  \<open>duration_cast<milliseconds>\<close> rounds towards zero and \<open>div\<close> down; the two agree on whether the
  quotient exceeds 2000.
\<close>

definition expired :: "int \<Rightarrow> pending_transaction \<Rightarrow> bool" where
  "expired now tx \<longleftrightarrow> (now - timestamp tx) div 1000000 > 2000"

definition prune :: "int \<Rightarrow> forwarder \<Rightarrow> forwarder" where
  "prune now f = f\<lparr>pending_tx := filter (\<lambda>p. \<not> expired now (snd p)) (pending_tx f)\<rparr>"

definition transaction_for :: "int \<Rightarrow> parsed_packet \<Rightarrow> sockaddr_in \<Rightarrow> pending_transaction" where
  "transaction_for now packet addr =
     \<lparr>client_txid = wh_id (pp_header packet), client_addr = addr,
      expected_qname = qname (question packet), expected_qtype = qtype (question packet),
      timestamp = now\<rparr>"

definition forward_query ::
    "(nat \<Rightarrow> u16) \<Rightarrow> int \<Rightarrow> bool \<Rightarrow> parsed_packet \<Rightarrow> sockaddr_in \<Rightarrow> forwarder \<Rightarrow>
     (u16 result \<times> datagram list \<times> forwarder) option" where
  "forward_query draws now sent packet addr f =
     (if socket_fd f < 0 then Some (Err UPSTREAM_ERROR, [], f)
      else
        let f = prune now f in
        if length (pending_tx f) \<ge> 2048 then Some (Err BUFFER_OVERFLOW, [], f)
        else do {
          (upstream_txid, f) \<leftarrow> generate_unique_txid draws f;
          let f = f\<lparr>pending_tx := AList.update upstream_txid (transaction_for now packet addr) (pending_tx f)\<rparr>;
          forward_buf \<leftarrow> wr (raw_packet packet) 0 (hi8 upstream_txid);
          forward_buf \<leftarrow> wr forward_buf 1 (lo8 upstream_txid);
          if \<not> sent then
            Some (Err UPSTREAM_ERROR, [], f\<lparr>pending_tx := AList.delete upstream_txid (pending_tx f)\<rparr>)
          else Some (Ok upstream_txid, [(upstream_addr f, forward_buf)], f)
        })"

definition validate_response ::
    "bytes \<Rightarrow> sockaddr_in \<Rightarrow> forwarder \<Rightarrow> (pending_transaction result \<times> forwarder) option" where
  "validate_response response_buffer from_addr f =
     (if length response_buffer < kDnsHeaderSize then Some (Err PACKET_TOO_SHORT, f)
      else if sin_addr from_addr \<noteq> sin_addr (upstream_addr f) \<or> sin_port from_addr \<noteq> sin_port (upstream_addr f)
      then Some (Err UNEXPECTED_RESPONSE, f)
      else do {
        hdr \<leftarrow> wire_header_parse response_buffer;
        if \<not> is_response hdr then Some (Err UNEXPECTED_RESPONSE, f)
        else case map_of (pending_tx f) (wh_id hdr) of
          None \<Rightarrow> Some (Err UNEXPECTED_RESPONSE, f)
        | Some matched_tx \<Rightarrow> do {
            let f = f\<lparr>pending_tx := AList.delete (wh_id hdr) (pending_tx f)\<rparr>;
            parsed_resp \<leftarrow> parse response_buffer;
            case parsed_resp of
              Err e \<Rightarrow> Some (Err e, f)
            | Ok p \<Rightarrow>
                if qname (question p) \<noteq> expected_qname matched_tx \<or> qtype (question p) \<noteq> expected_qtype matched_tx
                then Some (Err UNEXPECTED_RESPONSE, f)
                else Some (Ok matched_tx, f)
          }
      })"

section \<open>Drawing a transaction id\<close>

lemma txid_loop_sound_pair:
  assumes "txid_loop draws pending t n = Some r"
  shows "fst r \<noteq> 0 \<and> map_of pending (fst r) = None \<and> n \<le> snd r"
proof (rule txid_loop.raw_induct [OF _ assms, where P = "\<lambda>draws pending t n r. fst r \<noteq> 0 \<and> map_of pending (fst r) = None \<and> n \<le> snd r"])
  fix rec :: "(nat \<Rightarrow> u16) \<Rightarrow> (u16 \<times> pending_transaction) list \<Rightarrow> u16 \<Rightarrow> nat \<Rightarrow> (u16 \<times> nat) option"
    and draws pending txid n y
  assume IH: "\<And>draws pending txid n y. rec draws pending txid n = Some y \<Longrightarrow>
      fst y \<noteq> 0 \<and> map_of pending (fst y) = None \<and> n \<le> snd y"
    and "(if txid = 0 \<or> map_of pending txid \<noteq> None then rec draws pending (draws n) (Suc n)
        else Some (txid, n)) = Some y"
  then show "fst y \<noteq> 0 \<and> map_of pending (fst y) = None \<and> n \<le> snd y"
    by (fastforce split: if_splits)
qed

lemma txid_loop_sound:
  "txid_loop draws pending t n = Some (t', n') \<Longrightarrow> t' \<noteq> 0 \<and> map_of pending t' = None \<and> n \<le> n'"
  using txid_loop_sound_pair by fastforce

lemma txid_loop_returns:
  assumes "n \<le> m" "draws m \<noteq> 0" "map_of pending (draws m) = None"
  shows "\<exists>r. txid_loop draws pending t n = Some r"
  using assms
proof (induction "m - n" arbitrary: n t)
  case 0
  then have "m = n" by simp
  then show ?case
    using 0 by (subst txid_loop.simps) (subst txid_loop.simps, simp)
next
  case (Suc d)
  then have "\<exists>r. txid_loop draws pending (draws n) (Suc n) = Some r" by simp
  then show ?case by (subst txid_loop.simps) simp
qed

text \<open>
  What the code relies on of the generator: each value of \<open>uniform_int_distribution(1, 65535)\<close> comes
  again, however many have been drawn.
\<close>

definition recurring :: "(nat \<Rightarrow> u16) \<Rightarrow> bool" where
  "recurring draws \<longleftrightarrow> (\<forall>t n. t \<noteq> 0 \<longrightarrow> (\<exists>m \<ge> n. draws m = t))"

lemma recurring_word_of_nat: "recurring word_of_nat"
  unfolding recurring_def
proof (intro allI impI)
  fix t :: u16 and n :: nat
  have "word_of_nat (unat t + 65536 * n) = t"
    using unsigned_less [of t, where ?'a = nat]
    by (simp add: word_unat_eq_iff unat_of_nat take_bit_eq_mod del: of_nat_add)
  then show "\<exists>m \<ge> n. word_of_nat m = t" by (intro exI [of _ "unat t + 65536 * n"]) simp
qed

lemma free_id_exists:
  assumes "length pending < 2048"
  shows "\<exists>t :: u16. t \<noteq> 0 \<and> map_of pending t = None"
proof (rule ccontr)
  assume "\<not> ?thesis"
  then have "(UNIV :: u16 set) \<subseteq> insert 0 (fst ` set pending)" by (auto simp: map_of_eq_None_iff)
  then have "card (UNIV :: u16 set) \<le> card (insert 0 (fst ` set pending))" by (intro card_mono) simp_all
  also have "\<dots> \<le> Suc (card (fst ` set pending))" by (rule card_insert_le_m1) simp_all
  also have "\<dots> \<le> Suc (length pending)" using card_image_le [of "set pending" fst] card_length [of pending] by simp
  finally show False using assms by (simp add: card_word)
qed

lemma generate_unique_txid_returns:
  assumes "recurring draws" "length (pending_tx f) < 2048"
  obtains t n where "generate_unique_txid draws f = Some (t, f\<lparr>fw_drawn := n\<rparr>)" "t \<noteq> 0"
    "map_of (pending_tx f) t = None"
proof -
  obtain t where t: "t \<noteq> 0" "map_of (pending_tx f) t = None" using free_id_exists [OF assms(2)] by blast
  then obtain m where "fw_drawn f \<le> m" "draws m = t" using assms(1) by (auto simp: recurring_def)
  then obtain r where "txid_loop draws (pending_tx f) 0 (fw_drawn f) = Some r"
    using txid_loop_returns [of "fw_drawn f" m draws "pending_tx f" 0] t by auto
  then show ?thesis
    using that txid_loop_sound [of draws "pending_tx f" 0 "fw_drawn f" "fst r" "snd r"]
    by (cases r) (simp add: generate_unique_txid_def)
qed

section \<open>The pending table\<close>

definition fw_inv :: "forwarder \<Rightarrow> bool" where
  "fw_inv f \<longleftrightarrow> distinct (map fst (pending_tx f)) \<and> length (pending_tx f) \<le> 2048 \<and>
     0 \<notin> fst ` set (pending_tx f)"

lemma new_forwarder_inv [inv_intros]: "fw_inv (new_forwarder ip port)"
  by (simp add: fw_inv_def new_forwarder_def)

lemma forwarder_init_inv: "fw_inv f \<Longrightarrow> fw_inv (snd (forwarder_init fd nb pton f))"
  by (simp add: fw_inv_def forwarder_init_def Let_def split: option.split)

lemma prune_inv [inv_intros]: "fw_inv f \<Longrightarrow> fw_inv (prune now f)"
  by (auto simp: fw_inv_def prune_def distinct_map_filter intro: le_trans [OF length_filter_le])

lemma prune_simps [simp]:
  "socket_fd (prune now f) = socket_fd f" "upstream_addr (prune now f) = upstream_addr f"
  "fw_drawn (prune now f) = fw_drawn f"
  "pending_tx (prune now f) = filter (\<lambda>p. \<not> expired now (snd p)) (pending_tx f)"
  by (simp_all add: prune_def)

lemma update_new: "map_of xs k = None \<Longrightarrow> AList.update k v xs = xs @ [(k, v)]"
  by (induction xs) (auto split: if_splits)

lemma delete_snoc: "map_of xs k = None \<Longrightarrow> AList.delete k (xs @ [(k, v)]) = xs"
  by (induction xs) (auto split: if_splits)

lemma mset_delete:
  "distinct (map fst xs) \<Longrightarrow> map_of xs k = Some v \<Longrightarrow>
   mset xs = add_mset (k, v) (mset (AList.delete k xs))"
  by (induction xs) (auto simp: map_of_eq_None_iff split: if_splits)

text \<open>The forwarder after a query was sent under the id \<open>t\<close>, and after a response consumed \<open>t\<close>.\<close>

definition recorded :: "u16 \<Rightarrow> nat \<Rightarrow> int \<Rightarrow> parsed_packet \<Rightarrow> sockaddr_in \<Rightarrow> forwarder \<Rightarrow> forwarder" where
  "recorded t n now packet addr f =
     (prune now f)\<lparr>fw_drawn := n,
        pending_tx := pending_tx (prune now f) @ [(t, transaction_for now packet addr)]\<rparr>"

definition consumed :: "u16 \<Rightarrow> forwarder \<Rightarrow> forwarder" where
  "consumed t f = f\<lparr>pending_tx := AList.delete t (pending_tx f)\<rparr>"

lemma forward_query_eq:
  assumes gen: "generate_unique_txid draws (prune now f) = Some (t, (prune now f)\<lparr>fw_drawn := n\<rparr>)"
    and fresh: "map_of (pending_tx (prune now f)) t = None"
    and raw: "raw_packet packet = b0 # b1 # rest"
    and "0 \<le> socket_fd f" "length (pending_tx (prune now f)) < 2048"
  shows "forward_query draws now sent packet addr f =
     Some (if sent then (Ok t, [(upstream_addr f, hi8 t # lo8 t # rest)], recorded t n now packet addr f)
           else (Err UPSTREAM_ERROR, [], (prune now f)\<lparr>fw_drawn := n\<rparr>))"
  using assms
  by (simp add: forward_query_def wr_def Let_def update_new delete_snoc recorded_def del: prune_simps(4))

lemma recorded_simps [simp]:
  "socket_fd (recorded t n now packet addr f) = socket_fd f"
  "upstream_addr (recorded t n now packet addr f) = upstream_addr f"
  "pending_tx (recorded t n now packet addr f) =
     pending_tx (prune now f) @ [(t, transaction_for now packet addr)]"
  by (simp_all add: recorded_def)

lemma recorded_inv:
  assumes "fw_inv f" "t \<noteq> 0" "map_of (pending_tx (prune now f)) t = None"
    and "length (pending_tx (prune now f)) < 2048"
  shows "fw_inv (recorded t n now packet addr f)"
  using prune_inv [OF assms(1), of now] assms(2-4)
  unfolding fw_inv_def recorded_simps by (simp add: map_of_eq_None_iff del: prune_simps)

lemma prune_mset: "mset (pending_tx (prune now f)) \<subseteq># mset (pending_tx f)"
  by (simp add: multiset_filter_subset)

lemma forward_query_result:
  assumes inv: "fw_inv f" and run: "forward_query draws now sent packet addr f = Some (r, out, f')"
  shows "fw_inv f'" "upstream_addr f' = upstream_addr f" "socket_fd f' = socket_fd f"
    "\<And>t. r = Ok t \<Longrightarrow> t \<noteq> 0 \<and> map_of (pending_tx (prune now f)) t = None \<and>
       pending_tx f' = pending_tx (prune now f) @ [(t, transaction_for now packet addr)] \<and>
       out = [(upstream_addr f, (raw_packet packet)[0 := hi8 t, 1 := lo8 t])]"
    "\<And>e. r = Err e \<Longrightarrow> out = [] \<and> mset (pending_tx f') \<subseteq># mset (pending_tx f)"
proof -
  have "fw_inv f' \<and> upstream_addr f' = upstream_addr f \<and> socket_fd f' = socket_fd f \<and>
    (\<forall>t. r = Ok t \<longrightarrow> t \<noteq> 0 \<and> map_of (pending_tx (prune now f)) t = None \<and>
       pending_tx f' = pending_tx (prune now f) @ [(t, transaction_for now packet addr)] \<and>
       out = [(upstream_addr f, (raw_packet packet)[0 := hi8 t, 1 := lo8 t])]) \<and>
    (\<forall>e. r = Err e \<longrightarrow> out = [] \<and> mset (pending_tx f') \<subseteq># mset (pending_tx f))"
  proof (cases "socket_fd f < 0 \<or> 2048 \<le> length (pending_tx (prune now f))")
    case True
    then consider "r = Err UPSTREAM_ERROR" "out = []" "f' = f" | "r = Err BUFFER_OVERFLOW" "out = []" "f' = prune now f"
      using run by (auto simp: forward_query_def Let_def split: if_splits)
    then show ?thesis using inv prune_inv [OF inv] prune_mset by cases (simp_all del: prune_simps(4))
  next
    case False
    obtain t fg where g: "generate_unique_txid draws (prune now f) = Some (t, fg)"
      using run False by (auto simp: forward_query_def Let_def bind_eq_Some_conv)
    then obtain n where fg: "fg = (prune now f)\<lparr>fw_drawn := n\<rparr>"
        and n: "txid_loop draws (pending_tx (prune now f)) 0 (fw_drawn (prune now f)) = Some (t, n)"
      by (auto simp: generate_unique_txid_def simp del: prune_simps)
    from txid_loop_sound [OF n] have t: "t \<noteq> 0" "map_of (pending_tx (prune now f)) t = None" by blast+
    obtain b0 b1 rest where raw: "raw_packet packet = b0 # b1 # rest"
      using run False g by (auto simp: forward_query_def Let_def wr_def neq_Nil_conv bind_eq_Some_conv
          Suc_less_eq2 length_Suc_conv split: if_splits)
    note eq = forward_query_eq [OF g [unfolded fg] t(2) raw, of sent addr]
    have inv': "fw_inv (recorded t n now packet addr f)"
      using recorded_inv [OF inv t] False by simp
    have pinv: "fw_inv ((prune now f)\<lparr>fw_drawn := n\<rparr>)" using prune_inv [OF inv, of now] by (simp add: fw_inv_def)
    show ?thesis
      using run eq False t inv' pinv raw prune_mset [of now f] by (cases sent) (auto simp del: prune_simps(4))
  qed
  then show "fw_inv f'" "upstream_addr f' = upstream_addr f" "socket_fd f' = socket_fd f"
    "\<And>t. r = Ok t \<Longrightarrow> t \<noteq> 0 \<and> map_of (pending_tx (prune now f)) t = None \<and>
       pending_tx f' = pending_tx (prune now f) @ [(t, transaction_for now packet addr)] \<and>
       out = [(upstream_addr f, (raw_packet packet)[0 := hi8 t, 1 := lo8 t])]"
    "\<And>e. r = Err e \<Longrightarrow> out = [] \<and> mset (pending_tx f') \<subseteq># mset (pending_tx f)"
    by blast+
qed

section \<open>Validation\<close>

definition answers :: "pending_transaction \<Rightarrow> parsed_packet \<Rightarrow> bool" where
  "answers tx p \<longleftrightarrow> qname (question p) = expected_qname tx \<and> qtype (question p) = expected_qtype tx"

definition admissible :: "bytes \<Rightarrow> sockaddr_in \<Rightarrow> forwarder \<Rightarrow> wire_header \<Rightarrow> pending_transaction \<Rightarrow> bool" where
  "admissible buf from f h tx \<longleftrightarrow> 12 \<le> length buf \<and> from = upstream_addr f \<and>
     wire_header_parse buf = Some h \<and> is_response h \<and> map_of (pending_tx f) (wh_id h) = Some tx"

lemma sockaddr_eq_iff: "a = b \<longleftrightarrow> sin_addr a = sin_addr b \<and> sin_port a = sin_port (b :: sockaddr_in)"
  by (cases a; cases b) simp

lemma consumed_inv: "fw_inv f \<Longrightarrow> fw_inv (consumed t f)"
  using AList.length_delete_le [of t "pending_tx f"] AList.dom_delete_subset [of t "pending_tx f"]
  by (auto simp: fw_inv_def consumed_def AList.distinct_delete)

lemma validate_response_cases:
  obtains (dropped) e where "\<And>h tx. \<not> admissible buf from f h tx" "validate_response buf from f = Some (Err e, f)"
  | (admitted) h tx r where "admissible buf from f h tx" "parse buf = Some r"
      "validate_response buf from f =
        Some (case r of Err e \<Rightarrow> Err e | Ok p \<Rightarrow> if answers tx p then Ok tx else Err UNEXPECTED_RESPONSE,
          consumed (wh_id h) f)"
proof (cases "12 \<le> length buf \<and> from = upstream_addr f")
  case False
  show thesis
  proof (cases "length buf < 12")
    case True
    then show thesis by (intro dropped [of PACKET_TOO_SHORT]) (simp_all add: admissible_def validate_response_def)
  next
    case short: False
    with False have "sin_addr from \<noteq> sin_addr (upstream_addr f) \<or> sin_port from \<noteq> sin_port (upstream_addr f)"
      by (simp add: sockaddr_eq_iff)
    then show thesis using short False
      by (intro dropped [of UNEXPECTED_RESPONSE]) (auto simp: admissible_def validate_response_def)
  qed
next
  case True
  obtain h where h: "wire_header_parse buf = Some h" using True wire_header_parse_Some_iff by blast
  show thesis
  proof (cases "is_response h \<and> map_of (pending_tx f) (wh_id h) \<noteq> None")
    case False
    then show thesis using True h
      by (intro dropped [of UNEXPECTED_RESPONSE]) (auto simp: admissible_def validate_response_def)
  next
    case match: True
    then obtain tx where tx: "map_of (pending_tx f) (wh_id h) = Some tx" by auto
    obtain r where r: "parse buf = Some r" using parse_not_None [of buf] by auto
    show thesis
      by (rule admitted [of h tx r])
        (use True h match tx r in \<open>auto simp: admissible_def validate_response_def consumed_def answers_def Let_def
           split: result.split\<close>)
  qed
qed

lemma validate_response_total:
  assumes "fw_inv f"
  obtains r f' where "validate_response buf from f = Some (r, f')" "fw_inv f'"
  by (cases rule: validate_response_cases [of buf "from" f]) (use assms consumed_inv in \<open>auto intro: that\<close>)

lemma validate_response_Ok_iff:
  "validate_response buf from f = Some (Ok tx, f') \<longleftrightarrow>
     (\<exists>h p. admissible buf from f h tx \<and> parse buf = Some (Ok p) \<and> answers tx p \<and> f' = consumed (wh_id h) f)"
proof (cases rule: validate_response_cases [of buf "from" f])
  case (dropped e)
  then show ?thesis by simp
next
  case (admitted h tx' r)
  have unique: "h' = h \<and> tx'' = tx'" if "admissible buf from f h' tx''" for h' tx''
    using admitted(1) that by (auto simp: admissible_def)
  show ?thesis
  proof (cases r)
    case (Err e)
    then show ?thesis using admitted by simp
  next
    case (Ok p)
    then have "validate_response buf from f = Some (Ok tx, f') \<longleftrightarrow>
        answers tx' p \<and> tx = tx' \<and> f' = consumed (wh_id h) f"
      using admitted(3) by auto
    also have "\<dots> \<longleftrightarrow> (\<exists>h p. admissible buf from f h tx \<and> parse buf = Some (Ok p) \<and> answers tx p \<and>
        f' = consumed (wh_id h) f)"
      using admitted(1,2) Ok unique by (metis option.inject result.inject(1))
    finally show ?thesis .
  qed
qed

section \<open>The contract: each accepted response pays for one query\<close>

datatype fw_event =
    Forward int bool parsed_packet sockaddr_in
  | Receive bytes sockaddr_in

text \<open>
  A run of the forwarder: the transactions of the queries it sent, the transactions of the responses it
  accepted, and its last state.
\<close>

fun fw_run ::
    "(int \<Rightarrow> bool \<Rightarrow> parsed_packet \<Rightarrow> sockaddr_in \<Rightarrow> 'f \<Rightarrow> (u16 result \<times> datagram list \<times> 'f) option) \<Rightarrow>
     (bytes \<Rightarrow> sockaddr_in \<Rightarrow> 'f \<Rightarrow> (pending_transaction result \<times> 'f) option) \<Rightarrow>
     fw_event list \<Rightarrow> 'f \<Rightarrow> (pending_transaction list \<times> pending_transaction list \<times> 'f) option" where
  "fw_run fwd val [] f = Some ([], [], f)"
| "fw_run fwd val (Forward now sent packet addr # es) f =
     do { (r, out, f) \<leftarrow> fwd now sent packet addr f;
          (s, a, f) \<leftarrow> fw_run fwd val es f;
          Some (if is_ok r then transaction_for now packet addr # s else s, a, f) }"
| "fw_run fwd val (Receive buf addr # es) f =
     do { (r, f) \<leftarrow> val buf addr f;
          (s, a, f) \<leftarrow> fw_run fwd val es f;
          Some (s, case r of Ok tx \<Rightarrow> tx # a | Err _ \<Rightarrow> a, f) }"

locale query_matcher =
  fixes invar :: "'f \<Rightarrow> bool"
    and pending :: "'f \<Rightarrow> (u16 \<times> pending_transaction) multiset"
    and forward :: "int \<Rightarrow> bool \<Rightarrow> parsed_packet \<Rightarrow> sockaddr_in \<Rightarrow> 'f \<Rightarrow> (u16 result \<times> datagram list \<times> 'f) option"
    and validate :: "bytes \<Rightarrow> sockaddr_in \<Rightarrow> 'f \<Rightarrow> (pending_transaction result \<times> 'f) option"
  assumes forward_invar: "invar f \<Longrightarrow> forward now s p a f = Some (r, out, f') \<Longrightarrow> invar f'"
    and forward_Ok: "invar f \<Longrightarrow> forward now s p a f = Some (Ok t, out, f') \<Longrightarrow>
      pending f' \<subseteq># add_mset (t, transaction_for now p a) (pending f)"
    and forward_Err: "invar f \<Longrightarrow> forward now s p a f = Some (Err e, out, f') \<Longrightarrow> pending f' \<subseteq># pending f"
    and validate_invar: "invar f \<Longrightarrow> validate buf from f = Some (v, f') \<Longrightarrow> invar f'"
    and validate_Ok: "invar f \<Longrightarrow> validate buf from f = Some (Ok tx, f') \<Longrightarrow>
      \<exists>t. add_mset (t, tx) (pending f') \<subseteq># pending f"
    and validate_Err: "invar f \<Longrightarrow> validate buf from f = Some (Err e, f') \<Longrightarrow> pending f' \<subseteq># pending f"
begin

lemma forward_pays:
  assumes "invar f" "forward now s p a f = Some (r, out, f')"
  shows "image_mset snd (pending f') \<subseteq>#
    image_mset snd (pending f) + (if is_ok r then {#transaction_for now p a#} else {#})"
proof (cases r)
  case (Ok t)
  from image_mset_subseteq_mono [OF forward_Ok [OF assms [unfolded Ok]], of snd] Ok show ?thesis by simp
next
  case (Err e)
  from image_mset_subseteq_mono [OF forward_Err [OF assms [unfolded Err]], of snd] Err show ?thesis by simp
qed

lemma validate_spends:
  assumes "invar f" "validate buf from f = Some (r, f')"
  shows "mset (case r of Ok tx \<Rightarrow> [tx] | Err _ \<Rightarrow> []) + image_mset snd (pending f') \<subseteq># image_mset snd (pending f)"
proof (cases r)
  case (Ok tx)
  then obtain t where "add_mset (t, tx) (pending f') \<subseteq># pending f" using validate_Ok assms by blast
  from image_mset_subseteq_mono [OF this, of snd] Ok show ?thesis by simp
next
  case (Err e)
  from image_mset_subseteq_mono [OF validate_Err [OF assms [unfolded Err]], of snd] Err show ?thesis by simp
qed

lemma run_balance:
  "invar f \<Longrightarrow> fw_run forward validate es f = Some (s, a, f') \<Longrightarrow>
   invar f' \<and> mset a + image_mset snd (pending f') \<subseteq># mset s + image_mset snd (pending f)"
proof (induction es arbitrary: f s a)
  case (Cons e es)
  show ?case
  proof (cases e)
    case (Forward now sent packet addr)
    with Cons.prems(2) obtain r out f1 s1 where 1: "forward now sent packet addr f = Some (r, out, f1)"
        "fw_run forward validate es f1 = Some (s1, a, f')"
        "s = (if is_ok r then transaction_for now packet addr # s1 else s1)"
      by (auto simp: bind_eq_Some_conv)
    have IH: "invar f' \<and> mset a + image_mset snd (pending f') \<subseteq># mset s1 + image_mset snd (pending f1)"
      using Cons.IH forward_invar [OF Cons.prems(1) 1(1)] 1(2) by blast
    have "mset s1 + image_mset snd (pending f1) \<subseteq># mset s + image_mset snd (pending f)"
      using forward_pays [OF Cons.prems(1) 1(1)] 1(3)
      by (cases "is_ok r") (simp_all add: ac_simps flip: union_mset_add_mset_right)
    with IH show ?thesis using subset_mset.order_trans by blast
  next
    case (Receive buf addr)
    with Cons.prems(2) obtain r f1 a1 where 1: "validate buf addr f = Some (r, f1)"
        "fw_run forward validate es f1 = Some (s, a1, f')"
        "a = (case r of Ok tx \<Rightarrow> tx # a1 | Err _ \<Rightarrow> a1)"
      by (auto simp: bind_eq_Some_conv)
    have IH: "invar f' \<and> mset a1 + image_mset snd (pending f') \<subseteq># mset s + image_mset snd (pending f1)"
      using Cons.IH validate_invar [OF Cons.prems(1) 1(1)] 1(2) by blast
    let ?x = "mset (case r of Ok tx \<Rightarrow> [tx] | Err _ \<Rightarrow> [])"
    have "mset a = ?x + mset a1" using 1(3) by (cases r) simp_all
    then have "mset a + image_mset snd (pending f') \<subseteq># ?x + (mset s + image_mset snd (pending f1))"
      using IH by (simp add: add.assoc)
    also have "\<dots> \<subseteq># mset s + image_mset snd (pending f)"
      using validate_spends [OF Cons.prems(1) 1(1)] by (simp add: union_assoc union_commute union_lcomm)
    finally show ?thesis using IH by blast
  qed
qed simp

end

lemma mset_pending_delete:
  assumes "fw_inv f" "map_of (pending_tx f) t = Some tx"
  shows "mset (pending_tx f) = add_mset (t, tx) (mset (pending_tx (consumed t f)))"
  using mset_delete [OF _ assms(2)] assms(1) by (simp add: fw_inv_def consumed_def)

lemma mset_pending_consumed_subset: "mset (pending_tx (consumed t f)) \<subseteq># mset (pending_tx f)"
  by (simp add: consumed_def AList.delete_eq multiset_filter_subset)

interpretation upstream: query_matcher fw_inv "\<lambda>f. mset (pending_tx f)" "forward_query draws" validate_response
  for draws
proof unfold_locales
  fix f now s p a r out f'
  assume "fw_inv f" "forward_query draws now s p a f = Some (r, out, f')"
  then show "fw_inv f'" by (rule forward_query_result)
next
  fix f now s p a t out f'
  assume *: "fw_inv f" "forward_query draws now s p a f = Some (Ok t, out, f')"
  show "mset (pending_tx f') \<subseteq># add_mset (t, transaction_for now p a) (mset (pending_tx f))"
    using forward_query_result(4) [OF * refl] prune_mset [of now f] by (simp del: prune_simps)
next
  fix f now s p a e out f'
  assume *: "fw_inv f" "forward_query draws now s p a f = Some (Err e, out, f')"
  show "mset (pending_tx f') \<subseteq># mset (pending_tx f)"
    using forward_query_result(5) [OF * refl] by blast
next
  fix f buf "from" r f'
  assume "fw_inv f" "validate_response buf from f = Some (r, f')"
  then show "fw_inv f'" by (metis validate_response_total option.inject prod.inject)
next
  fix f buf "from" tx f'
  assume *: "fw_inv f" "validate_response buf from f = Some (Ok tx, f')"
  then obtain h :: wire_header where "map_of (pending_tx f) (wh_id h) = Some tx" "f' = consumed (wh_id h) f"
    unfolding validate_response_Ok_iff admissible_def by blast
  with mset_pending_delete [OF *(1)] show "\<exists>t. add_mset (t, tx) (mset (pending_tx f')) \<subseteq># mset (pending_tx f)"
    by (metis subset_mset.order_refl)
next
  fix f buf "from" e f'
  assume "validate_response buf from f = Some (Err e, f')"
  then show "mset (pending_tx f') \<subseteq># mset (pending_tx f)"
    by (cases rule: validate_response_cases [of buf "from" f])
      (auto simp: mset_pending_consumed_subset)
qed

section \<open>Totality\<close>

lemma forward_query_returns:
  assumes "recurring draws" "2 \<le> length (raw_packet packet)"
  obtains r out f' where "forward_query draws now sent packet addr f = Some (r, out, f')"
proof (cases "socket_fd f < 0 \<or> 2048 \<le> length (pending_tx (prune now f))")
  case True
  then have "forward_query draws now sent packet addr f =
      (if socket_fd f < 0 then Some (Err UPSTREAM_ERROR, [], f) else Some (Err BUFFER_OVERFLOW, [], prune now f))"
    by (auto simp: forward_query_def)
  then show ?thesis using that by (cases "socket_fd f < 0") simp_all
next
  case False
  then have room: "0 \<le> socket_fd f" "length (pending_tx (prune now f)) < 2048" by simp_all
  obtain t n where g: "generate_unique_txid draws (prune now f) = Some (t, (prune now f)\<lparr>fw_drawn := n\<rparr>)"
      "t \<noteq> 0" "map_of (pending_tx (prune now f)) t = None"
    using generate_unique_txid_returns [OF assms(1) room(2)] .
  obtain b0 b1 rest where raw: "raw_packet packet = b0 # b1 # rest"
    using assms(2) by (cases "raw_packet packet"; cases "tl (raw_packet packet)") auto
  show ?thesis
    using that forward_query_eq [OF g(1,3) raw room, of sent addr] by (cases sent) auto
qed

section \<open>Properties\<close>

lemma parse_header: "parse buf = Some (Ok p) \<Longrightarrow> wire_header_parse buf = Some (pp_header p) \<and> 12 \<le> length buf \<and> raw_packet p = buf"
  by (auto simp: parse_Ok_iff parsed_from_def)

lemma id_of_header: "wire_header_parse buf = Some h \<Longrightarrow> wh_id h = be16 (buf ! 0) (buf ! 1)"
  using wire_header_parse_Some_iff [of buf] wire_header_parse_eq [of buf] by auto

definition open_forwarder :: forwarder where
  "open_forwarder = (new_forwarder ''9.9.9.9'' 53)\<lparr>socket_fd := 4, upstream_addr := \<lparr>sin_addr = 0x09090909, sin_port = 0x3500\<rparr>\<rparr>"

definition sample_packet :: parsed_packet where
  "sample_packet =
     \<lparr>pp_header = sample_header,
      question = \<lparr>qname = ''www.ex'', qtype = 1, qclass = 1, wire_bytes_consumed = 12\<rparr>,
      raw_packet = query_bytes sample_header sample_labels 1 1\<rparr>"

definition sample_reply :: bytes where
  "sample_reply = query_bytes (sample_header\<lparr>wh_id := 1, wh_flags := 0x8180\<rparr>) sample_labels 1 1"

definition spoofed_reply :: bytes where
  "spoofed_reply = query_bytes (sample_header\<lparr>wh_id := 1, wh_flags := 0x8180\<rparr>) (tl sample_labels) 1 1"

definition sample_client :: sockaddr_in where
  "sample_client = \<lparr>sin_addr = 0x0100007F, sin_port = 0x8888\<rparr>"

lemma forward_query_outcomes:
  assumes "parse buf = Some (Ok p)" "fw_inv f" "0 \<le> socket_fd f" "recurring draws"
    and "length (filter (\<lambda>e. \<not> expired now (snd e)) (pending_tx f)) < 2048"
  shows "\<exists>t f'. forward_query draws now True p addr f =
        Some (Ok t, [(upstream_addr f, hi8 t # lo8 t # drop 2 buf)], f') \<and> fw_inv f' \<and>
      t \<noteq> 0 \<and> (\<forall>tx. (t, tx) \<in> set (pending_tx f) \<longrightarrow> expired now tx) \<and>
      map_of (pending_tx f') t = Some \<lparr>client_txid = be16 (buf ! 0) (buf ! 1), client_addr = addr,
        expected_qname = qname (question p), expected_qtype = qtype (question p), timestamp = now\<rparr>"
    and "\<exists>f'. forward_query draws now False p addr f = Some (Err UPSTREAM_ERROR, [], f') \<and> fw_inv f' \<and>
      pending_tx f' = filter (\<lambda>e. \<not> expired now (snd e)) (pending_tx f)"
proof -
  note h = parse_header [OF assms(1)]
  then obtain b0 b1 rest where buf: "buf = b0 # b1 # rest"
    by (cases buf; cases "tl buf") auto
  then have raw: "raw_packet p = b0 # b1 # rest" using h by simp
  have id: "wh_id (pp_header p) = be16 b0 b1"
    using id_of_header [of buf "pp_header p"] h by (simp add: buf)
  have room: "length (pending_tx (prune now f)) < 2048" using assms(5) by simp
  obtain t n where g: "generate_unique_txid draws (prune now f) = Some (t, (prune now f)\<lparr>fw_drawn := n\<rparr>)"
      "t \<noteq> 0" "map_of (pending_tx (prune now f)) t = None"
    using generate_unique_txid_returns [OF assms(4) room] .
  note eq = forward_query_eq [OF g(1,3) raw assms(3) room]
  have "\<forall>tx. (t, tx) \<in> set (pending_tx f) \<longrightarrow> expired now tx"
    using g(3) by (force simp: map_of_eq_None_iff)
  moreover have "map_of (pending_tx (recorded t n now p addr f)) t = Some (transaction_for now p addr)"
    using g(3) by (simp add: map_add_def del: prune_simps)
  ultimately show "\<exists>t f'. forward_query draws now True p addr f =
        Some (Ok t, [(upstream_addr f, hi8 t # lo8 t # drop 2 buf)], f') \<and> fw_inv f' \<and>
      t \<noteq> 0 \<and> (\<forall>tx. (t, tx) \<in> set (pending_tx f) \<longrightarrow> expired now tx) \<and>
      map_of (pending_tx f') t = Some \<lparr>client_txid = be16 (buf ! 0) (buf ! 1), client_addr = addr,
        expected_qname = qname (question p), expected_qtype = qtype (question p), timestamp = now\<rparr>"
    using eq [of True addr] g(2) recorded_inv [OF assms(2) g(2,3) room]
    by (intro exI [of _ t] exI [of _ "recorded t n now p addr f"]) (simp add: transaction_for_def buf id del: prune_simps)
  show "\<exists>f'. forward_query draws now False p addr f = Some (Err UPSTREAM_ERROR, [], f') \<and> fw_inv f' \<and>
      pending_tx f' = filter (\<lambda>e. \<not> expired now (snd e)) (pending_tx f)"
    using eq [of False addr] prune_inv [OF assms(2), of now]
    by (intro exI [of _ "(prune now f)\<lparr>fw_drawn := n\<rparr>"]) (simp add: fw_inv_def)
qed

text \<open>
  Property C22 (forwarding a query).  For a packet the parser accepted, a forwarder with an open socket and
  fewer than 2048 transactions younger than the pruning age, \<open>forward_query\<close> leaves its drawing loop
  and stays inside the packet.  If the datagram is sent, it is the client's packet with nothing but the
  two id bytes replaced by a non-zero id that no live transaction uses, and the table then maps
  that id to the client's own id, its address, the question and the time.  If \<open>sendto\<close> fails, the caller
  gets \<open>UPSTREAM_ERROR\<close> and no transaction stays behind.  Either way the table keeps its bound of 2048 and
  its distinct ids.
\<close>

theorem forward_query_spec:
  assumes "parse buf = Some (Ok p)" "fw_inv f" "0 \<le> socket_fd f" "recurring draws"
    and "length (filter (\<lambda>e. \<not> expired now (snd e)) (pending_tx f)) < 2048"
  shows "(\<exists>t f'. forward_query draws now True p addr f =
        Some (Ok t, [(upstream_addr f, hi8 t # lo8 t # drop 2 buf)], f') \<and> fw_inv f' \<and>
      t \<noteq> 0 \<and> (\<forall>tx. (t, tx) \<in> set (pending_tx f) \<longrightarrow> expired now tx) \<and>
      map_of (pending_tx f') t = Some \<lparr>client_txid = be16 (buf ! 0) (buf ! 1), client_addr = addr,
        expected_qname = qname (question p), expected_qtype = qtype (question p), timestamp = now\<rparr>) \<and>
    (\<exists>f'. forward_query draws now False p addr f = Some (Err UPSTREAM_ERROR, [], f') \<and> fw_inv f' \<and>
      pending_tx f' = filter (\<lambda>e. \<not> expired now (snd e)) (pending_tx f))"
  using forward_query_outcomes [OF assms] by blast

theorem forward_query_spec_witness:
  "\<exists>p t f'. forward_query word_of_nat 7 True p sample_client open_forwarder =
      Some (Ok t, [(upstream_addr open_forwarder, hi8 t # lo8 t # drop 2 (query_bytes sample_header sample_labels 1 1))], f')"
proof -
  obtain p where "parse (query_bytes sample_header sample_labels 1 1) = Some (Ok p)"
    using sample_query_parses by blast
  then show ?thesis
    using forward_query_spec [of "query_bytes sample_header sample_labels 1 1" p open_forwarder word_of_nat 7 sample_client]
      new_forwarder_inv recurring_word_of_nat by (auto simp: open_forwarder_def new_forwarder_def fw_inv_def)
qed

text \<open>The loop takes the first draw that is free.\<close>

definition free_draw :: "(u16 \<times> pending_transaction) list \<Rightarrow> u16 \<Rightarrow> bool" where
  "free_draw pending t \<longleftrightarrow> t \<noteq> 0 \<and> map_of pending t = None"

lemma txid_loop_first:
  assumes "n \<le> m" "free_draw pending (draws m)" "\<And>k. n \<le> k \<Longrightarrow> k < m \<Longrightarrow> \<not> free_draw pending (draws k)"
    and "\<not> free_draw pending t"
  shows "txid_loop draws pending t n = Some (draws m, Suc m)"
  using assms
proof (induction "m - n" arbitrary: n t)
  case 0
  then have "m = n" by simp
  then show ?case
    using 0 by (subst txid_loop.simps, subst txid_loop.simps) (auto simp: free_draw_def)
next
  case (Suc d)
  then have "txid_loop draws pending (draws n) (Suc n) = Some (draws m, Suc m)" by simp
  then show ?case using Suc.prems(4) by (subst txid_loop.simps) (auto simp: free_draw_def)
qed

lemma txid_loop_draws:
  assumes "txid_loop draws pending t n = Some r"
  shows "\<not> free_draw pending t \<longrightarrow> (\<exists>m \<ge> n. free_draw pending (draws m))"
proof (rule txid_loop.raw_induct [OF _ assms,
      where P = "\<lambda>draws pending t n r. \<not> free_draw pending t \<longrightarrow> (\<exists>m \<ge> n. free_draw pending (draws m))"])
  fix rec :: "(nat \<Rightarrow> u16) \<Rightarrow> (u16 \<times> pending_transaction) list \<Rightarrow> u16 \<Rightarrow> nat \<Rightarrow> (u16 \<times> nat) option"
    and draws pending txid n y
  assume IH: "\<And>draws pending txid n y. rec draws pending txid n = Some y \<Longrightarrow>
      \<not> free_draw pending txid \<longrightarrow> (\<exists>m \<ge> n. free_draw pending (draws m))"
    and r: "(if txid = 0 \<or> map_of pending txid \<noteq> None then rec draws pending (draws n) (Suc n)
        else Some (txid, n)) = Some y"
  show "\<not> free_draw pending txid \<longrightarrow> (\<exists>m \<ge> n. free_draw pending (draws m))"
  proof
    assume "\<not> free_draw pending txid"
    then have "rec draws pending (draws n) (Suc n) = Some y" using r by (auto simp: free_draw_def)
    from IH [OF this] show "\<exists>m \<ge> n. free_draw pending (draws m)" by (meson Suc_leD order_refl)
  qed
qed

text \<open>
  Property C23 (when the drawing loop ends).  \<open>generate_unique_txid\<close> returns exactly when some draw from
  now on is a non-zero id that no pending transaction uses, and then it returns the first such draw and
  has consumed the draws up to it; otherwise it never returns.
\<close>

theorem txid_loop_ends_iff:
  "generate_unique_txid draws f = Some (t, f') \<longleftrightarrow>
     (\<exists>m \<ge> fw_drawn f. free_draw (pending_tx f) (draws m) \<and>
        (\<forall>k. fw_drawn f \<le> k \<and> k < m \<longrightarrow> \<not> free_draw (pending_tx f) (draws k)) \<and>
        t = draws m \<and> f' = f\<lparr>fw_drawn := Suc m\<rparr>)"
proof -
  let ?n = "fw_drawn f" and ?free = "\<lambda>m. free_draw (pending_tx f) (draws m)"
  have zero: "\<not> free_draw (pending_tx f) 0" by (simp add: free_draw_def)
  have first: "generate_unique_txid draws f = Some (draws m, f\<lparr>fw_drawn := Suc m\<rparr>)"
    if "?n \<le> m" "?free m" "\<forall>k. ?n \<le> k \<and> k < m \<longrightarrow> \<not> ?free k" for m
    using txid_loop_first [of ?n m "pending_tx f" draws 0] that zero by (simp add: generate_unique_txid_def)
  show ?thesis
  proof
    assume g: "generate_unique_txid draws f = Some (t, f')"
    then obtain r where "txid_loop draws (pending_tx f) 0 ?n = Some r"
      by (auto simp: generate_unique_txid_def)
    from txid_loop_draws [OF this] zero obtain m0 where m0: "?n \<le> m0" "?free m0" by blast
    define m where "m = (LEAST m. ?n \<le> m \<and> ?free m)"
    have m: "?n \<le> m \<and> ?free m" unfolding m_def by (rule LeastI [of _ m0]) (use m0 in blast)
    have least: "\<forall>k. ?n \<le> k \<and> k < m \<longrightarrow> \<not> ?free k"
    proof (intro allI impI)
      fix k assume "?n \<le> k \<and> k < m"
      then show "\<not> ?free k" using not_less_Least [of k "\<lambda>m. ?n \<le> m \<and> ?free m"] unfolding m_def by blast
    qed
    from first [OF _ _ least] m g have "t = draws m \<and> f' = f\<lparr>fw_drawn := Suc m\<rparr>" by simp
    with m least show "\<exists>m \<ge> ?n. ?free m \<and> (\<forall>k. ?n \<le> k \<and> k < m \<longrightarrow> \<not> ?free k) \<and> t = draws m \<and> f' = f\<lparr>fw_drawn := Suc m\<rparr>"
      by blast
  next
    assume "\<exists>m \<ge> ?n. ?free m \<and> (\<forall>k. ?n \<le> k \<and> k < m \<longrightarrow> \<not> ?free k) \<and> t = draws m \<and> f' = f\<lparr>fw_drawn := Suc m\<rparr>"
    then show "generate_unique_txid draws f = Some (t, f')" using first by blast
  qed
qed

theorem txid_loop_ends_iff_witness:
  "generate_unique_txid (\<lambda>_. 0) open_forwarder = None \<and>
   generate_unique_txid word_of_nat open_forwarder = Some (1, open_forwarder\<lparr>fw_drawn := 2\<rparr>)"
proof
  have o: "pending_tx open_forwarder = []" "fw_drawn open_forwarder = 0"
    by (simp_all add: open_forwarder_def new_forwarder_def)
  show "generate_unique_txid (\<lambda>_. 0) open_forwarder = None"
    using txid_loop_ends_iff [of "\<lambda>_. 0" open_forwarder]
    by (cases "generate_unique_txid (\<lambda>_. 0) open_forwarder") (auto simp: free_draw_def)
  have "fw_drawn open_forwarder \<le> 1 \<and> free_draw (pending_tx open_forwarder) (word_of_nat 1) \<and>
      (\<forall>k. fw_drawn open_forwarder \<le> k \<and> k < 1 \<longrightarrow> \<not> free_draw (pending_tx open_forwarder) (word_of_nat k)) \<and>
      1 = (word_of_nat 1 :: u16) \<and> open_forwarder\<lparr>fw_drawn := 2\<rparr> = open_forwarder\<lparr>fw_drawn := Suc 1\<rparr>"
    by (simp add: o free_draw_def)
  then show "generate_unique_txid word_of_nat open_forwarder = Some (1, open_forwarder\<lparr>fw_drawn := 2\<rparr>)"
    unfolding txid_loop_ends_iff by blast
qed

text \<open>
  Property C20 (what an accepted response is).  \<open>validate_response\<close> accepts a datagram exactly when it
  comes from the configured address and port, parses, has the response bit, carries the id of
  a pending transaction, and asks that transaction's (normalised) name and type.  The transaction it
  returns is that one, and it leaves the table.
\<close>

theorem validate_response_accepts_iff:
  "validate_response buf from f = Some (Ok tx, f') \<longleftrightarrow>
     from = upstream_addr f \<and>
     (\<exists>p. parse buf = Some (Ok p) \<and> is_response (pp_header p) \<and>
        map_of (pending_tx f) (wh_id (pp_header p)) = Some tx \<and>
        qname (question p) = expected_qname tx \<and> qtype (question p) = expected_qtype tx \<and>
        f' = f\<lparr>pending_tx := AList.delete (wh_id (pp_header p)) (pending_tx f)\<rparr>)"
  unfolding validate_response_Ok_iff admissible_def answers_def consumed_def
  using parse_header by fastforce

text \<open>
  Property C21 (one answer for one query).  Over any sequence of forwarded queries and received datagrams
  from a new forwarder, with any outcomes of \<open>sendto\<close>, any clock and any datagrams, the accepted responses,
  counted with multiplicity, are transactions of queries that were sent: no datagram is accepted without a
  query, and none is accepted twice for one query.  This holds of every prefix of the run, so no
  response precedes its query.
\<close>

theorem responses_pay_for_queries:
  assumes "pending_tx f0 = []"
    and "fw_run (forward_query draws) validate_response es f0 = Some (sent, accepted, f)"
  shows "mset accepted \<subseteq># mset sent \<and> length (pending_tx f) \<le> 2048"
proof -
  have "fw_inv f0" using assms(1) by (simp add: fw_inv_def)
  then have "fw_inv f \<and> mset accepted + image_mset snd (mset (pending_tx f)) \<subseteq># mset sent"
    using upstream.run_balance [OF _ assms(2)] assms(1) by simp
  then show ?thesis
    using subset_mset.order_trans [OF mset_subset_eq_add_left] by (auto simp: fw_inv_def)
qed

theorem responses_pay_for_queries_witness:
  "\<exists>sent accepted f. fw_run (forward_query (\<lambda>n. word_of_nat (Suc n))) validate_response
      [Forward 0 True sample_packet sample_client, Receive sample_reply (upstream_addr open_forwarder),
       Receive sample_reply (upstream_addr open_forwarder)] open_forwarder = Some (sent, accepted, f) \<and>
    length accepted = 1 \<and> mset accepted \<subseteq># mset sent \<and> length (pending_tx f) \<le> 2048"
proof -
  have "case fw_run (forward_query (\<lambda>n. word_of_nat (Suc n))) validate_response
      [Forward 0 True sample_packet sample_client, Receive sample_reply (upstream_addr open_forwarder),
       Receive sample_reply (upstream_addr open_forwarder)] open_forwarder of
      Some (sent, accepted, f) \<Rightarrow> length accepted = 1 | None \<Rightarrow> False" (is "case ?r of Some x \<Rightarrow> _ x | None \<Rightarrow> _")
    by code_simp
  then obtain sent accepted f where r: "?r = Some (sent, accepted, f)" and "length accepted = 1"
    by (cases ?r) auto
  moreover have "pending_tx open_forwarder = []" by (simp add: open_forwarder_def new_forwarder_def)
  ultimately show ?thesis using responses_pay_for_queries [OF _ r] by blast
qed

definition waiting_forwarder :: forwarder where
  "waiting_forwarder = open_forwarder\<lparr>pending_tx := [(1, transaction_for 0 sample_packet sample_client)]\<rparr>"

text \<open>
  Further fact (a mismatched response costs the query).  \<open>validate_response\<close> erases the transaction before it
  compares the question.  A datagram with the right source and id but another name is rejected, and
  the genuine answer that follows is rejected too; without it, the genuine answer is accepted.
\<close>

theorem mismatched_response_discards_query:
  "(\<exists>f. validate_response spoofed_reply (upstream_addr waiting_forwarder) waiting_forwarder =
      Some (Err UNEXPECTED_RESPONSE, f) \<and>
      validate_response sample_reply (upstream_addr waiting_forwarder) f = Some (Err UNEXPECTED_RESPONSE, f)) \<and>
   (\<exists>tx f. validate_response sample_reply (upstream_addr waiting_forwarder) waiting_forwarder = Some (Ok tx, f))"
proof -
  have 1: "validate_response spoofed_reply (upstream_addr waiting_forwarder) waiting_forwarder =
      Some (Err UNEXPECTED_RESPONSE, open_forwarder)"
    and 2: "validate_response sample_reply (upstream_addr waiting_forwarder) open_forwarder =
      Some (Err UNEXPECTED_RESPONSE, open_forwarder)"
    and 3: "validate_response sample_reply (upstream_addr waiting_forwarder) waiting_forwarder =
      Some (Ok (transaction_for 0 sample_packet sample_client), open_forwarder)"
    by code_simp+
  then show ?thesis by blast
qed

text \<open>
  Further fact (the age of a transaction is not checked).  Validation does not look at the clock: a
  transaction is dropped for its age only when a later query is forwarded.  The answer to
  \<open>waiting_forwarder\<close>'s one query, sent at time 0, is accepted however late it comes, a minute later for
  instance, when the transaction counts as expired.
\<close>

theorem expired_transaction_still_accepted:
  "map_of (pending_tx waiting_forwarder) 1 = Some (transaction_for 0 sample_packet sample_client) \<and>
   expired 60000000000 (transaction_for 0 sample_packet sample_client) \<and>
   validate_response sample_reply (upstream_addr waiting_forwarder) waiting_forwarder =
     Some (Ok (transaction_for 0 sample_packet sample_client), open_forwarder)"
proof (intro conjI)
  show "map_of (pending_tx waiting_forwarder) 1 = Some (transaction_for 0 sample_packet sample_client)"
    by (simp add: waiting_forwarder_def)
  show "expired 60000000000 (transaction_for 0 sample_packet sample_client)" by code_simp
  show "validate_response sample_reply (upstream_addr waiting_forwarder) waiting_forwarder =
     Some (Ok (transaction_for 0 sample_packet sample_client), open_forwarder)"
    by code_simp
qed

end
