(* ===== verification/Ipc.thy ===== *)
theory Ipc
  imports Snapshot Decimal
begin

text \<open>
  The control socket (\<open>src/runtime/ipc_server.cpp\<close>): the text extraction that stands for a JSON
  parser, the commands \<open>GET_STATUS\<close> and \<open>APPLY_POLICY\<close>, and what one connection of \<open>listen_loop\<close> does
  with the bytes of its single \<open>read\<close>.  A command runs on the snapshot manager without
  interleaving here; the interleavings of its atomic accesses are those of theories \<open>Snapshot\<close> and
  \<open>Concurrent_Dataplane\<close>.
\<close>

section \<open>Extraction from text\<close>

abbreviation quote :: char where
  "quote \<equiv> CHR 0x22"

text \<open>\<open>s.find(pat)\<close>: the index of the first occurrence.\<close>

fun find_str :: "string \<Rightarrow> string \<Rightarrow> nat option" where
  "find_str pat [] = (if pat = [] then Some 0 else None)"
| "find_str pat (c # s) = (if prefix pat (c # s) then Some 0 else map_option Suc (find_str pat s))"

definition substr :: "string \<Rightarrow> nat \<Rightarrow> nat \<Rightarrow> string" where
  "substr s pos n = take n (drop pos s)"

definition quoted :: "string \<Rightarrow> string" where
  "quoted key = [quote] @ key @ [quote]"

function json_strings_loop :: "string \<Rightarrow> nat \<Rightarrow> nat \<Rightarrow> string list \<Rightarrow> string list" where
  "json_strings_loop json end_bracket pos res =
     (if pos < end_bracket then
        case find_char quote json pos of
          None \<Rightarrow> res
        | Some open_quote \<Rightarrow>
            if open_quote \<ge> end_bracket then res
            else case find_char quote json (open_quote + 1) of
              None \<Rightarrow> res
            | Some close_quote \<Rightarrow>
                if close_quote \<ge> end_bracket then res
                else json_strings_loop json end_bracket (close_quote + 1)
                  (res @ [substr json (open_quote + 1) (close_quote - open_quote - 1)])
      else res)"
  by pat_completeness auto
termination
  by (relation "measure (\<lambda>(json, e, pos, res). e - pos)") (auto dest!: find_char_SomeD(1))

declare json_strings_loop.simps [simp del]

definition extract_json_strings :: "string \<Rightarrow> string \<Rightarrow> string list" where
  "extract_json_strings json key =
     (case find_str (quoted key) json of
        None \<Rightarrow> []
      | Some key_pos \<Rightarrow>
          (case find_char CHR ''['' json key_pos of
             None \<Rightarrow> []
           | Some start_bracket \<Rightarrow>
               (case find_char CHR '']'' json start_bracket of
                  None \<Rightarrow> []
                | Some end_bracket \<Rightarrow> json_strings_loop json end_bracket (start_bracket + 1) [])))"

definition extract_json_string :: "string \<Rightarrow> string \<Rightarrow> string" where
  "extract_json_string json key =
     (case find_str (quoted key) json of
        None \<Rightarrow> []
      | Some key_pos \<Rightarrow>
          (case find_char quote json (key_pos + length key + 2) of
             None \<Rightarrow> []
           | Some open_quote \<Rightarrow>
               (case find_char quote json (open_quote + 1) of
                  None \<Rightarrow> []
                | Some close_quote \<Rightarrow> substr json (open_quote + 1) (close_quote - open_quote - 1))))"

definition extract_json_uint64 :: "string \<Rightarrow> string \<Rightarrow> u64" where
  "extract_json_uint64 json key =
     (case find_str (quoted key) json of
        None \<Rightarrow> 0
      | Some key_pos \<Rightarrow>
          (case find_char CHR '':'' json key_pos of
             None \<Rightarrow> 0
           | Some colon \<Rightarrow> strtoull (drop (colon + 1) json)))"

section \<open>Commands\<close>

fun insert_suffixes :: "suffix_trie \<Rightarrow> nat \<Rightarrow> string list \<Rightarrow> suffix_trie" where
  "insert_suffixes t i [] = t"
| "insert_suffixes t i (s # ss) = insert_suffixes (trie_insert t s (word_of_nat (i + 1))) (i + 1) ss"

definition build_candidate :: "string \<Rightarrow> policy_snapshot" where
  "build_candidate req =
     new_snapshot\<lparr>generation := extract_json_uint64 req ''generation'',
       version_hash := extract_json_string req ''version_hash'',
       ps_suffix_trie := insert_suffixes (ps_suffix_trie new_snapshot) 0 (extract_json_strings req ''suffix_blocks''),
       exact_blocks := set (extract_json_strings req ''exact_blocks''),
       allowlist := set (extract_json_strings req ''allowlist'')\<rparr>"

definition newline :: string where
  "newline = [CHR 0x0A]"

definition status_text :: "snapshot_manager \<Rightarrow> string" where
  "status_text m =
     ''{\"status\":\"OK\",\"generation\":'' @ dec_string (unat (global_generation m)) @
     '',\"version_hash\":\"'' @ version_hash (active_snapshot m) @ ''\"'' @
     '',\"rule_count\":'' @
       dec_string (trie_size (ps_suffix_trie (active_snapshot m)) + card (exact_blocks (active_snapshot m))) @
     ''}'' @ newline"

definition accepted_text :: "snapshot_manager \<Rightarrow> string \<Rightarrow> string" where
  "accepted_text m hash =
     ''{\"status\":\"OK\",\"active_generation\":'' @ dec_string (unat (global_generation m)) @
     '',\"version_hash\":\"'' @ hash @ ''\"}'' @ newline"

definition rejected_text :: "snapshot_manager \<Rightarrow> string \<Rightarrow> string" where
  "rejected_text m err =
     ''{\"status\":\"REJECTED\",\"error\":\"'' @ err @ ''\",\"active_generation\":'' @
     dec_string (unat (global_generation m)) @ ''}'' @ newline"

definition unknown_text :: string where
  "unknown_text = ''{\"status\":\"ERROR\",\"error\":\"Unknown command\"}'' @ newline"

definition handle_command :: "string \<Rightarrow> snapshot_manager \<Rightarrow> string \<times> snapshot_manager" where
  "handle_command req m =
     (let cmd = extract_json_string req ''command'' in
      if cmd = ''GET_STATUS'' then (status_text m, m)
      else if cmd = ''APPLY_POLICY'' then
        let candidate = build_candidate req;
            (ok, err, m') = apply_candidate m (Some candidate)
        in if ok then (accepted_text m' (version_hash candidate), m')
           else (rejected_text m' (case err of None \<Rightarrow> [] | Some e \<Rightarrow> e), m')
      else (unknown_text, m))"

text \<open>
  One connection: \<open>data\<close> is what the single \<open>read\<close> could return, cut at the 8191 bytes the buffer
  leaves room for; \<open>std::string(buf)\<close> ends at the first NUL.  Without any byte there is no answer.
\<close>

definition ipc_request :: "string \<Rightarrow> string" where
  "ipc_request data = takeWhile (\<lambda>c. c \<noteq> CHR 0x00) (take 8191 data)"

definition serve_connection :: "string \<Rightarrow> snapshot_manager \<Rightarrow> string option \<times> snapshot_manager" where
  "serve_connection data m =
     (if take 8191 data = [] then (None, m)
      else let (resp, m') = handle_command (ipc_request data) m in (Some resp, m'))"

section \<open>Effects of a command\<close>

lemma handle_command_apply:
  assumes "extract_json_string req ''command'' = ''APPLY_POLICY''"
  shows "handle_command req m =
    (let c = build_candidate req in
     if acceptable (global_generation m) c
     then (accepted_text (m\<lparr>active_snapshot := c, global_generation := generation c\<rparr>) (version_hash c),
           m\<lparr>active_snapshot := c, global_generation := generation c\<rparr>)
     else (rejected_text m (if generation c \<le> global_generation m
                            then ''Candidate generation must be > active generation''
                            else ''Candidate missing cryptographic version hash''), m))"
  using assms by (simp add: handle_command_def apply_candidate_Some Let_def)

lemma handle_command_manager:
  "snd (handle_command req m) =
     (if extract_json_string req ''command'' = ''APPLY_POLICY''
      then snd (snd (apply_candidate m (Some (build_candidate req)))) else m)"
  by (simp add: handle_command_def apply_candidate_Some Let_def)

lemma handle_command_inv [inv_intros]: "manager_inv m \<Longrightarrow> manager_inv (snd (handle_command req m))"
  by (simp add: handle_command_manager apply_candidate_inv)

lemma serve_connection_inv [inv_intros]: "manager_inv m \<Longrightarrow> manager_inv (snd (serve_connection data m))"
  using handle_command_inv [of m "ipc_request data"]
  by (simp add: serve_connection_def Let_def case_prod_beta)

lemma insert_suffixes_build:
  "insert_suffixes t i ss = foldl (\<lambda>t (d, r). trie_insert t d r) t
     (zip ss (map (\<lambda>j. word_of_nat (i + j + 1)) [0..<length ss]))"
proof (induction ss arbitrary: t i)
  case (Cons s ss)
  have "map (\<lambda>j. word_of_nat (i + j + 1)) [0..<length (s # ss)] =
    (word_of_nat (i + 1) :: u32) # map (\<lambda>j. word_of_nat (Suc i + j + 1)) [0..<length ss]"
    by (simp add: upt_conv_Cons map_Suc_upt [symmetric] del: upt_Suc)
  with Cons [of "trie_insert t s (word_of_nat (i + 1))" "Suc i"] show ?case by (simp del: upt_Suc of_nat_add of_nat_Suc)
qed simp

section \<open>Searching a key\<close>

text \<open>The text from the first occurrence of the quoted key on; the extractors depend on it alone.\<close>

definition key_suffix :: "string \<Rightarrow> string \<Rightarrow> string option" where
  "key_suffix k s = map_option (\<lambda>i. drop i s) (find_str (quoted k) s)"

lemma quoted_not_Nil [simp]: "quoted k \<noteq> []"
  by (simp add: quoted_def)

lemma key_suffix_Nil [simp]: "key_suffix k [] = None"
  by (simp add: key_suffix_def)

lemma key_suffix_Cons:
  "key_suffix k (c # s) = (if prefix (quoted k) (c # s) then Some (c # s) else key_suffix k s)"
  by (cases "find_str (quoted k) s") (simp_all add: key_suffix_def)

lemma key_suffix_gap: "quote \<notin> set g \<Longrightarrow> key_suffix k (g @ r) = key_suffix k r"
  by (induction g) (auto simp: key_suffix_Cons quoted_def)

lemma prefix_quoted_iff:
  assumes "quote \<notin> set k" "quote \<notin> set p"
  shows "prefix (quoted k) (quote # p @ quote # r) \<longleftrightarrow> p = k"
proof
  assume "prefix (quoted k) (quote # p @ quote # r)"
  then obtain z where "k @ quote # z = p @ quote # r" by (auto simp: quoted_def prefix_def)
  then show "p = k" using assms
    by (auto simp: append_eq_append_conv2 append_eq_Cons_conv Cons_eq_append_conv)
qed (auto simp: quoted_def)

lemma key_suffix_name:
  assumes "quote \<notin> set k" "quote \<notin> set p" "p \<noteq> k"
  shows "key_suffix k (quote # p @ quote # r) = key_suffix k (quote # r)"
  using prefix_quoted_iff [OF assms(1,2)] assms(3) key_suffix_gap [OF assms(2), of k "quote # r"]
  by (simp add: key_suffix_Cons [of k quote "p @ quote # r"])

lemma key_suffix_after_quote:
  assumes "quote \<notin> set g" "\<not> set g \<subseteq> set k"
  shows "key_suffix k (quote # g @ r) = key_suffix k r"
proof -
  have "\<not> prefix (quoted k) (quote # g @ r)"
  proof
    assume "prefix (quoted k) (quote # g @ r)"
    then obtain z where z: "k @ quote # z = g @ r" by (auto simp: quoted_def prefix_def)
    then consider us where "k = g @ us" | us where "g = k @ us" "quote # z = us @ r"
      by (auto simp: append_eq_append_conv2)
    then show False
    proof cases
      case 1
      then show ?thesis using assms(2) by auto
    next
      case 2
      then show ?thesis using assms by (cases us) auto
    qed
  qed
  then show ?thesis using key_suffix_gap [OF assms(1)] by (simp add: key_suffix_Cons)
qed

lemma key_suffix_skip:
  assumes "quote \<notin> set k" "quote \<notin> set p" "p \<noteq> k" "quote \<notin> set g" "\<not> set g \<subseteq> set k"
  shows "key_suffix k (quoted p @ g @ r) = key_suffix k r"
  using key_suffix_name [OF assms(1-3)] key_suffix_after_quote [OF assms(4,5)] by (simp add: quoted_def)

lemma key_suffix_found: "key_suffix k (quoted k @ r) = Some (quoted k @ r)"
  by (simp add: quoted_def key_suffix_Cons)

section \<open>The extractors on the text from the key on\<close>

lemma find_char_drop: "k \<le> pos \<Longrightarrow> find_char c s pos = map_option ((+) k) (find_char c (drop k s) (pos - k))"
  by (cases "find_from ((=) c) (drop pos s)") (simp_all add: find_char_def)

lemma find_char_0: "c \<notin> set p \<Longrightarrow> find_char c (p @ c # r) 0 = Some (length p)"
  by (induction p) (auto simp: find_char_def)

lemma find_char_at: "pos = length p \<Longrightarrow> c \<notin> set q \<Longrightarrow> find_char c (p @ q @ c # r) pos = Some (length p + length q)"
  using find_char_0 [of c q r] find_char_drop [of "length p" pos c "p @ q @ c # r"] by simp

lemma json_strings_loop_drop:
  "json_strings_loop s (k + e) (k + pos) res = json_strings_loop (drop k s) e pos res"
proof (induction "drop k s" e pos res rule: json_strings_loop.induct)
  case (1 e pos res)
  have o: "find_char quote s (k + pos) = map_option ((+) k) (find_char quote (drop k s) pos)"
    using find_char_drop [of k "k + pos"] by simp
  have c: "find_char quote s (Suc (k + i)) = map_option ((+) k) (find_char quote (drop k s) (Suc i))" for i
    using find_char_drop [of k "Suc (k + i)"] by simp
  have sub: "substr s (Suc (k + i)) n = substr (drop k s) (Suc i) n" for i n
    by (simp add: substr_def add.commute)
  show ?case
    by (subst (1 2) json_strings_loop.simps)
      (use 1 in \<open>auto simp: o c sub add.assoc split: option.split\<close>)
qed

lemma extract_json_strings_eq:
  "extract_json_strings json k =
     (case key_suffix k json of
        None \<Rightarrow> []
      | Some r \<Rightarrow>
          (case find_char CHR ''['' r 0 of
             None \<Rightarrow> []
           | Some b \<Rightarrow>
               (case find_char CHR '']'' r b of
                  None \<Rightarrow> []
                | Some e \<Rightarrow> json_strings_loop r e (b + 1) [])))"
proof (cases "find_str (quoted k) json")
  case (Some i)
  have b: "find_char CHR ''['' json i = map_option ((+) i) (find_char CHR ''['' (drop i json) 0)"
    using find_char_drop [of i i] by simp
  have e: "find_char CHR '']'' json (i + j) = map_option ((+) i) (find_char CHR '']'' (drop i json) j)" for j
    using find_char_drop [of i "i + j"] by simp
  have l: "json_strings_loop json (i + e) (Suc (i + j)) [] = json_strings_loop (drop i json) e (Suc j) []" for e j
    using json_strings_loop_drop [of json i e "Suc j" "[]"] by simp
  show ?thesis
    by (auto simp: extract_json_strings_def key_suffix_def Some b e l split: option.split)
qed (simp add: extract_json_strings_def key_suffix_def)

lemma extract_json_string_eq:
  "extract_json_string json k =
     (case key_suffix k json of
        None \<Rightarrow> []
      | Some r \<Rightarrow>
          (case find_char quote r (length k + 2) of
             None \<Rightarrow> []
           | Some b \<Rightarrow>
               (case find_char quote r (b + 1) of
                  None \<Rightarrow> []
                | Some e \<Rightarrow> substr r (b + 1) (e - b - 1))))"
proof (cases "find_str (quoted k) json")
  case (Some i)
  have b: "find_char quote json (Suc (Suc (i + length k))) =
      map_option ((+) i) (find_char quote (drop i json) (Suc (Suc (length k))))"
    using find_char_drop [of i "Suc (Suc (i + length k))"] by simp
  have e: "find_char quote json (Suc (i + j)) = map_option ((+) i) (find_char quote (drop i json) (Suc j))" for j
    using find_char_drop [of i "Suc (i + j)"] by simp
  have sub: "substr json (Suc (i + j)) n = substr (drop i json) (Suc j) n" for j n
    by (simp add: substr_def add.commute)
  show ?thesis
    by (auto simp: extract_json_string_def key_suffix_def Some b e sub split: option.split)
qed (simp add: extract_json_string_def key_suffix_def)

lemma extract_json_uint64_eq:
  "extract_json_uint64 json k =
     (case key_suffix k json of
        None \<Rightarrow> 0
      | Some r \<Rightarrow>
          (case find_char CHR '':'' r 0 of None \<Rightarrow> 0 | Some c \<Rightarrow> strtoull (drop (c + 1) r)))"
proof (cases "find_str (quoted k) json")
  case (Some i)
  have c: "find_char CHR '':'' json i = map_option ((+) i) (find_char CHR '':'' (drop i json) 0)"
    using find_char_drop [of i i] by simp
  show ?thesis
    by (auto simp: extract_json_uint64_def key_suffix_def Some c add.commute split: option.split)
qed (simp add: extract_json_uint64_def key_suffix_def)

section \<open>Requests as the control plane writes them\<close>

fun commas :: "string list \<Rightarrow> string" where
  "commas [] = []"
| "commas [x] = x"
| "commas (x # xs) = x @ '','' @ commas xs"

definition string_field :: "string \<Rightarrow> string \<Rightarrow> string" where
  "string_field k v = (if v = [] then [] else '','' @ quoted k @ '':'' @ quoted v)"

definition number_field :: "string \<Rightarrow> nat \<Rightarrow> string" where
  "number_field k n = (if n = 0 then [] else '','' @ quoted k @ '':'' @ dec_string n)"

definition array_field :: "string \<Rightarrow> string list \<Rightarrow> string" where
  "array_field k xs = (if xs = [] then [] else '','' @ quoted k @ '':['' @ commas (map quoted xs) @ '']'')"

definition policy_request :: "nat \<Rightarrow> string \<Rightarrow> string list \<Rightarrow> string list \<Rightarrow> string list \<Rightarrow> string" where
  "policy_request gen hash sfx exa alw =
     ''{'' @ quoted ''command'' @ '':'' @ quoted ''APPLY_POLICY'' @ number_field ''generation'' gen @
     string_field ''version_hash'' hash @ array_field ''suffix_blocks'' sfx @
     array_field ''exact_blocks'' exa @ array_field ''allowlist'' alw @ ''}'' @ newline"

definition request_keys :: "string list" where
  "request_keys = [''command'', ''generation'', ''version_hash'', ''suffix_blocks'', ''exact_blocks'', ''allowlist'']"

definition plain :: "string \<Rightarrow> bool" where
  "plain s \<longleftrightarrow> quote \<notin> set s \<and> CHR '']'' \<notin> set s \<and> s \<notin> set request_keys"

text \<open>A key of the request, and what may follow a field.\<close>

definition plain_key :: "string \<Rightarrow> bool" where
  "plain_key k \<longleftrightarrow> quote \<notin> set k \<and> CHR '':'' \<notin> set k \<and> CHR '','' \<notin> set k \<and> CHR '']'' \<notin> set k
     \<and> CHR ''}'' \<notin> set k \<and> CHR ''['' \<notin> set k"

definition field_end :: "string \<Rightarrow> bool" where
  "field_end r \<longleftrightarrow> (\<exists>c r'. r = c # r' \<and> c \<in> {CHR '','', CHR ''}'', CHR '']''})"

lemma field_end_simps [simp]:
  "field_end (CHR '','' # r)" "field_end (CHR ''}'' # r)" "field_end (CHR '']'' # r)"
  by (simp_all add: field_end_def)

lemma field_end_fields [simp]:
  "field_end r \<Longrightarrow> field_end (number_field k n @ r)"
  "field_end r \<Longrightarrow> field_end (string_field k v @ r)"
  "field_end r \<Longrightarrow> field_end (array_field k xs @ r)"
  by (simp_all add: number_field_def string_field_def array_field_def)

lemma skip_value:
  assumes "plain_key k" "quote \<notin> set v" "v \<noteq> k" "field_end r"
  shows "key_suffix k (quoted v @ r) = key_suffix k r"
proof -
  obtain c r' where r: "r = [c] @ r'" "c \<in> {CHR '','', CHR ''}'', CHR '']''}"
    using assms(4) by (auto simp: field_end_def)
  have "key_suffix k (quoted v @ [c] @ r') = key_suffix k r'"
    using assms r(2) by (intro key_suffix_skip) (auto simp: plain_key_def)
  moreover have "key_suffix k ([c] @ r') = key_suffix k r'" using r(2) by (intro key_suffix_gap) auto
  ultimately show ?thesis by (simp add: r(1))
qed

lemma skip_name:
  assumes "plain_key k" "plain_key p" "p \<noteq> k" "quote \<notin> set g" "CHR '':'' \<in> set g"
  shows "key_suffix k (quoted p @ g @ r) = key_suffix k r"
  using assms by (intro key_suffix_skip) (auto simp: plain_key_def)

lemma skip_comma: "key_suffix k (CHR '','' # r) = key_suffix k r"
  using key_suffix_gap [of "'',''" k r] by simp

lemma skip_number_field:
  assumes "plain_key k" "plain_key p" "p \<noteq> k"
  shows "key_suffix k (number_field p n @ r) = key_suffix k r"
proof -
  have "quote \<notin> set ('':'' @ dec_string n)" using dec_string_digits [of n] by (auto simp: is_digit_def)
  from skip_name [OF assms this] show ?thesis by (simp add: number_field_def skip_comma)
qed

lemma skip_string_field:
  assumes "plain_key k" "plain_key p" "p \<noteq> k" "quote \<notin> set v" "v \<noteq> k" "field_end r"
  shows "key_suffix k (string_field p v @ r) = key_suffix k r"
proof -
  have "key_suffix k (quoted p @ '':'' @ quoted v @ r) = key_suffix k (quoted v @ r)"
    by (rule skip_name [OF assms(1-3)]) simp_all
  with skip_value [OF assms(1,4-6)] show ?thesis by (simp add: string_field_def skip_comma)
qed

lemma skip_commas:
  assumes "plain_key k" "field_end r"
  shows "\<forall>v \<in> set vs. quote \<notin> set v \<and> v \<noteq> k \<Longrightarrow> key_suffix k (commas (map quoted vs) @ r) = key_suffix k r"
proof (induction vs rule: commas.induct)
  case (3 v w vs)
  then show ?case using skip_value [OF assms(1), of v] by (simp add: skip_comma)
qed (use skip_value [OF assms(1) _ _ assms(2)] in simp_all)

lemma skip_array_field:
  assumes "plain_key k" "plain_key p" "p \<noteq> k" "\<forall>v \<in> set vs. quote \<notin> set v \<and> v \<noteq> k"
  shows "key_suffix k (array_field p vs @ r) = key_suffix k r"
proof -
  have "key_suffix k (quoted p @ '':['' @ commas (map quoted vs) @ '']'' @ r) = key_suffix k (commas (map quoted vs) @ '']'' @ r)"
    by (rule skip_name [OF assms(1-3)]) simp_all
  also have "\<dots> = key_suffix k ('']'' @ r)" using skip_commas [OF assms(1) _ assms(4)] by simp
  also have "\<dots> = key_suffix k r" by (rule key_suffix_gap) simp
  finally show ?thesis by (simp add: array_field_def skip_comma)
qed

section \<open>Reading a value\<close>

lemma read_number:
  assumes "plain_key k" "n < 2 ^ 64" "field_end r" "key_suffix k json = Some (quoted k @ '':'' @ dec_string n @ r)"
  shows "extract_json_uint64 json k = word_of_nat n"
proof -
  have "find_char CHR '':'' (quoted k @ '':'' @ dec_string n @ r) 0 = Some (length (quoted k))"
    using find_char_0 [of "CHR '':''" "quoted k"] assms(1) by (simp add: plain_key_def quoted_def)
  moreover have "\<not> is_digit (hd r)" using assms(3) by (auto simp: field_end_def)
  ultimately show ?thesis
    using assms(2,4) strtoull_dec_string [of n r] by (simp add: extract_json_uint64_eq)
qed

lemma read_string:
  assumes "quote \<notin> set v" "key_suffix k json = Some (quoted k @ '':'' @ quoted v @ r)"
  shows "extract_json_string json k = v"
proof -
  have b: "find_char quote (quoted k @ '':'' @ quoted v @ r) (Suc (Suc (length k))) = Some (Suc (Suc (Suc (length k))))"
    using find_char_at [of "Suc (Suc (length k))" "quoted k" quote "'':''" "v @ quote # r"] by (simp add: quoted_def)
  have e: "find_char quote (quoted k @ '':'' @ quoted v @ r) (Suc (Suc (Suc (Suc (length k))))) =
      Some (Suc (Suc (Suc (Suc (length k)))) + length v)"
    using find_char_at [of "Suc (Suc (Suc (Suc (length k))))" "quoted k @ '':'' @ [quote]" quote v r] assms(1)
    by (simp add: quoted_def)
  show ?thesis using b e assms(2) by (simp add: extract_json_string_eq substr_def quoted_def)
qed

lemma loop_commas:
  "\<forall>v \<in> set vs. quote \<notin> set v \<Longrightarrow> vs \<noteq> [] \<Longrightarrow> quote \<notin> set g \<Longrightarrow>
   s = pre @ g @ commas (map quoted vs) @ post \<Longrightarrow>
   json_strings_loop s (length pre + length g + length (commas (map quoted vs))) (length pre) res = res @ vs"
proof (induction vs arbitrary: pre g res)
  case (Cons v vs)
  let ?e = "length pre + length g + length (commas (map quoted (v # vs)))"
  obtain tl where tl: "commas (map quoted (v # vs)) = quoted v @ tl"
      "vs = [] \<and> tl = [] \<or> vs \<noteq> [] \<and> tl = '','' @ commas (map quoted vs)"
    by (cases vs) auto
  have s: "s = pre @ g @ quote # v @ quote # tl @ post" using Cons.prems(4) unfolding tl(1) by (simp add: quoted_def)
  have o: "find_char quote s (length pre) = Some (length pre + length g)"
    using find_char_at [of "length pre" pre quote g] Cons.prems(3) s by simp
  have c: "find_char quote s (Suc (length pre + length g)) = Some (Suc (length pre + length g + length v))"
    using find_char_at [of "Suc (length pre + length g)" "pre @ g @ [quote]" quote v] Cons.prems(1) s by simp
  have e: "?e = length pre + length g + length v + 2 + length tl" unfolding tl(1) by (simp add: quoted_def)
  let ?pre = "pre @ g @ quoted v"
  have sub: "substr s (Suc (length pre + length g)) (length v) = v" by (simp add: s substr_def)
  have l: "length ?pre = Suc (Suc (length pre + length g + length v))" by (simp add: quoted_def)
  have step: "json_strings_loop s ?e (length pre) res = json_strings_loop s ?e (length ?pre) (res @ [v])"
    unfolding e l using json_strings_loop.simps [of s "length pre + length g + length v + 2 + length tl" "length pre" res]
    by (simp add: o c sub)
  show ?case
  proof (cases "vs = []")
    case True
    then have "?e = length ?pre" using tl e by (simp add: quoted_def)
    then have "json_strings_loop s ?e (length ?pre) (res @ [v]) = res @ [v]"
      by (subst json_strings_loop.simps) simp
    with step True show ?thesis by (simp only: append_Nil append_assoc)
  next
    case False
    have "s = ?pre @ '','' @ commas (map quoted vs) @ post" using s tl(2) False by (simp add: quoted_def)
    from Cons.IH [OF _ False _ this, of "res @ [v]"]
    have "json_strings_loop s (length ?pre + length '','' + length (commas (map quoted vs))) (length ?pre) (res @ [v])
        = (res @ [v]) @ vs" using Cons.prems(1) by simp
    moreover have "length ?pre + length '','' + length (commas (map quoted vs)) = ?e"
      using tl(2) False e by (simp add: quoted_def)
    ultimately show ?thesis using step by (simp only: append_assoc append_Cons append_Nil)
  qed
qed simp

lemma bracket_notin_commas:
  "\<forall>v \<in> set vs. CHR '']'' \<notin> set v \<Longrightarrow> CHR '']'' \<notin> set (commas (map quoted vs))"
  by (induction vs rule: commas.induct) (auto simp: quoted_def)

lemma read_array:
  assumes "plain_key k" "\<forall>v \<in> set vs. quote \<notin> set v \<and> CHR '']'' \<notin> set v" "vs \<noteq> []"
    and "key_suffix k json = Some (quoted k @ '':['' @ commas (map quoted vs) @ '']'' @ r)"
  shows "extract_json_strings json k = vs"
proof -
  let ?s = "quoted k @ '':['' @ commas (map quoted vs) @ '']'' @ r" and ?pre = "quoted k @ '':[''"
  have k: "CHR ''['' \<notin> set (quoted k @ '':'')" "CHR '']'' \<notin> set (commas (map quoted vs))"
    using assms(1,2) bracket_notin_commas by (auto simp: plain_key_def quoted_def)
  have b: "find_char CHR ''['' ?s 0 = Some (length (quoted k) + 1)"
    using find_char_0 [OF k(1), of "commas (map quoted vs) @ '']'' @ r"] by simp
  have e: "find_char CHR '']'' ?s (length (quoted k) + 1) = Some (length ?pre + length (commas (map quoted vs)))"
    using find_char_at [of "length (quoted k) + 1" "quoted k @ '':''" "CHR '']''" "''['' @ commas (map quoted vs)" r] k(2)
    by simp
  have "json_strings_loop ?s (length ?pre + length ([] :: string) + length (commas (map quoted vs))) (length ?pre) [] = [] @ vs"
    using assms(2,3) by (intro loop_commas) simp_all
  then show ?thesis using b e assms(4) by (simp add: extract_json_strings_eq)
qed

lemma request_keys_plain:
  "plain_key ''command''" "plain_key ''generation''" "plain_key ''version_hash''" "plain_key ''suffix_blocks''"
  "plain_key ''exact_blocks''" "plain_key ''allowlist''"
  by (simp_all add: plain_key_def)

lemma plainD:
  assumes "plain v"
  shows "quote \<notin> set v" "CHR '']'' \<notin> set v" "k \<in> set request_keys \<Longrightarrow> v \<noteq> k"
  using assms by (auto simp: plain_def)

lemma key_suffix_start:
  assumes "plain_key k" "k \<noteq> ''command''" "k \<noteq> ''APPLY_POLICY''" "field_end r"
  shows "key_suffix k (''{'' @ quoted ''command'' @ '':'' @ quoted ''APPLY_POLICY'' @ r) = key_suffix k r"
proof -
  have "key_suffix k (''{'' @ quoted ''command'' @ '':'' @ quoted ''APPLY_POLICY'' @ r) =
      key_suffix k (quoted ''command'' @ '':'' @ quoted ''APPLY_POLICY'' @ r)"
    by (rule key_suffix_gap) simp
  also have "\<dots> = key_suffix k (quoted ''APPLY_POLICY'' @ r)"
    using assms(2) by (intro skip_name [OF assms(1) request_keys_plain(1)]) auto
  also have "\<dots> = key_suffix k r" using assms by (intro skip_value) auto
  finally show ?thesis .
qed

section \<open>The whole request\<close>

text \<open>What every key meets in front of a rest \<open>r\<close> of the request, and the end of the request.\<close>

lemma key_suffix_closing: "key_suffix k (CHR ''}'' # newline) = None"
  using key_suffix_gap [of "''}'' @ newline" k "[]"] by (simp add: newline_def)

lemma skip_fields:
  assumes "plain_key k" "field_end r" "k \<in> set request_keys"
  shows "k \<noteq> ''generation'' \<Longrightarrow> key_suffix k (number_field ''generation'' n @ r) = key_suffix k r"
    "k \<noteq> ''version_hash'' \<Longrightarrow> plain v \<Longrightarrow> key_suffix k (string_field ''version_hash'' v @ r) = key_suffix k r"
    "k \<noteq> p \<Longrightarrow> plain_key p \<Longrightarrow> \<forall>v \<in> set vs. plain v \<Longrightarrow> key_suffix k (array_field p vs @ r) = key_suffix k r"
proof -
  show "k \<noteq> ''generation'' \<Longrightarrow> key_suffix k (number_field ''generation'' n @ r) = key_suffix k r"
    by (rule skip_number_field [OF assms(1) request_keys_plain(2)]) auto
  show "k \<noteq> ''version_hash'' \<Longrightarrow> plain v \<Longrightarrow> key_suffix k (string_field ''version_hash'' v @ r) = key_suffix k r"
    by (rule skip_string_field [OF assms(1) request_keys_plain(3) _ _ _ assms(2)]) (use plainD assms(3) in auto)
  show "k \<noteq> p \<Longrightarrow> plain_key p \<Longrightarrow> \<forall>v \<in> set vs. plain v \<Longrightarrow> key_suffix k (array_field p vs @ r) = key_suffix k r"
    by (rule skip_array_field [OF assms(1)]) (use plainD assms(3) in auto)
qed

lemma start_in_request:
  assumes "k \<in> set request_keys" "k \<noteq> ''command''" "field_end r"
  shows "key_suffix k (''{'' @ quoted ''command'' @ '':'' @ quoted ''APPLY_POLICY'' @ r) = key_suffix k r"
  using assms request_keys_plain by (intro key_suffix_start) (auto simp: request_keys_def)

lemma keys_in_request:
  "''generation'' \<in> set request_keys" "''version_hash'' \<in> set request_keys"
  "''suffix_blocks'' \<in> set request_keys" "''exact_blocks'' \<in> set request_keys" "''allowlist'' \<in> set request_keys"
  by (simp_all add: request_keys_def)

lemma request_command:
  "extract_json_string (policy_request g h ss es als) ''command'' = ''APPLY_POLICY''"
proof (rule read_string)
  show "key_suffix ''command'' (policy_request g h ss es als) = Some (quoted ''command'' @ '':'' @ quoted ''APPLY_POLICY'' @
      number_field ''generation'' g @ string_field ''version_hash'' h @ array_field ''suffix_blocks'' ss @
      array_field ''exact_blocks'' es @ array_field ''allowlist'' als @ ''}'' @ newline)"
    unfolding policy_request_def by (subst key_suffix_gap) (simp_all only: key_suffix_found, simp)
qed simp

definition plain_request :: "nat \<Rightarrow> string \<Rightarrow> string list \<Rightarrow> string list \<Rightarrow> string list \<Rightarrow> bool" where
  "plain_request g h ss es als \<longleftrightarrow> g < 2 ^ 64 \<and> plain h \<and> (\<forall>v \<in> set ss. plain v) \<and>
     (\<forall>v \<in> set es. plain v) \<and> (\<forall>v \<in> set als. plain v)"

lemmas skip_rules = skip_fields request_keys_plain keys_in_request key_suffix_closing

lemma request_generation:
  assumes "plain_request g h ss es als"
  shows "extract_json_uint64 (policy_request g h ss es als) ''generation'' = word_of_nat g"
proof -
  let ?r = "string_field ''version_hash'' h @ array_field ''suffix_blocks'' ss @
      array_field ''exact_blocks'' es @ array_field ''allowlist'' als @ CHR ''}'' # newline"
  have 1: "key_suffix ''generation'' (policy_request g h ss es als) = key_suffix ''generation'' (number_field ''generation'' g @ ?r)"
    using start_in_request [of "''generation''"] by (simp add: policy_request_def keys_in_request)
  show ?thesis
  proof (cases "g = 0")
    case True
    have "key_suffix ''generation'' ?r = None" using assms by (simp add: plain_request_def skip_rules)
    then show ?thesis using 1 True by (simp add: number_field_def extract_json_uint64_eq)
  next
    case False
    have "key_suffix ''generation'' (policy_request g h ss es als) = Some (quoted ''generation'' @ '':'' @ dec_string g @ ?r)"
      using 1 False key_suffix_found by (simp add: number_field_def skip_comma)
    then show ?thesis
      using assms by (intro read_number [OF request_keys_plain(2)]) (simp_all add: plain_request_def)
  qed
qed

lemma request_version_hash:
  assumes "plain_request g h ss es als"
  shows "extract_json_string (policy_request g h ss es als) ''version_hash'' = h"
proof -
  let ?r = "array_field ''suffix_blocks'' ss @
      array_field ''exact_blocks'' es @ array_field ''allowlist'' als @ CHR ''}'' # newline"
  have 1: "key_suffix ''version_hash'' (policy_request g h ss es als) = key_suffix ''version_hash'' (string_field ''version_hash'' h @ ?r)"
    using start_in_request [of "''version_hash''"] by (simp add: policy_request_def skip_rules)
  show ?thesis
  proof (cases "h = []")
    case True
    have "key_suffix ''version_hash'' ?r = None" using assms by (simp add: plain_request_def skip_rules)
    then show ?thesis using 1 True by (simp add: string_field_def extract_json_string_eq)
  next
    case False
    have "key_suffix ''version_hash'' (policy_request g h ss es als) = Some (quoted ''version_hash'' @ '':'' @ quoted h @ ?r)"
      using 1 False key_suffix_found by (simp add: string_field_def skip_comma)
    then show ?thesis using assms by (intro read_string) (simp_all add: plain_request_def plainD)
  qed
qed

lemma read_array_field:
  assumes "plain_key k" "\<forall>v \<in> set vs. plain v" "key_suffix k json = key_suffix k (array_field k vs @ r)"
    and "key_suffix k r = None"
  shows "extract_json_strings json k = vs"
proof (cases "vs = []")
  case True
  then show ?thesis using assms by (simp add: extract_json_strings_eq array_field_def)
next
  case False
  then have "key_suffix k json = Some (quoted k @ '':['' @ commas (map quoted vs) @ '']'' @ r)"
    using assms(3) key_suffix_found by (simp add: array_field_def skip_comma)
  then show ?thesis using assms(1,2) False by (intro read_array) (auto simp: plainD)
qed

lemma request_arrays:
  assumes "plain_request g h ss es als"
  shows "extract_json_strings (policy_request g h ss es als) ''suffix_blocks'' = ss"
    "extract_json_strings (policy_request g h ss es als) ''exact_blocks'' = es"
    "extract_json_strings (policy_request g h ss es als) ''allowlist'' = als"
proof -
  let ?r3 = "CHR ''}'' # newline" and ?r2 = "array_field ''allowlist'' als @ CHR ''}'' # newline"
    and ?r1 = "array_field ''exact_blocks'' es @ array_field ''allowlist'' als @ CHR ''}'' # newline"
  have s: "key_suffix ''suffix_blocks'' (policy_request g h ss es als) =
      key_suffix ''suffix_blocks'' (array_field ''suffix_blocks'' ss @ ?r1)"
    and e: "key_suffix ''exact_blocks'' (policy_request g h ss es als) =
      key_suffix ''exact_blocks'' (array_field ''exact_blocks'' es @ ?r2)"
    and a: "key_suffix ''allowlist'' (policy_request g h ss es als) =
      key_suffix ''allowlist'' (array_field ''allowlist'' als @ ?r3)"
    using assms start_in_request [of "''suffix_blocks''"] start_in_request [of "''exact_blocks''"]
      start_in_request [of "''allowlist''"]
    by (simp_all add: policy_request_def plain_request_def skip_rules)
  have "key_suffix ''suffix_blocks'' ?r1 = None" "key_suffix ''exact_blocks'' ?r2 = None"
    "key_suffix ''allowlist'' ?r3 = None"
    using assms by (simp_all add: plain_request_def skip_rules)
  then show "extract_json_strings (policy_request g h ss es als) ''suffix_blocks'' = ss"
    "extract_json_strings (policy_request g h ss es als) ''exact_blocks'' = es"
    "extract_json_strings (policy_request g h ss es als) ''allowlist'' = als"
    using assms read_array_field [OF _ _ s] read_array_field [OF _ _ e] read_array_field [OF _ _ a] request_keys_plain
    by (simp_all add: plain_request_def)
qed

lemma build_candidate_request:
  assumes "plain_request g h ss es als"
  shows "build_candidate (policy_request g h ss es als) =
    \<lparr>generation = word_of_nat g, version_hash = h,
     ps_suffix_trie = build_trie (zip ss (map (\<lambda>i. word_of_nat (i + 1)) [0..<length ss])),
     exact_blocks = set es, allowlist = set als\<rparr>"
proof -
  note r = request_generation [OF assms] request_version_hash [OF assms] request_arrays [OF assms]
  have t: "insert_suffixes empty_trie 0 ss = build_trie (zip ss (map (\<lambda>i. word_of_nat (i + 1)) [0..<length ss]))"
    unfolding insert_suffixes_build build_trie_def by simp
  show ?thesis
    unfolding build_candidate_def r using t by (simp add: new_snapshot_def)
qed

lemma serve_short:
  assumes "length data \<le> 8191" "data \<noteq> []" "CHR 0x00 \<notin> set data"
  shows "serve_connection data m = (Some (fst (handle_command data m)), snd (handle_command data m))"
proof -
  have "ipc_request data = takeWhile (\<lambda>c. c \<noteq> CHR 0x00) data"
    using assms(1) by (simp add: ipc_request_def)
  also have "\<dots> = data" using assms(3) by (auto simp: takeWhile_eq_all_conv)
  finally show ?thesis using assms(1,2) by (simp add: serve_connection_def case_prod_beta)
qed

section \<open>Properties\<close>

text \<open>
  Property C29 (policy requests round-trip).  A request as the control plane writes it (fields in its
  order, empty ones omitted), which fits the buffer and whose strings contain no quote, no closing
  bracket, no NUL and are none of the six key names, is read back exactly: the candidate has its
  generation, version hash, exact blocks and allowlist, and its suffix rules numbered from 1.  The
  candidate is then installed, and the answer says so, when its generation is above the current one and
  its hash is not empty; otherwise the active policy stays and the answer gives the reason.
\<close>

theorem ipc_policy_roundtrip:
  assumes "plain_request g h ss es als" "CHR 0x00 \<notin> set (policy_request g h ss es als)"
    and "length (policy_request g h ss es als) \<le> 8191"
  defines "c \<equiv> \<lparr>generation = word_of_nat g, version_hash = h,
     ps_suffix_trie = build_trie (zip ss (map (\<lambda>i. word_of_nat (i + 1)) [0..<length ss])),
     exact_blocks = set es, allowlist = set als\<rparr>"
  shows "serve_connection (policy_request g h ss es als) m =
    (if global_generation m < word_of_nat g \<and> h \<noteq> []
     then (Some (accepted_text (m\<lparr>active_snapshot := c, global_generation := word_of_nat g\<rparr>) h),
           m\<lparr>active_snapshot := c, global_generation := word_of_nat g\<rparr>)
     else (Some (rejected_text m (if word_of_nat g \<le> global_generation m
                                  then ''Candidate generation must be > active generation''
                                  else ''Candidate missing cryptographic version hash'')), m))"
proof -
  have "policy_request g h ss es als \<noteq> []" by (simp add: policy_request_def)
  from serve_short [OF assms(3) this assms(2)] show ?thesis
    using build_candidate_request [OF assms(1)] handle_command_apply [OF request_command, of g h ss es als m]
    by (simp add: Let_def c_def acceptable_def)
qed

theorem ipc_policy_roundtrip_witness:
  "fst (serve_connection (policy_request 2 ''v2'' [''ads.test''] [] [''safe.ads.test'']) init_manager) \<noteq> None \<and>
   global_generation (snd (serve_connection (policy_request 2 ''v2'' [''ads.test''] [] [''safe.ads.test'']) init_manager)) = 2"
proof -
  have "plain_request 2 ''v2'' [''ads.test''] [] [''safe.ads.test'']"
    by (simp add: plain_request_def plain_def request_keys_def)
  moreover have "CHR 0x00 \<notin> set (policy_request 2 ''v2'' [''ads.test''] [] [''safe.ads.test''])"
    "length (policy_request 2 ''v2'' [''ads.test''] [] [''safe.ads.test'']) \<le> 8191" by code_simp+
  ultimately show ?thesis
    by (simp add: ipc_policy_roundtrip init_manager_def)
qed

text \<open>
  Property C26 (the lists of a request decide).  Under the policy that a request of plain strings describes, a
  name is answered NXDOMAIN exactly when it is not literally on the allowlist and either literally among the
  exact blocks or covered by a suffix rule, whatever the order and the repetitions in the lists; it is
  allowed otherwise.  When a suffix rule is the reason, the rule id reported is the position in the list,
  from 1, of a covering rule with the fewest labels, the first of those.
\<close>

theorem request_lists_decide:
  fixes n :: string
  assumes "plain_request g h ss es als"
  defines "d \<equiv> snapshot_evaluate (build_candidate (policy_request g h ss es als)) n"
  shows "dec_action d = (if n \<notin> set als \<and> (n \<in> set es \<or> (\<exists>s \<in> set ss. rule_covers s n)) then BLOCK_NXDOMAIN else ALLOW) \<and>
    (dec_reason d = ''SUFFIX_TRIE_BLOCK'' \<longrightarrow> (\<exists>i < length ss.
       matched_rule_id d = word_of_nat (i + 1) \<and> rule_covers (ss ! i) n \<and>
       (\<forall>j < length ss. rule_covers (ss ! j) n \<longrightarrow>
          length (labels_of (ss ! i)) < length (labels_of (ss ! j)) \<or>
          length (labels_of (ss ! i)) = length (labels_of (ss ! j)) \<and> i \<le> j)))"
proof -
  let ?f = "\<lambda>i. word_of_nat (i + 1) :: u32"
  obtain b out where m: "trie_matches (build_trie (zip ss (map ?f [0..<length ss]))) n = (b, out)" by force
  note r = build_reports [OF m]
  let ?s = "build_candidate (policy_request g h ss es als)"
  have s: "allowlist ?s = set als" "exact_blocks ?s = set es"
    "ps_suffix_trie ?s = build_trie (zip ss (map ?f [0..<length ss]))"
    unfolding build_candidate_request [OF assms(1)] by simp_all
  have "dec_action d = (if n \<notin> set als \<and> (n \<in> set es \<or> (\<exists>s \<in> set ss. rule_covers s n)) then BLOCK_NXDOMAIN else ALLOW)"
    unfolding d_def snapshot_action policy_blocks_def s m fst_conv r(1) by (rule refl)
  moreover have "out = Some (matched_rule_id d)" if "dec_reason d = ''SUFFIX_TRIE_BLOCK''"
    unfolding d_def using snapshot_suffix_reason [OF that [unfolded d_def] m [folded s(3)] trie.lookup_out_param [OF m]] .
  ultimately show ?thesis using r(2) by blast
qed

theorem request_lists_decide_witness:
  "let d = snapshot_evaluate (build_candidate (policy_request 2 ''v2'' [''www.ads.test'', ''ads.test''] [] [''safe.ads.test'']))
   in dec_action (d ''x.www.ads.test'') = BLOCK_NXDOMAIN \<and> matched_rule_id (d ''x.www.ads.test'') = 2 \<and>
      dec_action (d ''safe.ads.test'') = ALLOW \<and> dec_action (d ''ads.test.org'') = ALLOW"
proof -
  let ?ss = "[''www.ads.test'', ''ads.test'']"
  have plain: "plain_request 2 ''v2'' ?ss [] [''safe.ads.test'']"
    by (simp add: plain_request_def plain_def request_keys_def)
  let ?d = "snapshot_evaluate (build_candidate (policy_request 2 ''v2'' ?ss [] [''safe.ads.test'']))"
  note decide = request_lists_decide [OF plain]
  have l: "labels_of ''www.ads.test'' = [''www'', ''ads'', ''test'']" "labels_of ''ads.test'' = [''ads'', ''test'']"
    "labels_of ''x.www.ads.test'' = [''x'', ''www'', ''ads'', ''test'']" "labels_of ''ads.test.org'' = [''ads'', ''test'', ''org'']"
    by code_simp+
  have c: "rule_covers ''www.ads.test'' ''x.www.ads.test''" "rule_covers ''ads.test'' ''x.www.ads.test''"
    "\<not> rule_covers ''www.ads.test'' ''ads.test.org''" "\<not> rule_covers ''ads.test'' ''ads.test.org''"
    by (simp_all add: rule_covers_def l suffix_Cons)
  have "dec_reason (?d ''x.www.ads.test'') = ''SUFFIX_TRIE_BLOCK''" by code_simp
  from decide [of "''x.www.ads.test''", THEN conjunct2, THEN mp, OF this] obtain i where i: "i < length ?ss" "matched_rule_id (?d ''x.www.ads.test'') = word_of_nat (i + 1)"
      "\<forall>j < length ?ss. rule_covers (?ss ! j) ''x.www.ads.test'' \<longrightarrow> length (labels_of (?ss ! i)) < length (labels_of (?ss ! j)) \<or>
        length (labels_of (?ss ! i)) = length (labels_of (?ss ! j)) \<and> i \<le> j"
    by blast
  have "i = 1" using i(1) i(3) [rule_format, of 1] c(2) l by (cases i) auto
  then have "matched_rule_id (?d ''x.www.ads.test'') = 2" using i(2) by simp
  moreover have "dec_action (?d ''x.www.ads.test'') = BLOCK_NXDOMAIN"
    using decide [of "''x.www.ads.test''", THEN conjunct1] c(1) by simp
  moreover have "dec_action (?d ''safe.ads.test'') = ALLOW"
    using decide [of "''safe.ads.test''", THEN conjunct1] by simp
  moreover have "dec_action (?d ''ads.test.org'') = ALLOW"
    using decide [of "''ads.test.org''", THEN conjunct1] c(3,4) by simp
  ultimately show ?thesis by (simp only: Let_def)
qed

text \<open>
  Further fact (what a command may change).  Whatever bytes arrive, the manager afterwards is the manager
  before, or the one with the parsed candidate installed; the latter only for the command
  \<open>APPLY_POLICY\<close> and a candidate of a higher generation with a version hash.  The generation never
  decreases, and it stays that of the active snapshot.
\<close>

theorem ipc_changes_only_by_acceptable_policy:
  assumes "manager_inv m"
  shows "(snd (serve_connection data m) = m \<or>
      (let c = build_candidate (ipc_request data) in
       extract_json_string (ipc_request data) ''command'' = ''APPLY_POLICY'' \<and>
       global_generation m < generation c \<and> version_hash c \<noteq> [] \<and>
       snd (serve_connection data m) = m\<lparr>active_snapshot := c, global_generation := generation c\<rparr>)) \<and>
    global_generation m \<le> global_generation (snd (serve_connection data m)) \<and>
    manager_inv (snd (serve_connection data m))"
  using serve_connection_inv [OF assms, of data] handle_command_manager [of "ipc_request data" m]
    apply_candidate_Some [of m "build_candidate (ipc_request data)"]
  by (auto simp: serve_connection_def Let_def case_prod_beta acceptable_def split: if_splits)

theorem ipc_changes_only_by_acceptable_policy_witness:
  "manager_inv (snd (serve_connection ''x'' init_manager))"
  using ipc_changes_only_by_acceptable_policy [OF manager_inv_init, of "''x''"] by blast

definition truncated_request :: string where
  "truncated_request =
     ''{\"command\":\"APPLY_POLICY\",\"generation\":2,\"version_hash\":\"v2\",\"suffix_blocks\":[\"ads.test\",\"bad.te''"

text \<open>
  Further fact (a truncated policy is installed).  A request cut inside its list of suffix blocks, as a
  short \<open>read\<close> or the 8191-byte buffer cuts it, is not rejected: the missing bracket makes the list
  empty, and the policy without any rule replaces the active one and is confirmed with status OK.
\<close>

theorem truncated_policy_installed:
  "fst (serve_connection truncated_request init_manager) =
     Some (''{\"status\":\"OK\",\"active_generation\":2,\"version_hash\":\"v2\"}'' @ newline) \<and>
   global_generation (snd (serve_connection truncated_request init_manager)) = 2 \<and>
   trie_size (ps_suffix_trie (active_snapshot (snd (serve_connection truncated_request init_manager)))) = 0"
proof -
  have "length truncated_request \<le> 8191" "truncated_request \<noteq> []" "CHR 0x00 \<notin> set truncated_request"
    by code_simp+
  note serve = serve_short [OF this]
  have "fst (handle_command truncated_request init_manager) =
      ''{\"status\":\"OK\",\"active_generation\":2,\"version_hash\":\"v2\"}'' @ newline"
    "global_generation (snd (handle_command truncated_request init_manager)) = 2"
    "trie_size (ps_suffix_trie (active_snapshot (snd (handle_command truncated_request init_manager)))) = 0"
    by code_simp+
  then show ?thesis by (simp add: serve)
qed

definition confusing_request :: string where
  "confusing_request = policy_request 2 ''v2'' [''allowlist''] [''evil.test''] []"

text \<open>
  Further fact (a value that is a key name).  The search for a key does not tell keys from values.  With
  the suffix rule \<open>allowlist\<close> in front of the exact block \<open>evil.test\<close>, the array of exact blocks is read
  as the allowlist as well, and the installed policy allows \<open>evil.test\<close>.
\<close>

theorem key_named_value_confuses_policy:
  "global_generation (snd (serve_connection confusing_request init_manager)) = 2 \<and>
   ''evil.test'' \<in> exact_blocks (active_snapshot (snd (serve_connection confusing_request init_manager))) \<and>
   ''evil.test'' \<in> allowlist (active_snapshot (snd (serve_connection confusing_request init_manager))) \<and>
   \<not> policy_blocks (active_snapshot (snd (serve_connection confusing_request init_manager))) ''evil.test''"
proof -
  have "length confusing_request \<le> 8191" "confusing_request \<noteq> []" "CHR 0x00 \<notin> set confusing_request"
    by code_simp+
  note serve = serve_short [OF this]
  have "global_generation (snd (handle_command confusing_request init_manager)) = 2"
    "''evil.test'' \<in> exact_blocks (active_snapshot (snd (handle_command confusing_request init_manager)))"
    "''evil.test'' \<in> allowlist (active_snapshot (snd (handle_command confusing_request init_manager)))"
    by code_simp+
  then show ?thesis by (simp add: serve policy_blocks_def)
qed

end
