(* ===== verification/Entropy.thy ===== *)
theory Entropy
  imports Complex_Main Prelude
begin

text \<open>
  The entropy heuristic (\<open>include/detection/entropy.h\<close>).  \<open>double\<close> is modelled by the real numbers:
  rounding, which can only matter for a label whose entropy is within rounding error of the threshold,
  is not.
\<close>

section \<open>The code\<close>

definition char_freq :: "string \<Rightarrow> nat \<Rightarrow> nat" where
  "char_freq s n = length (filter (\<lambda>c. of_char c = n) s)"

definition entropy_calculate :: "string \<Rightarrow> real" where
  "entropy_calculate s =
     (if s = [] then 0
      else let len = real (length s) in
        foldl (\<lambda>entropy n. let count = char_freq s n in
                 if count > 0 then let p = real count / len in entropy - p * log 2 p else entropy)
          0 [0..<256])"

definition leftmost_label :: "string \<Rightarrow> string" where
  "leftmost_label domain =
     (case find_char CHR ''.'' domain 0 of Some first_dot \<Rightarrow> take first_dot domain | None \<Rightarrow> domain)"

definition is_suspicious_entropy :: "string \<Rightarrow> real \<Rightarrow> bool" where
  "is_suspicious_entropy domain threshold =
     (let label = leftmost_label domain in
      if length label < 8 then False else entropy_calculate label \<ge> threshold)"

definition default_threshold :: real where
  "default_threshold = 38 / 10"

section \<open>The loop as a sum\<close>

definition freq_of :: "string \<Rightarrow> nat \<Rightarrow> real" where
  "freq_of s n = real (char_freq s n) / real (length s)"

definition symbols :: "string \<Rightarrow> nat set" where
  "symbols s = of_char ` set s"

lemma char_freq_pos_iff: "0 < char_freq s n \<longleftrightarrow> n \<in> symbols s"
  by (auto simp: char_freq_def symbols_def filter_empty_conv)

lemma symbols_less: "symbols s \<subseteq> {0..<256}"
  by (auto simp: symbols_def)

lemma finite_symbols [simp]: "finite (symbols s)"
  by (simp add: symbols_def)

lemma foldl_sum:
  "foldl (\<lambda>e n. if P n then e - f n else e) (a :: real) ns = a - (\<Sum>n \<leftarrow> filter P ns. f n)"
  by (induction ns arbitrary: a) simp_all

lemma entropy_sum: "entropy_calculate s = - (\<Sum>n \<in> symbols s. freq_of s n * log 2 (freq_of s n))"
proof (cases "s = []")
  case True
  then show ?thesis by (simp add: entropy_calculate_def symbols_def)
next
  case False
  have "set (filter (\<lambda>n. 0 < char_freq s n) [0..<256]) = symbols s"
    using symbols_less [of s] by (auto simp: char_freq_pos_iff)
  then have "(\<Sum>n \<leftarrow> filter (\<lambda>n. 0 < char_freq s n) [0..<256]. freq_of s n * log 2 (freq_of s n)) =
      (\<Sum>n \<in> symbols s. freq_of s n * log 2 (freq_of s n))"
    by (simp add: sum_list_distinct_conv_sum_set)
  with False show ?thesis
    unfolding entropy_calculate_def Let_def freq_of_def [symmetric]
    using foldl_sum [of "\<lambda>n. 0 < char_freq s n" "\<lambda>n. freq_of s n * log 2 (freq_of s n)" 0 "[0..<256]"] by simp
qed

lemma sum_freq:
  assumes "s \<noteq> []"
  shows "(\<Sum>n \<in> symbols s. freq_of s n) = 1"
proof -
  have "(\<Sum>n \<in> symbols s. char_freq s n) = length s"
  proof (induction s)
    case (Cons c s)
    have cf: "char_freq (c # s) n = (if n = of_char c then 1 else 0) + char_freq s n" for n
      by (auto simp: char_freq_def)
    have "(\<Sum>n \<in> symbols (c # s). char_freq s n) = (\<Sum>n \<in> symbols s. char_freq s n)"
      using char_freq_pos_iff [of s] by (intro sum.mono_neutral_right) (auto simp: symbols_def)
    moreover have "of_char c \<in> symbols (c # s)" by (simp add: symbols_def)
    ultimately show ?case using Cons by (simp add: cf sum.distrib)
  qed (simp add: symbols_def)
  then have "(\<Sum>n \<in> symbols s. real (char_freq s n)) = real (length s)"
    by (metis of_nat_sum)
  then show ?thesis using assms by (simp add: freq_of_def sum_divide_distrib [symmetric])
qed

lemma freq_of_pos: "n \<in> symbols s \<Longrightarrow> 0 < freq_of s n"
  using char_freq_pos_iff [of s n] by (cases "s = []") (simp_all add: freq_of_def symbols_def)

lemma freq_of_le_1: "freq_of s n \<le> 1"
  by (cases "s = []") (simp_all add: freq_of_def char_freq_def)

section \<open>Bounds\<close>

lemma entropy_nonneg: "0 \<le> entropy_calculate s"
  unfolding entropy_sum using freq_of_pos freq_of_le_1
  by (intro neg_0_le_iff_le [THEN iffD2] sum_nonpos mult_nonneg_nonpos) (auto intro: less_imp_le)

text \<open>Gibbs' inequality against the uniform distribution on the symbols that occur.\<close>

lemma entropy_le_log_card:
  assumes "s \<noteq> []"
  shows "entropy_calculate s \<le> log 2 (card (symbols s))"
proof -
  let ?k = "real (card (symbols s))" and ?p = "freq_of s"
  have k: "0 < ?k" using assms by (simp add: symbols_def card_gt_0_iff)
  have "entropy_calculate s - log 2 ?k = (\<Sum>n \<in> symbols s. - (?p n * log 2 (?p n)) - ?p n * log 2 ?k)"
    using sum_freq [OF assms] by (simp add: entropy_sum sum_subtractf sum_negf sum_distrib_right [symmetric])
  also have "\<dots> \<le> (\<Sum>n \<in> symbols s. (1 / ?k - ?p n) / ln 2)"
  proof (rule sum_mono)
    fix n assume n: "n \<in> symbols s"
    note p = freq_of_pos [OF n]
    have "- (?p n * log 2 (?p n)) - ?p n * log 2 ?k = ?p n * (ln (1 / (?p n * ?k)) / ln 2)"
    proof -
      have "- (x * log 2 x) - x * log 2 y = x * (ln (1 / (x * y)) / ln 2)" if "0 < x" "0 < y" for x y :: real
        using that by (simp add: log_def ln_div ln_mult field_simps)
      from this [OF p k] show ?thesis .
    qed
    also have "\<dots> \<le> ?p n * ((1 / (?p n * ?k) - 1) / ln 2)"
      using p k by (intro mult_left_mono divide_right_mono ln_le_minus_one) simp_all
    also have "\<dots> = (1 / ?k - ?p n) / ln 2"
    proof -
      have "x * ((1 / (x * y) - 1) / ln 2) = (1 / y - x) / ln 2" if "0 < x" "0 < y" for x y :: real
        using that by (simp add: field_simps)
      from this [OF p k] show ?thesis .
    qed
    finally show "- (?p n * log 2 (?p n)) - ?p n * log 2 ?k \<le> (1 / ?k - ?p n) / ln 2" .
  qed
  also have "\<dots> = 0"
    using sum_freq [OF assms] k by (simp add: sum_divide_distrib [symmetric] sum_subtractf)
      (auto simp: card_gt_0_iff)
  finally show ?thesis by simp
qed

lemma card_symbols: "card (symbols s) = card (set s)"
proof -
  have "inj_on (of_char :: char \<Rightarrow> nat) (set s)" by (auto simp: inj_on_def)
  then show ?thesis by (simp add: symbols_def card_image)
qed

lemma log2_16: "log 2 16 = 4" and log2_256: "log 2 256 = 8"
  using log_pow_cancel [of 2 4] log_pow_cancel [of 2 8] by simp_all

text \<open>A text without repetition has the entropy of the uniform distribution.\<close>

lemma entropy_distinct:
  assumes "distinct s" "s \<noteq> []"
  shows "entropy_calculate s = log 2 (length s)"
proof -
  have "length (filter (\<lambda>c. of_char c = n) s) = 1" if n: "n \<in> symbols s" for n
  proof -
    obtain c where c: "c \<in> set s" "n = of_char c" using n by (auto simp: symbols_def)
    have "set (filter (\<lambda>d. of_char d = n) s) = {c}" using c by auto
    then show ?thesis using distinct_card [of "filter (\<lambda>d. of_char d = n) s"] assms(1) by simp
  qed
  then have "entropy_calculate s = - (\<Sum>n \<in> symbols s. 1 / real (length s) * log 2 (1 / real (length s)))"
    by (simp add: entropy_sum freq_of_def char_freq_def)
  also have "\<dots> = log 2 (length s)"
    using assms by (simp add: card_symbols distinct_card log_divide)
  finally show ?thesis .
qed

section \<open>Properties\<close>

text \<open>
  Further fact (what raises an alert).  With the threshold of 3.8 bits the data plane raises the
  alert only for a name whose leftmost label has at least 8 bytes and at least 14 different ones; 13
  different bytes never reach the threshold, however long the label is.
\<close>

theorem suspicious_needs_14_symbols:
  assumes "is_suspicious_entropy domain default_threshold"
  shows "14 \<le> card (set (leftmost_label domain)) \<and> 14 \<le> length (leftmost_label domain)"
proof -
  let ?l = "leftmost_label domain"
  have l: "8 \<le> length ?l" "38 / 10 \<le> entropy_calculate ?l"
    using assms by (auto simp: is_suspicious_entropy_def Let_def default_threshold_def split: if_splits)
  then have ne: "?l \<noteq> []" by auto
  let ?k = "card (symbols ?l)"
  have k: "0 < ?k" using ne by (simp add: symbols_def card_gt_0_iff)
  have "38 / 10 \<le> log 2 ?k" using entropy_le_log_card [OF ne] l(2) by linarith
  then have "19 \<le> log 2 (real ?k ^ 5)" using k by (simp add: log_nat_power)
  then have "2 powr 19 \<le> real ?k ^ 5" using k by (subst (asm) le_log_iff) simp_all
  then have "real (2 ^ 19) \<le> real (?k ^ 5)" by simp
  then have "2 ^ 19 \<le> ?k ^ 5" by (simp only: of_nat_le_iff)
  moreover have "?k ^ 5 \<le> 13 ^ 5" if "?k \<le> 13" using that by (rule power_mono) simp
  ultimately have "14 \<le> ?k" by fastforce
  then show ?thesis using card_length [of ?l] card_symbols [of ?l] by simp
qed

theorem suspicious_needs_14_symbols_witness:
  "is_suspicious_entropy ''0123456789abcdef.ex'' default_threshold \<and>
   14 \<le> card (set (leftmost_label ''0123456789abcdef.ex''))"
proof -
  have l: "leftmost_label ''0123456789abcdef.ex'' = ''0123456789abcdef''" by code_simp
  have "distinct ''0123456789abcdef''" by simp
  from entropy_distinct [OF this] have "entropy_calculate ''0123456789abcdef'' = 4" by (simp add: log2_16)
  then have "is_suspicious_entropy ''0123456789abcdef.ex'' default_threshold"
    by (simp add: is_suspicious_entropy_def l default_threshold_def)
  with suspicious_needs_14_symbols [OF this] show ?thesis by blast
qed

text \<open>
  Further fact (range of the entropy).  The entropy of a text is at least 0 and at most the binary logarithm of
  the number of its different bytes, hence at most 8 bits.
\<close>

theorem entropy_bounds:
  assumes "s \<noteq> []"
  shows "0 \<le> entropy_calculate s \<and> entropy_calculate s \<le> log 2 (card (set s)) \<and> entropy_calculate s \<le> 8"
proof -
  note c = card_symbols [of s]
  have "card (symbols s) \<le> card {0..<256 :: nat}" by (rule card_mono) (simp_all add: symbols_less)
  then have "log 2 (card (symbols s)) \<le> log 2 256"
    using assms by (subst log_le_cancel_iff) (simp_all add: symbols_def card_gt_0_iff)
  then have "log 2 (card (symbols s)) \<le> 8" by (simp only: log2_256)
  then show ?thesis using entropy_nonneg entropy_le_log_card [OF assms] c by simp
qed

theorem entropy_bounds_witness: "entropy_calculate ''aaaa'' = 0"
  using entropy_bounds [of "''aaaa''"] by simp

end
