(* ===== verification/Dataplane.thy ===== *)
theory Dataplane
  imports Response Snapshot Cache Forwarder Ipc Entropy
begin

text \<open>
  The event loop (\<open>src/main.cpp\<close>): start-up with the seed policy, the handler of a client datagram, the
  handler of an upstream datagram and one turn of the loop, on the state of the three components it
  drives.  A handler returns what it sends, in order, with the new state; \<open>None\<close> stands for undefined
  behaviour or a drawing loop that does not end.  The console lines are not modelled, except the entropy
  alert.

  The packet path loads the snapshot and the generation separately, so \<open>handle_client\<close> takes both as
  arguments and its theorems hold for any pair; one turn of the loop loads them from the same
  manager (the interleavings with an update are in theory \<open>Concurrent_Dataplane\<close>).
\<close>

section \<open>State\<close>

record dataplane =
  dp_manager :: snapshot_manager
  dp_cache :: dns_cache
  dp_forwarder :: forwarder

datatype effect =
    ToClient sockaddr_in bytes
  | ToUpstream sockaddr_in bytes
  | Alert string

text \<open>
  The answers of the operating system in one handler: the three readings of the clock and whether
  \<open>sendto\<close> to the upstream succeeds.
\<close>

record env =
  lookup_now :: int
  forward_now :: int
  forward_sent :: bool
  insert_now :: int

text \<open>\<open>inet_addr("127.0.0.1")\<close> on a little-endian machine.\<close>

definition loopback_be :: u32 where
  "loopback_be = 0x0100007F"

section \<open>Handlers\<close>

definition handle_client ::
    "(nat \<Rightarrow> u16) \<Rightarrow> bool \<Rightarrow> env \<Rightarrow> policy_snapshot \<Rightarrow> u64 \<Rightarrow> bytes \<Rightarrow> sockaddr_in \<Rightarrow> dataplane \<Rightarrow>
     (effect list \<times> dataplane) option" where
  "handle_client draws quiet e snapshot current_gen buf addr s = do {
     parse_res \<leftarrow> parse buf;
     case parse_res of
       Err _ \<Rightarrow> Some ([], s)
     | Ok query \<Rightarrow>
         let name = qname (question query);
             alerts = (if is_suspicious_entropy name default_threshold \<and> \<not> quiet then [Alert name] else []);
             decision = snapshot_evaluate snapshot name
         in
         if dec_action decision = BLOCK_NXDOMAIN then do {
           resp \<leftarrow> build_error_response query NXDOMAIN;
           Some (alerts @ [ToClient addr resp], s)
         }
         else if dec_action decision = BLOCK_REFUSED then do {
           resp \<leftarrow> build_error_response query REFUSED;
           Some (alerts @ [ToClient addr resp], s)
         }
         else if name = ''sinkhole.test'' then do {
           resp \<leftarrow> build_sinkhole_response query loopback_be 60;
           Some (alerts @ [ToClient addr resp], s)
         }
         else do {
           (cached_opt, c) \<leftarrow> cache_lookup (lookup_now e) name (qtype (question query)) (qclass (question query))
              current_gen (dp_cache s);
           let s = s\<lparr>dp_cache := c\<rparr>;
           case cached_opt of
             Some entry \<Rightarrow>
               Some (alerts @ [ToClient addr (snd (translate_txid (ce_response entry) (wh_id (pp_header query))))], s)
           | None \<Rightarrow> do {
               (fwd_res, sent, f) \<leftarrow> forward_query draws (forward_now e) (forward_sent e) query addr (dp_forwarder s);
               let s = s\<lparr>dp_forwarder := f\<rparr>;
               let out = alerts @ map (\<lambda>(a, b). ToUpstream a b) sent;
               case fwd_res of
                 Ok _ \<Rightarrow> Some (out, s)
               | Err _ \<Rightarrow> do {
                   resp \<leftarrow> build_error_response query SERVFAIL;
                   Some (out @ [ToClient addr resp], s)
                 }
             }
         }
   }"

definition handle_upstream ::
    "env \<Rightarrow> u64 \<Rightarrow> bytes \<Rightarrow> sockaddr_in \<Rightarrow> dataplane \<Rightarrow> (effect list \<times> dataplane) option" where
  "handle_upstream e current_gen buf from_addr s = do {
     (val_res, f) \<leftarrow> validate_response buf from_addr (dp_forwarder s);
     let s = s\<lparr>dp_forwarder := f\<rparr>;
     case val_res of
       Err _ \<Rightarrow> Some ([], s)
     | Ok matched_tx \<Rightarrow> do {
         c \<leftarrow> cache_insert (insert_now e) (expected_qname matched_tx) (expected_qtype matched_tx) 1 buf 60
            current_gen (dp_cache s);
         let s = s\<lparr>dp_cache := c\<rparr>;
         Some ([ToClient (client_addr matched_tx) (snd (translate_txid buf (client_txid matched_tx)))], s)
       }
   }"

text \<open>
  One turn of the loop: \<open>recvfrom\<close> cuts a datagram at the 4096 bytes of \<open>rx_buf\<close>, an empty one is
  ignored; the client socket is served before the upstream socket.
\<close>

definition receive :: "bytes \<Rightarrow> bytes" where
  "receive datagram = take kMaxEdns0PayloadSize datagram"

definition client_event ::
    "(nat \<Rightarrow> u16) \<Rightarrow> bool \<Rightarrow> env \<Rightarrow> bytes \<times> sockaddr_in \<Rightarrow> dataplane \<Rightarrow> (effect list \<times> dataplane) option" where
  "client_event draws quiet e d s =
     (if receive (fst d) = [] then Some ([], s)
      else handle_client draws quiet e (active_snapshot (dp_manager s)) (global_generation (dp_manager s))
             (receive (fst d)) (snd d) s)"

definition upstream_event :: "env \<Rightarrow> bytes \<times> sockaddr_in \<Rightarrow> dataplane \<Rightarrow> (effect list \<times> dataplane) option" where
  "upstream_event e d s =
     (if receive (fst d) = [] then Some ([], s)
      else handle_upstream e (global_generation (dp_manager s)) (receive (fst d)) (snd d) s)"

definition when_ready ::
    "('d \<Rightarrow> dataplane \<Rightarrow> (effect list \<times> dataplane) option) \<Rightarrow> 'd option \<Rightarrow> dataplane \<Rightarrow> (effect list \<times> dataplane) option" where
  "when_ready handler d s = (case d of None \<Rightarrow> Some ([], s) | Some x \<Rightarrow> handler x s)"

definition loop_turn ::
    "(nat \<Rightarrow> u16) \<Rightarrow> bool \<Rightarrow> env \<Rightarrow> (bytes \<times> sockaddr_in) option \<Rightarrow> (bytes \<times> sockaddr_in) option \<Rightarrow> dataplane \<Rightarrow>
     (effect list \<times> dataplane) option" where
  "loop_turn draws quiet e client upstream s = do {
     (out1, s) \<leftarrow> when_ready (client_event draws quiet e) client s;
     (out2, s) \<leftarrow> when_ready (upstream_event e) upstream s;
     Some (out1 @ out2, s)
   }"

definition control_event :: "string \<Rightarrow> dataplane \<Rightarrow> dataplane" where
  "control_event data s = s\<lparr>dp_manager := snd (serve_connection data (dp_manager s))\<rparr>"

section \<open>Start-up\<close>

definition seed_policy :: policy_snapshot where
  "seed_policy = new_snapshot\<lparr>generation := 1, version_hash := ''bootstrap_v1'',
     ps_suffix_trie := trie_insert (trie_insert (ps_suffix_trie new_snapshot) ''blocked.test'' 1) ''doubleclick.net'' 2,
     exact_blocks := insert ''sinkhole.test'' (exact_blocks new_snapshot),
     allowlist := insert ''safe.doubleclick.net'' (allowlist new_snapshot)\<rparr>"

definition startup :: "forwarder \<Rightarrow> dataplane" where
  "startup f =
     \<lparr>dp_manager = snd (snd (apply_candidate init_manager (Some seed_policy))),
      dp_cache = new_cache 10000, dp_forwarder = f\<rparr>"

section \<open>Runs\<close>

datatype event =
    Turn env "(bytes \<times> sockaddr_in) option" "(bytes \<times> sockaddr_in) option"
  | Control string

fun dp_step :: "(nat \<Rightarrow> u16) \<Rightarrow> bool \<Rightarrow> event \<Rightarrow> dataplane \<Rightarrow> (effect list \<times> dataplane) option" where
  "dp_step draws quiet (Turn e client upstream) s = loop_turn draws quiet e client upstream s"
| "dp_step draws quiet (Control data) s = Some ([], control_event data s)"

fun dp_run :: "(nat \<Rightarrow> u16) \<Rightarrow> bool \<Rightarrow> event list \<Rightarrow> dataplane \<Rightarrow> (effect list \<times> dataplane) option" where
  "dp_run draws quiet [] s = Some ([], s)"
| "dp_run draws quiet (ev # evs) s = do {
     (out1, s) \<leftarrow> dp_step draws quiet ev s;
     (out2, s) \<leftarrow> dp_run draws quiet evs s;
     Some (out1 @ out2, s)
   }"

section \<open>The client handler without its checks\<close>

definition error_bytes :: "parsed_packet \<Rightarrow> rcode \<Rightarrow> bytes" where
  "error_bytes q rc = header_bytes (error_header q rc) @ question_bytes q"

definition sinkhole_bytes :: "parsed_packet \<Rightarrow> bytes" where
  "sinkhole_bytes q = header_bytes (sinkhole_header q) @ question_bytes q @ answer_bytes loopback_be 60"

definition alerts_for :: "bool \<Rightarrow> string \<Rightarrow> effect list" where
  "alerts_for quiet name = (if is_suspicious_entropy name default_threshold \<and> \<not> quiet then [Alert name] else [])"

definition with_id :: "u16 \<Rightarrow> bytes \<Rightarrow> bytes" where
  "with_id i buf = snd (translate_txid buf i)"

lemma builders:
  assumes "parse buf = Some (Ok q)"
  shows "build_error_response q rc = Some (error_bytes q rc)"
    "build_sinkhole_response q loopback_be 60 = Some (sinkhole_bytes q)"
  using parse_Ok_question [OF assms] build_error_response_eq [of q rc] build_sinkhole_response_eq [of q]
  by (simp_all add: error_bytes_def sinkhole_bytes_def)

lemma handle_client_Err: "parse buf = Some (Err x) \<Longrightarrow> handle_client draws quiet e snap g buf addr s = Some ([], s)"
  by (simp add: handle_client_def)

lemma handle_client_Ok:
  assumes "parse buf = Some (Ok q)"
  shows "handle_client draws quiet e snap g buf addr s =
    (if policy_blocks snap (qname (question q)) then
       Some (alerts_for quiet (qname (question q)) @ [ToClient addr (error_bytes q NXDOMAIN)], s)
     else if qname (question q) = ''sinkhole.test'' then
       Some (alerts_for quiet (qname (question q)) @ [ToClient addr (sinkhole_bytes q)], s)
     else case cache_lookup (lookup_now e) (qname (question q)) (qtype (question q)) (qclass (question q)) g (dp_cache s) of
       None \<Rightarrow> None
     | Some (Some entry, c) \<Rightarrow>
         Some (alerts_for quiet (qname (question q)) @
           [ToClient addr (with_id (wh_id (pp_header q)) (ce_response entry))], s\<lparr>dp_cache := c\<rparr>)
     | Some (None, c) \<Rightarrow>
         (case forward_query draws (forward_now e) (forward_sent e) q addr (dp_forwarder s) of
            None \<Rightarrow> None
          | Some (r, sent, f) \<Rightarrow>
              Some (alerts_for quiet (qname (question q)) @ map (\<lambda>(a, b). ToUpstream a b) sent @
                (if is_ok r then [] else [ToClient addr (error_bytes q SERVFAIL)]),
                s\<lparr>dp_cache := c, dp_forwarder := f\<rparr>)))"
proof -
  have act: "dec_action (snapshot_evaluate snap n) = BLOCK_NXDOMAIN \<longleftrightarrow> policy_blocks snap n"
    "dec_action (snapshot_evaluate snap n) \<noteq> BLOCK_REFUSED" for n
    by (simp_all add: snapshot_action)
  show ?thesis
    unfolding handle_client_def assms Option.bind.bind_lunit result.case Let_def act alerts_for_def [symmetric]
      builders [OF assms] with_id_def
    by (simp add: act split: option.split result.split prod.split) auto
qed

section \<open>The invariant\<close>

text \<open>
  \<open>C\<close> and \<open>U\<close> stand for the datagrams received from clients and on the upstream socket, with
  their senders; \<open>up\<close> is the upstream address.  \<open>packet_inv\<close> is the part of the invariant that the packet
  path needs while an update is between its two stores.
\<close>

type_synonym received = "(bytes \<times> sockaddr_in) set"

definition asked :: "received \<Rightarrow> sockaddr_in \<Rightarrow> parsed_packet \<Rightarrow> bool" where
  "asked C a q \<longleftrightarrow> (\<exists>buf. (buf, a) \<in> C \<and> parse buf = Some (Ok q))"

definition authentic :: "received \<Rightarrow> sockaddr_in \<Rightarrow> string \<Rightarrow> q_type \<Rightarrow> bytes \<Rightarrow> bool" where
  "authentic U up n t r \<longleftrightarrow> (r, up) \<in> U \<and>
     (\<exists>p. parse r = Some (Ok p) \<and> is_response (pp_header p) \<and> qname (question p) = n \<and> qtype (question p) = t)"

definition transaction_asked :: "received \<Rightarrow> pending_transaction \<Rightarrow> bool" where
  "transaction_asked C tx \<longleftrightarrow> (\<exists>q. asked C (client_addr tx) q \<and> client_txid tx = wh_id (pp_header q) \<and>
     expected_qname tx = qname (question q) \<and> expected_qtype tx = qtype (question q))"

definition entry_ok :: "received \<Rightarrow> sockaddr_in \<Rightarrow> u64 \<Rightarrow> question_key \<Rightarrow> content \<Rightarrow> bool" where
  "entry_ok U up g x v \<longleftrightarrow> snd (snd x) = 1 \<and> authentic U up (fst x) (fst (snd x)) (fst v) \<and> snd (snd v) \<le> g"

definition packet_inv :: "received \<Rightarrow> received \<Rightarrow> sockaddr_in \<Rightarrow> dataplane \<Rightarrow> bool" where
  "packet_inv C U up s \<longleftrightarrow>
     cache_ok (dp_cache s) \<and> fw_inv (dp_forwarder s) \<and>
     upstream_addr (dp_forwarder s) = up \<and> max_entries (dp_cache s) = 10000 \<and>
     (\<forall>x v. cache_content (dp_cache s) x = Some v \<longrightarrow> entry_ok U up (global_generation (dp_manager s)) x v) \<and>
     (\<forall>t tx. (t, tx) \<in> set (pending_tx (dp_forwarder s)) \<longrightarrow> transaction_asked C tx)"

definition dp_inv :: "received \<Rightarrow> received \<Rightarrow> sockaddr_in \<Rightarrow> dataplane \<Rightarrow> bool" where
  "dp_inv C U up s \<longleftrightarrow> manager_inv (dp_manager s) \<and> packet_inv C U up s"

text \<open>What an effect must be: the reply to a datagram of the client it is sent to, under that datagram's id.\<close>

definition reply_to :: "received \<Rightarrow> sockaddr_in \<Rightarrow> parsed_packet \<Rightarrow> bytes \<Rightarrow> bool" where
  "reply_to U up q b \<longleftrightarrow>
     take 2 b = [hi8 (wh_id (pp_header q)), lo8 (wh_id (pp_header q))] \<and>
     ((\<exists>rc. b = error_bytes q rc) \<or> b = sinkhole_bytes q \<or>
      (\<exists>r. authentic U up (qname (question q)) (qtype (question q)) r \<and> drop 2 b = drop 2 r))"

fun justified :: "received \<Rightarrow> received \<Rightarrow> sockaddr_in \<Rightarrow> effect \<Rightarrow> bool" where
  "justified C U up (Alert n) = True"
| "justified C U up (ToUpstream a b) = (a = up \<and> (\<exists>c q. asked C c q \<and> drop 2 b = drop 2 (raw_packet q)))"
| "justified C U up (ToClient a b) = (\<exists>q. asked C a q \<and> reply_to U up q b)"

lemma with_id_eq: "2 \<le> length r \<Longrightarrow> with_id i r = [hi8 i, lo8 i] @ drop 2 r"
proof -
  assume "2 \<le> length r"
  then obtain a b rest where "r = a # b # rest" by (cases r; cases "tl r") auto
  then show ?thesis by (simp add: with_id_def translate_txid_def)
qed

lemma reply_to_error: "reply_to U up q (error_bytes q rc)"
  by (auto simp: reply_to_def error_bytes_def header_bytes_def error_header_def)

lemma reply_to_sinkhole: "reply_to U up q (sinkhole_bytes q)"
  by (auto simp: reply_to_def sinkhole_bytes_def header_bytes_def sinkhole_header_def)

lemma reply_to_authentic:
  assumes "authentic U up (qname (question q)) (qtype (question q)) r"
  shows "reply_to U up q (with_id (wh_id (pp_header q)) r)"
proof -
  have "2 \<le> length r" using assms by (auto simp: authentic_def dest: parse_header)
  with assms show ?thesis by (auto simp: reply_to_def with_id_eq)
qed

lemma justified_alerts: "x \<in> set (alerts_for quiet n) \<Longrightarrow> justified C U up x"
  by (auto simp: alerts_for_def split: if_splits)

section \<open>The handlers keep the invariant\<close>

lemma parse_length: "parse buf = Some (Ok q) \<Longrightarrow> raw_packet q = buf \<and> 2 \<le> length (raw_packet q)"
  using parse_header by fastforce

lemma lookup_step:
  assumes "packet_inv C U up s"
  obtains r c where "cache_lookup now n t cl g (dp_cache s) = Some (r, c)" "packet_inv C U up (s\<lparr>dp_cache := c\<rparr>)"
    "\<forall>e. r = Some e \<longrightarrow> cl = 1 \<and> authentic U up n t (ce_response e) \<and> ce_policy_generation e = g \<and> now < ce_expires_at e"
proof -
  have ok: "cache_ok (dp_cache s)" using assms by (simp add: packet_inv_def)
  obtain r c where l: "cache_lookup now n t cl g (dp_cache s) = Some (r, c)"
    using dns_cache.lookup_total [OF ok, of now n t cl g] by auto
  have ok': "cache_ok c" by (rule dns_cache.lookup_invar [OF ok l])
  have m: "max_entries c = 10000"
    using cache_lookup_step(2) [OF _ l] assms ok by (simp add: packet_inv_def cache_ok_def)
  have entries: "entry_ok U up (global_generation (dp_manager s)) x v" if "cache_content c x = Some v" for x v
    by (rule dns_cache.lookup_keeps_entries [OF ok l _ that]) (use assms in \<open>unfold packet_inv_def, blast\<close>)
  have inv: "packet_inv C U up (s\<lparr>dp_cache := c\<rparr>)" using assms ok' m entries by (simp add: packet_inv_def)
  have "cl = 1 \<and> authentic U up n t (ce_response e) \<and> ce_policy_generation e = g \<and> now < ce_expires_at e"
    if "r = Some e" for e
  proof -
    note hit = dns_cache.lookup_hit [OF ok l [unfolded that]]
    then have "entry_ok U up (global_generation (dp_manager s)) (n, t, cl) (content_of e)"
      using assms unfolding packet_inv_def by blast
    then show ?thesis using hit by (simp add: entry_ok_def content_of_def)
  qed
  with l inv show ?thesis using that by blast
qed

lemma forward_step:
  assumes inv: "packet_inv C U up s" and asked: "asked C addr q" and draws: "recurring draws"
  obtains r out f where "forward_query draws now sent q addr (dp_forwarder s) = Some (r, out, f)"
    "packet_inv C U up (s\<lparr>dp_forwarder := f\<rparr>)" "\<forall>x \<in> set out. justified C U up (ToUpstream (fst x) (snd x))"
    "length out = (if is_ok r then 1 else 0)"
proof -
  have len: "2 \<le> length (raw_packet q)" using asked parse_length by (auto simp: asked_def)
  obtain r out f where f: "forward_query draws now sent q addr (dp_forwarder s) = Some (r, out, f)"
    using forward_query_returns [OF draws len] .
  have fw: "fw_inv (dp_forwarder s)" using inv by (simp add: packet_inv_def)
  note res = forward_query_result [OF fw f]
  have pend: "transaction_asked C tx" if "(t, tx) \<in> set (pending_tx f)" for t tx
  proof (cases r)
    case (Ok t')
    then have "(t, tx) \<in> set (pending_tx (dp_forwarder s)) \<or> tx = transaction_for now q addr"
      using res(4) that by auto
    moreover have "transaction_asked C (transaction_for now q addr)"
      using asked by (auto simp: transaction_asked_def transaction_for_def)
    ultimately show ?thesis using inv by (auto simp: packet_inv_def)
  next
    case (Err x)
    then have "(t, tx) \<in> set (pending_tx (dp_forwarder s))"
      using res(5) that mset_subset_eqD by (metis set_mset_mset)
    then show ?thesis using inv by (auto simp: packet_inv_def)
  qed
  have up: "upstream_addr (dp_forwarder s) = up" using inv by (simp add: packet_inv_def)
  have inv': "packet_inv C U up (s\<lparr>dp_forwarder := f\<rparr>)" using inv res(1,2) pend by (simp add: packet_inv_def)
  have just: "justified C U up (ToUpstream (fst x) (snd x))" if "x \<in> set out" for x
  proof (cases r)
    case (Ok t)
    have "drop 2 ((raw_packet q)[0 := a, 1 := b]) = drop 2 (raw_packet q)" for a b by simp
    with Ok res(4) up that asked show ?thesis by auto
  next
    case (Err x)
    then show ?thesis using res(5) that by simp
  qed
  have "length out = (if is_ok r then 1 else 0)" using res(4,5) by (cases r) auto
  then show ?thesis using f inv' just by (intro that) blast+
qed

lemma handle_client_step:
  assumes inv: "packet_inv C U up s" and mem: "(buf, addr) \<in> C" and draws: "recurring draws"
  obtains out s' where "handle_client draws quiet e snap g buf addr s = Some (out, s')" "packet_inv C U up s'"
    "\<forall>x \<in> set out. justified C U up x" "dp_manager s' = dp_manager s"
proof -
  obtain res where "parse buf = Some res" using parse_not_None by blast
  then consider (err) x where "parse buf = Some (Err x)" | (ok) q where "parse buf = Some (Ok q)"
    by (cases res) auto
  then show ?thesis
  proof cases
    case err
    show ?thesis using inv by (intro that [of "[]" s]) (simp_all add: handle_client_Err [OF err])
  next
    case ok
    let ?n = "qname (question q)"
    note eq = handle_client_Ok [OF ok, of draws quiet e snap g addr s]
    have asked: "asked C addr q" using ok mem by (auto simp: asked_def)
    obtain r c where l: "cache_lookup (lookup_now e) ?n (qtype (question q)) (qclass (question q)) g (dp_cache s) = Some (r, c)"
        and inv1: "packet_inv C U up (s\<lparr>dp_cache := c\<rparr>)"
        and hit: "\<forall>x. r = Some x \<longrightarrow> qclass (question q) = 1 \<and> authentic U up ?n (qtype (question q)) (ce_response x) \<and>
          ce_policy_generation x = g \<and> lookup_now e < ce_expires_at x"
      using lookup_step [OF inv, of "lookup_now e" ?n "qtype (question q)" "qclass (question q)" g] .
    obtain fr out f where fwd: "forward_query draws (forward_now e) (forward_sent e) q addr (dp_forwarder (s\<lparr>dp_cache := c\<rparr>)) = Some (fr, out, f)"
        and inv2: "packet_inv C U up (s\<lparr>dp_cache := c, dp_forwarder := f\<rparr>)"
        and just: "\<forall>x \<in> set out. justified C U up (ToUpstream (fst x) (snd x))"
      using forward_step [OF inv1 asked draws, of "forward_now e" "forward_sent e"] .
    then have f: "forward_query draws (forward_now e) (forward_sent e) q addr (dp_forwarder s) = Some (fr, out, f)"
      by simp
    consider "policy_blocks snap ?n" | "\<not> policy_blocks snap ?n" "?n = ''sinkhole.test''"
      | x where "\<not> policy_blocks snap ?n" "?n \<noteq> ''sinkhole.test''" "r = Some x"
      | "\<not> policy_blocks snap ?n" "?n \<noteq> ''sinkhole.test''" "r = None"
      by (cases "policy_blocks snap ?n"; cases "?n = ''sinkhole.test''"; cases r) blast+
    then show ?thesis
    proof cases
      case 1
      then show ?thesis using eq inv asked reply_to_error
        by (intro that [of "alerts_for quiet ?n @ [ToClient addr (error_bytes q NXDOMAIN)]" s])
          (auto intro: justified_alerts)
    next
      case 2
      then show ?thesis using eq inv asked reply_to_sinkhole
        by (intro that [of "alerts_for quiet ?n @ [ToClient addr (sinkhole_bytes q)]" s])
          (auto intro: justified_alerts)
    next
      case 3
      then show ?thesis using eq inv1 asked l reply_to_authentic hit 3(3)
        by (intro that [of "alerts_for quiet ?n @ [ToClient addr (with_id (wh_id (pp_header q)) (ce_response x))]"
              "s\<lparr>dp_cache := c\<rparr>"])
          (auto intro: justified_alerts)
    next
      case 4
      let ?err = "if is_ok fr then [] else [ToClient addr (error_bytes q SERVFAIL)]"
      have "\<forall>x \<in> set (map (\<lambda>(a, b). ToUpstream a b) out). justified C U up x" using just by fastforce
      moreover have "\<forall>x \<in> set ?err. justified C U up x" using asked reply_to_error by auto
      ultimately have "\<forall>x \<in> set (alerts_for quiet ?n @ map (\<lambda>(a, b). ToUpstream a b) out @ ?err). justified C U up x"
        using justified_alerts by (metis UnE set_append)
      then show ?thesis using eq inv2 l f 4
        by (intro that [of "alerts_for quiet ?n @ map (\<lambda>(a, b). ToUpstream a b) out @ ?err"
              "s\<lparr>dp_cache := c, dp_forwarder := f\<rparr>"]) simp_all
    qed
  qed
qed

fun is_send :: "effect \<Rightarrow> bool" where
  "is_send (Alert n) = False"
| "is_send _ = True"

lemma no_send_in_alerts [simp]: "filter is_send (alerts_for quiet n) = []"
  by (simp add: alerts_for_def)

lemma synthesized_lengths:
  assumes "parse buf = Some (Ok q)"
  shows "length (error_bytes q rc) \<le> length buf" "length (sinkhole_bytes q) \<le> length buf + 16"
  using parse_Ok_question [OF assms] question_bytes_range(2) [of q]
  by (simp_all add: error_bytes_def sinkhole_bytes_def)

text \<open>What the handler sends for an accepted query: exactly one datagram, and which.\<close>

lemma handle_client_sends_one:
  assumes inv: "packet_inv C U up s" and q: "parse buf = Some (Ok q)"
    and h: "handle_client draws quiet e snap g buf addr s = Some (out, s')"
  shows "\<exists>x. filter is_send out = [x] \<and>
    (if dec_action (snapshot_evaluate snap (qname (question q))) = BLOCK_NXDOMAIN then
       \<exists>b. build_error_response q NXDOMAIN = Some b \<and> length b \<le> length buf \<and> x = ToClient addr b
     else if qname (question q) = ''sinkhole.test'' then
       \<exists>b. build_sinkhole_response q loopback_be 60 = Some b \<and> length b \<le> length buf + 16 \<and> x = ToClient addr b
     else (\<exists>t. x = ToUpstream up (hi8 t # lo8 t # drop 2 buf)) \<or>
       (\<exists>b. build_error_response q SERVFAIL = Some b \<and> length b \<le> length buf \<and> x = ToClient addr b) \<or>
       (\<exists>r. (r, up) \<in> U \<and> x = ToClient addr (hi8 (wh_id (pp_header q)) # lo8 (wh_id (pp_header q)) # drop 2 r)))"
proof -
  let ?n = "qname (question q)" and ?t = "qtype (question q)"
  note made = builders [OF q] synthesized_lengths [OF q]
  show ?thesis
  proof (cases "policy_blocks snap ?n \<or> ?n = ''sinkhole.test''")
    case True
    then show ?thesis using h made unfolding handle_client_Ok [OF q] by (auto simp: snapshot_action split: if_splits)
  next
    case False
    obtain r c where l: "cache_lookup (lookup_now e) ?n ?t (qclass (question q)) g (dp_cache s) = Some (r, c)"
      and hit: "\<forall>x. r = Some x \<longrightarrow> authentic U up ?n ?t (ce_response x)"
      using lookup_step [OF inv, of "lookup_now e" ?n ?t "qclass (question q)" g] by metis
    show ?thesis
    proof (cases r)
      case (Some x)
      then have "authentic U up ?n ?t (ce_response x)" using hit by blast
      then have "2 \<le> length (ce_response x)" "(ce_response x, up) \<in> U" by (auto simp: authentic_def dest: parse_header)
      then show ?thesis using h False l Some unfolding handle_client_Ok [OF q] by (auto simp: with_id_eq snapshot_action)
    next
      case None
      obtain fr sent f where f: "forward_query draws (forward_now e) (forward_sent e) q addr (dp_forwarder s) = Some (fr, sent, f)"
        and out: "out = alerts_for quiet ?n @ map (\<lambda>(a, b). ToUpstream a b) sent @
          (if is_ok fr then [] else [ToClient addr (error_bytes q SERVFAIL)])"
        using h False l None unfolding handle_client_Ok [OF q] by (auto split: option.splits)
      have fw: "fw_inv (dp_forwarder s)" "upstream_addr (dp_forwarder s) = up" using inv by (simp_all add: packet_inv_def)
      have buf: "raw_packet q = buf" "2 \<le> length buf" using parse_length [OF q] by auto
      then obtain b0 b1 rest where "buf = b0 # b1 # rest" by (cases buf; cases "tl buf") auto
      with buf forward_query_result(4,5) [OF fw(1) f] fw(2) False out made show ?thesis
        by (cases fr) (auto simp: snapshot_action)
    qed
  qed
qed

lemma validate_step:
  assumes inv: "packet_inv C U up s"
  obtains r f where "validate_response buf addr (dp_forwarder s) = Some (r, f)" "packet_inv C U up (s\<lparr>dp_forwarder := f\<rparr>)"
    "\<forall>tx. r = Ok tx \<longrightarrow> addr = up \<and> transaction_asked C tx \<and>
       (\<exists>p. parse buf = Some (Ok p) \<and> is_response (pp_header p) \<and> answers tx p)"
proof -
  let ?f = "dp_forwarder s"
  have fw: "fw_inv ?f" and up: "upstream_addr ?f = up" using inv by (simp_all add: packet_inv_def)
  obtain r f where v: "validate_response buf addr ?f = Some (r, f)" using validate_response_total [OF fw] by metis
  have kept: "f = ?f \<or> (\<exists>t. f = consumed t ?f)"
    using v by (cases rule: validate_response_cases [of buf addr ?f]) auto
  then have "set (pending_tx f) \<subseteq> set (pending_tx ?f)" "upstream_addr f = up"
    using up by (auto simp: consumed_def delete_filter)
  moreover have "fw_inv f" using kept fw consumed_inv by auto
  ultimately have inv': "packet_inv C U up (s\<lparr>dp_forwarder := f\<rparr>)" using inv by (auto simp: packet_inv_def)
  have "addr = up \<and> transaction_asked C tx \<and> (\<exists>p. parse buf = Some (Ok p) \<and> is_response (pp_header p) \<and> answers tx p)"
    if "r = Ok tx" for tx
  proof -
    have "validate_response buf addr ?f = Some (Ok tx, f)" using v that by simp
    then obtain h :: wire_header and p where p: "admissible buf addr ?f h tx" "parse buf = Some (Ok p)" "answers tx p"
      unfolding validate_response_Ok_iff by blast
    then have "h = pp_header p" "(wh_id h, tx) \<in> set (pending_tx ?f)"
      using parse_header [OF p(2)] by (auto simp: admissible_def dest: map_of_SomeD)
    then show ?thesis using p up inv unfolding admissible_def packet_inv_def by blast
  qed
  then show ?thesis using v inv' by (intro that) blast+
qed

lemma insert_step:
  assumes inv: "packet_inv C U up s" and auth: "authentic U up n t buf" and g: "g = global_generation (dp_manager s)"
  obtains c where "cache_insert now n t 1 buf ttl g (dp_cache s) = Some c" "packet_inv C U up (s\<lparr>dp_cache := c\<rparr>)"
proof -
  have ok: "cache_ok (dp_cache s)" using inv by (simp add: packet_inv_def)
  obtain c where c: "cache_insert now n t 1 buf ttl g (dp_cache s) = Some c"
    using dns_cache.insert_total [OF ok, of now n t 1 buf ttl g] by auto
  have new: "entry_ok U up g (n, t, 1) (buf, expiry now ttl, g)" using auth by (simp add: entry_ok_def)
  have "entry_ok U up g x v" if "cache_content c x = Some v" for x v
    by (rule dns_cache.insert_keeps_entries [where P = "entry_ok U up g", OF ok c _ new that])
      (use inv g in \<open>unfold packet_inv_def, blast\<close>)
  moreover have "max_entries c = 10000" using cache_insert_step(2) [OF ok c] inv by (simp add: packet_inv_def)
  ultimately have "packet_inv C U up (s\<lparr>dp_cache := c\<rparr>)"
    using inv g dns_cache.insert_invar [OF ok c] by (simp add: packet_inv_def)
  with c show ?thesis by (rule that)
qed

lemma handle_upstream_step:
  assumes inv: "packet_inv C U up s" and mem: "(buf, addr) \<in> U" and g: "g = global_generation (dp_manager s)"
  obtains out s' where "handle_upstream e g buf addr s = Some (out, s')" "packet_inv C U up s'"
    "\<forall>x \<in> set out. justified C U up x" "dp_manager s' = dp_manager s"
proof -
  obtain r f where v: "validate_response buf addr (dp_forwarder s) = Some (r, f)"
      and inv1: "packet_inv C U up (s\<lparr>dp_forwarder := f\<rparr>)"
      and acc: "\<forall>tx. r = Ok tx \<longrightarrow> addr = up \<and> transaction_asked C tx \<and>
        (\<exists>p. parse buf = Some (Ok p) \<and> is_response (pp_header p) \<and> answers tx p)"
    using validate_step [OF inv, of buf addr] .
  show ?thesis
  proof (cases r)
    case (Err x)
    then show ?thesis using v inv1 by (intro that [of "[]" "s\<lparr>dp_forwarder := f\<rparr>"]) (simp_all add: handle_upstream_def)
  next
    case (Ok tx)
    then obtain p where p: "parse buf = Some (Ok p)" "is_response (pp_header p)" "answers tx p" "addr = up"
        and tx: "transaction_asked C tx" using acc by blast
    then have auth: "authentic U up (expected_qname tx) (expected_qtype tx) buf"
      using mem by (auto simp: authentic_def answers_def)
    from g have g': "g = global_generation (dp_manager (s\<lparr>dp_forwarder := f\<rparr>))" by simp
    obtain c where c: "cache_insert (insert_now e) (expected_qname tx) (expected_qtype tx) 1 buf 60 g
          (dp_cache (s\<lparr>dp_forwarder := f\<rparr>)) = Some c"
        and inv2: "packet_inv C U up (s\<lparr>dp_forwarder := f, dp_cache := c\<rparr>)"
      using insert_step [OF inv1 auth g', of "insert_now e" 60] .
    obtain q where q: "asked C (client_addr tx) q" "client_txid tx = wh_id (pp_header q)"
        "expected_qname tx = qname (question q)" "expected_qtype tx = qtype (question q)"
      using tx by (auto simp: transaction_asked_def)
    have "justified C U up (ToClient (client_addr tx) (with_id (client_txid tx) buf))"
      using q reply_to_authentic [of U up q buf] auth by auto
    moreover have "handle_upstream e g buf addr s =
        Some ([ToClient (client_addr tx) (with_id (client_txid tx) buf)], s\<lparr>dp_forwarder := f, dp_cache := c\<rparr>)"
      using v Ok c by (simp add: handle_upstream_def with_id_def)
    ultimately show ?thesis using inv2
      by (intro that [of "[ToClient (client_addr tx) (with_id (client_txid tx) buf)]" "s\<lparr>dp_forwarder := f, dp_cache := c\<rparr>"])
        simp_all
  qed
qed

text \<open>The datagrams of a list of events, as \<open>recvfrom\<close> delivers them.\<close>

fun from_clients :: "event \<Rightarrow> received" where
  "from_clients (Turn e (Some d) u) = {(receive (fst d), snd d)}"
| "from_clients _ = {}"

fun from_upstream :: "event \<Rightarrow> received" where
  "from_upstream (Turn e c (Some d)) = {(receive (fst d), snd d)}"
| "from_upstream _ = {}"

lemma control_step:
  assumes "dp_inv C U up s"
  shows "dp_inv C U up (control_event data s)"
proof -
  let ?m = "snd (serve_connection data (dp_manager s))"
  have m: "manager_inv (dp_manager s)" using assms by (simp add: dp_inv_def)
  have "global_generation (dp_manager s) \<le> global_generation ?m"
    using handle_command_manager [of "ipc_request data" "dp_manager s"] apply_candidate_generation_mono
    by (simp add: serve_connection_def Let_def case_prod_beta)
  then have "entry_ok U up (global_generation (dp_manager s)) x v \<Longrightarrow> entry_ok U up (global_generation ?m) x v" for x v
    by (auto simp: entry_ok_def intro: order_trans)
  then show ?thesis
    using assms serve_connection_inv [OF m, of data] unfolding dp_inv_def packet_inv_def control_event_def by auto
qed

lemma client_event_step:
  assumes "dp_inv C U up s" "(receive (fst d), snd d) \<in> C" "recurring draws"
  obtains out s' where "client_event draws quiet e d s = Some (out, s')" "dp_inv C U up s'"
    "\<forall>x \<in> set out. justified C U up x"
proof (cases "receive (fst d) = []")
  case True
  then show ?thesis using assms that [of "[]" s] by (simp add: client_event_def)
next
  case False
  have inv: "manager_inv (dp_manager s)" "packet_inv C U up s" using assms(1) by (simp_all add: dp_inv_def)
  obtain out s' where "handle_client draws quiet e (active_snapshot (dp_manager s)) (global_generation (dp_manager s))
      (receive (fst d)) (snd d) s = Some (out, s')" "packet_inv C U up s'" "\<forall>x \<in> set out. justified C U up x"
      "dp_manager s' = dp_manager s"
    using handle_client_step [OF inv(2) assms(2,3), of quiet e "active_snapshot (dp_manager s)" "global_generation (dp_manager s)"] .
  then show ?thesis using False inv(1) that by (simp add: client_event_def dp_inv_def)
qed

lemma upstream_event_step:
  assumes "dp_inv C U up s" "(receive (fst d), snd d) \<in> U"
  obtains out s' where "upstream_event e d s = Some (out, s')" "dp_inv C U up s'"
    "\<forall>x \<in> set out. justified C U up x"
proof (cases "receive (fst d) = []")
  case True
  then show ?thesis using assms that [of "[]" s] by (simp add: upstream_event_def)
next
  case False
  have inv: "manager_inv (dp_manager s)" "packet_inv C U up s" using assms(1) by (simp_all add: dp_inv_def)
  obtain out s' where "handle_upstream e (global_generation (dp_manager s)) (receive (fst d)) (snd d) s = Some (out, s')"
      "packet_inv C U up s'" "\<forall>x \<in> set out. justified C U up x" "dp_manager s' = dp_manager s"
    using handle_upstream_step [OF inv(2) assms(2) refl, of e] .
  then show ?thesis using False inv(1) that by (simp add: upstream_event_def dp_inv_def)
qed

lemma dp_step_total:
  assumes inv: "dp_inv C U up s" and draws: "recurring draws" and "from_clients ev \<subseteq> C" "from_upstream ev \<subseteq> U"
  obtains out s' where "dp_step draws quiet ev s = Some (out, s')" "dp_inv C U up s'"
    "\<forall>x \<in> set out. justified C U up x"
proof (cases ev)
  case (Control data)
  then show ?thesis using control_step [OF inv] that by simp
next
  case (Turn e c u)
  obtain out1 s1 where 1: "when_ready (client_event draws quiet e) c s = Some (out1, s1)" "dp_inv C U up s1"
      "\<forall>x \<in> set out1. justified C U up x"
  proof (cases c)
    case None
    then show ?thesis using inv that [of "[]" s] by (simp add: when_ready_def)
  next
    case (Some d)
    then have "(receive (fst d), snd d) \<in> C" using assms(3) Turn by simp
    from client_event_step [OF inv this draws, of quiet e] Some show ?thesis using that by (auto simp: when_ready_def)
  qed
  obtain out2 s2 where 2: "when_ready (upstream_event e) u s1 = Some (out2, s2)" "dp_inv C U up s2"
      "\<forall>x \<in> set out2. justified C U up x"
  proof (cases u)
    case None
    then show ?thesis using 1 that [of "[]" s1] by (simp add: when_ready_def)
  next
    case (Some d)
    then have "(receive (fst d), snd d) \<in> U" using assms(4) Turn by simp
    from upstream_event_step [OF 1(2) this, of e] Some show ?thesis using that by (auto simp: when_ready_def)
  qed
  have "\<forall>x \<in> set (out1 @ out2). justified C U up x" using 1(3) 2(3) by auto
  then show ?thesis using 1 2 Turn that [of "out1 @ out2" s2] by (simp add: loop_turn_def)
qed

lemma dp_run_total:
  assumes "dp_inv C U up s" "recurring draws" "\<Union> (from_clients ` set evs) \<subseteq> C" "\<Union> (from_upstream ` set evs) \<subseteq> U"
  shows "\<exists>out s'. dp_run draws quiet evs s = Some (out, s') \<and> dp_inv C U up s' \<and> (\<forall>x \<in> set out. justified C U up x)"
  using assms(1,3,4)
proof (induction evs arbitrary: s)
  case (Cons ev evs)
  from Cons.prems have "from_clients ev \<subseteq> C" "from_upstream ev \<subseteq> U" by auto
  then obtain out1 s1 where 1: "dp_step draws quiet ev s = Some (out1, s1)" "dp_inv C U up s1"
      "\<forall>x \<in> set out1. justified C U up x"
    using dp_step_total [OF Cons.prems(1) assms(2), of ev quiet] by blast
  from Cons.prems have "\<Union> (from_clients ` set evs) \<subseteq> C" "\<Union> (from_upstream ` set evs) \<subseteq> U" by auto
  then obtain out2 s2 where 2: "dp_run draws quiet evs s1 = Some (out2, s2)" "dp_inv C U up s2"
      "\<forall>x \<in> set out2. justified C U up x"
    using Cons.IH [OF 1(2)] by blast
  have "\<forall>x \<in> set (out1 @ out2). justified C U up x" using 1(3) 2(3) by auto
  then show ?case using 1(1) 2 by (intro exI [of _ "out1 @ out2"] exI [of _ s2]) simp
qed simp

lemma startup_inv:
  assumes "pending_tx f = []"
  shows "dp_inv C U (upstream_addr f) (startup f)"
proof -
  have "fw_inv f" using assms by (simp add: fw_inv_def)
  then show ?thesis
    using apply_candidate_inv [OF manager_inv_init] new_cache_ok [of 10000] assms
    by (simp add: dp_inv_def packet_inv_def startup_def) (simp add: new_cache_def)
qed

text \<open>Only control connections touch the manager.\<close>

lemma handle_client_manager:
  assumes "handle_client draws quiet e snap g buf addr s = Some (out, s')"
  shows "dp_manager s' = dp_manager s"
proof -
  obtain r where "parse buf = Some r" using parse_not_None by blast
  then consider x where "parse buf = Some (Err x)" | q where "parse buf = Some (Ok q)" by (cases r) auto
  then show ?thesis
  proof cases
    case 1
    with assms show ?thesis by (simp add: handle_client_Err)
  next
    case 2
    with assms show ?thesis by (auto simp: handle_client_Ok split: if_splits option.splits)
  qed
qed

lemma handle_upstream_manager:
  assumes "handle_upstream e g buf addr s = Some (out, s')"
  shows "dp_manager s' = dp_manager s"
proof -
  obtain r f where "validate_response buf addr (dp_forwarder s) = Some (r, f)"
    using assms by (auto simp: handle_upstream_def bind_eq_Some_conv)
  with assms show ?thesis by (cases r) (auto simp: handle_upstream_def Let_def bind_eq_Some_conv)
qed

lemma dp_run_manager:
  assumes "dp_run draws quiet evs s = Some (out, s')" "\<forall>data. Control data \<notin> set evs"
  shows "dp_manager s' = dp_manager s"
  using assms
proof (induction evs arbitrary: s out)
  case (Cons ev evs)
  then obtain e c u where ev: "ev = Turn e c u" by (cases ev) auto
  then obtain out1 s1 out2 s2 out3 where "when_ready (client_event draws quiet e) c s = Some (out1, s1)"
      "when_ready (upstream_event e) u s1 = Some (out2, s2)" "dp_run draws quiet evs s2 = Some (out3, s')"
    using Cons.prems(1) by (auto simp: loop_turn_def bind_eq_Some_conv)
  moreover from this have "dp_manager s1 = dp_manager s" "dp_manager s2 = dp_manager s1"
    by (auto simp: when_ready_def client_event_def upstream_event_def
        dest: handle_client_manager handle_upstream_manager split: option.splits if_splits)
  ultimately show ?case using Cons.IH Cons.prems(2) by simp
qed simp

lemma dp_run_append:
  "dp_run draws quiet (evs1 @ evs2) s = do {
     (out1, s) \<leftarrow> dp_run draws quiet evs1 s;
     (out2, s) \<leftarrow> dp_run draws quiet evs2 s;
     Some (out1 @ out2, s) }"
  by (induction evs1 arbitrary: s)
    (auto simp: bind_assoc intro!: Option.bind_cong split: prod.splits Option.bind_splits)

lemma run_from_startup:
  assumes "recurring draws" "pending_tx f = []"
  obtains out s where "dp_run draws quiet evs (startup f) = Some (out, s)"
    "dp_inv (\<Union> (from_clients ` set evs)) (\<Union> (from_upstream ` set evs)) (upstream_addr f) s"
    "\<forall>x \<in> set out. justified (\<Union> (from_clients ` set evs)) (\<Union> (from_upstream ` set evs)) (upstream_addr f) x"
  using dp_run_total [OF startup_inv [OF assms(2)] assms(1) order_refl order_refl] by blast

lemma run_from_startup_inv:
  assumes "recurring draws" "pending_tx f = []" "dp_run draws quiet evs (startup f) = Some (out, s)"
  shows "dp_inv (\<Union> (from_clients ` set evs)) (\<Union> (from_upstream ` set evs)) (upstream_addr f) s \<and>
    (\<forall>x \<in> set out. justified (\<Union> (from_clients ` set evs)) (\<Union> (from_upstream ` set evs)) (upstream_addr f) x)"
proof -
  obtain out' s' where "dp_run draws quiet evs (startup f) = Some (out', s')"
      "dp_inv (\<Union> (from_clients ` set evs)) (\<Union> (from_upstream ` set evs)) (upstream_addr f) s'"
      "\<forall>x \<in> set out'. justified (\<Union> (from_clients ` set evs)) (\<Union> (from_upstream ` set evs)) (upstream_addr f) x"
    using run_from_startup [OF assms(1,2)] .
  with assms(3) show ?thesis by simp
qed

lemma justified_reply:
  assumes "justified C U up (ToClient a b)"
  shows "\<exists>buf q. (buf, a) \<in> C \<and> parse buf = Some (Ok q) \<and>
    take 2 b = [hi8 (wh_id (pp_header q)), lo8 (wh_id (pp_header q))] \<and>
    ((\<exists>rc. build_error_response q rc = Some b) \<or> build_sinkhole_response q loopback_be 60 = Some b \<or>
     (\<exists>r p. (r, up) \<in> U \<and> drop 2 b = drop 2 r \<and>
        parse r = Some (Ok p) \<and> is_response (pp_header p) \<and>
        qname (question p) = qname (question q) \<and> qtype (question p) = qtype (question q)))"
proof -
  obtain buf q where q: "(buf, a) \<in> C" "parse buf = Some (Ok q)" "reply_to U up q b"
    using assms unfolding justified.simps asked_def by blast
  note build = builders [OF q(2)]
  have head: "take 2 b = [hi8 (wh_id (pp_header q)), lo8 (wh_id (pp_header q))]"
    using q(3) by (simp add: reply_to_def)
  from q(3) consider rc where "b = error_bytes q rc" | "b = sinkhole_bytes q"
    | r where "authentic U up (qname (question q)) (qtype (question q)) r" "drop 2 b = drop 2 r"
    unfolding reply_to_def by blast
  then have "(\<exists>rc. build_error_response q rc = Some b) \<or> build_sinkhole_response q loopback_be 60 = Some b \<or>
     (\<exists>r p. (r, up) \<in> U \<and> drop 2 b = drop 2 r \<and> parse r = Some (Ok p) \<and> is_response (pp_header p) \<and>
        qname (question p) = qname (question q) \<and> qtype (question p) = qtype (question q))"
    by cases (use build in \<open>auto simp: authentic_def\<close>)
  with q(1,2) head show ?thesis by blast
qed

section \<open>Properties\<close>

definition sample_turns :: "event list" where
  "sample_turns =
     [Turn \<lparr>lookup_now = 0, forward_now = 0, forward_sent = True, insert_now = 0\<rparr>
        (Some (query_bytes sample_header sample_labels 1 1, sample_client)) (Some ([1, 2, 3], sample_client))]"

definition sample_env :: env where
  "sample_env = \<lparr>lookup_now = 0, forward_now = 0, forward_sent = True, insert_now = 0\<rparr>"

definition sinkhole_labels :: "bytes list" where
  "sinkhole_labels = map (map char_byte) [''sinkhole'', ''test'']"

definition sinkhole_turns :: "event list" where
  "sinkhole_turns =
     [Turn \<lparr>lookup_now = 0, forward_now = 0, forward_sent = True, insert_now = 0\<rparr>
        (Some (query_bytes sample_header sinkhole_labels 1 1, sample_client)) None]"

lemma seed_rejected:
  "apply_candidate init_manager (Some seed_policy) =
     (False, Some ''Candidate generation must be > active generation'', init_manager)"
  by (simp add: apply_candidate_Some acceptable_def init_manager_def seed_policy_def)

lemma startup_manager: "dp_manager (startup f) = init_manager"
  by (simp add: startup_def seed_rejected)

lemma bootstrap_blocks_nothing: "\<not> policy_blocks (active_snapshot init_manager) n"
  by (cases "split_labels_reversed n")
    (simp_all add: policy_blocks_def init_manager_def bootstrap_snapshot_def new_snapshot_def trie_matches_def
      empty_trie_def new_node_def Let_def)

lemma receive_short: "length d \<le> 4096 \<Longrightarrow> receive d = d"
  by (simp add: receive_def)

lemma sinkhole_query_parses:
  "\<exists>q. parse (query_bytes sample_header sinkhole_labels 1 1) = Some (Ok q) \<and> qname (question q) = ''sinkhole.test''"
proof -
  let ?d = "query_bytes sample_header sinkhole_labels 1 1"
  have "\<forall>l \<in> set sinkhole_labels. valid_label l" "length (name_text sinkhole_labels) \<le> 253"
    "wh_opcode sample_header = 0" "wh_qdcount sample_header = 1" "length (?d @ []) \<le> 4096"
    and name: "name_text sinkhole_labels = ''sinkhole.test''"
    by code_simp+
  from parse_query_bytes [OF this(1-5)] name show ?thesis by simp
qed

lemma sinkhole_run:
  "\<exists>out s b. dp_run draws True sinkhole_turns (startup f) = Some (out, s) \<and> ToClient sample_client b \<in> set out"
proof -
  let ?d = "query_bytes sample_header sinkhole_labels 1 1"
  have ne: "?d \<noteq> []" and len: "length ?d \<le> 4096" by code_simp+
  obtain q where q: "parse ?d = Some (Ok q)" "qname (question q) = ''sinkhole.test''"
    using sinkhole_query_parses by blast
  show ?thesis
    using handle_client_Ok [OF q(1)] q(2) ne
    by (simp add: sinkhole_turns_def loop_turn_def when_ready_def client_event_def receive_short [OF len]
        startup_manager bootstrap_blocks_nothing) blast
qed

lemma open_forwarder_idle: "pending_tx open_forwarder = []"
  by (simp add: open_forwarder_def new_forwarder_def)

text \<open>
  Further fact (the data plane never fails).  From start-up with any forwarder without transactions, any
  sequence of turns and control connections, with any datagrams, clocks and \<open>sendto\<close> results, runs to the
  end: no access out of bounds, no dangling iterator, no endless draw of a transaction id.  Memory
  stays bounded by 10000 cached answers and 2048 transactions, and the generation counter is that of the
  active snapshot.
\<close>

theorem dataplane_never_fails:
  assumes "recurring draws" "pending_tx f = []"
  shows "\<exists>out s. dp_run draws quiet evs (startup f) = Some (out, s) \<and>
    cache_size (dp_cache s) \<le> 10000 \<and> length (pending_tx (dp_forwarder s)) \<le> 2048 \<and>
    global_generation (dp_manager s) = generation (active_snapshot (dp_manager s))"
proof -
  obtain out s where "dp_run draws quiet evs (startup f) = Some (out, s)"
      "dp_inv (\<Union> (from_clients ` set evs)) (\<Union> (from_upstream ` set evs)) (upstream_addr f) s"
    using run_from_startup [OF assms] by blast
  then show ?thesis
    using cache_invD(7) [of "dp_cache s"]
    by (auto simp: dp_inv_def packet_inv_def manager_inv_def cache_ok_def cache_size_def fw_inv_def)
qed

theorem dataplane_never_fails_witness:
  "\<exists>out s. dp_run word_of_nat True sample_turns (startup open_forwarder) = Some (out, s) \<and>
    cache_size (dp_cache s) \<le> 10000"
  using dataplane_never_fails [OF recurring_word_of_nat open_forwarder_idle] by blast

text \<open>
  Further fact (every reply is justified).  In any run from start-up, each datagram sent to a client answers
  a datagram that was received from that very address and that parses, under the id of that
  datagram; and its content is an error response or the sinkhole answer to it, or, but for the id, a
  datagram received from the configured upstream address that parses as a response to the same name and
  type.  Neither another source nor an answer to another name or type ever reaches a client, from the
  cache or directly.
\<close>

theorem replies_are_justified:
  assumes "recurring draws" "pending_tx f = []" "dp_run draws quiet evs (startup f) = Some (out, s)"
    and "ToClient a b \<in> set out"
  shows "\<exists>buf q. (buf, a) \<in> \<Union> (from_clients ` set evs) \<and> parse buf = Some (Ok q) \<and>
    take 2 b = [hi8 (wh_id (pp_header q)), lo8 (wh_id (pp_header q))] \<and>
    ((\<exists>rc. build_error_response q rc = Some b) \<or> build_sinkhole_response q loopback_be 60 = Some b \<or>
     (\<exists>r p. (r, upstream_addr f) \<in> \<Union> (from_upstream ` set evs) \<and> drop 2 b = drop 2 r \<and>
        parse r = Some (Ok p) \<and> is_response (pp_header p) \<and>
        qname (question p) = qname (question q) \<and> qtype (question p) = qtype (question q)))"
  by (rule justified_reply)
    (rule bspec [OF conjunct2 [OF run_from_startup_inv [OF assms(1-3)]] assms(4)])

theorem replies_are_justified_witness:
  "\<exists>out s b buf q. dp_run word_of_nat True sinkhole_turns (startup open_forwarder) = Some (out, s) \<and>
     ToClient sample_client b \<in> set out \<and>
     (buf, sample_client) \<in> \<Union> (from_clients ` set sinkhole_turns) \<and> parse buf = Some (Ok q) \<and>
     take 2 b = [hi8 (wh_id (pp_header q)), lo8 (wh_id (pp_header q))]"
proof -
  obtain out s b where r: "dp_run word_of_nat True sinkhole_turns (startup open_forwarder) = Some (out, s)"
      "ToClient sample_client b \<in> set out"
    using sinkhole_run by blast
  from replies_are_justified [OF recurring_word_of_nat open_forwarder_idle r] r show ?thesis by blast
qed

text \<open>
  Further fact (the seed policy is never active).  The candidate of \<open>main\<close> has generation 1, which is not
  above the manager's initial generation 1: it is rejected, without a message, and the data plane
  starts with the empty bootstrap policy, which blocks no name, although the seed blocks \<open>blocked.test\<close>.
\<close>

theorem seed_policy_rejected:
  "apply_candidate init_manager (Some seed_policy) =
     (False, Some ''Candidate generation must be > active generation'', init_manager) \<and>
   dp_manager (startup f) = init_manager \<and>
   \<not> policy_blocks (active_snapshot (dp_manager (startup f))) name \<and>
   policy_blocks seed_policy ''blocked.test''"
proof (intro conjI)
  show "policy_blocks seed_policy ''blocked.test''" by code_simp
qed (simp_all add: startup_manager seed_rejected bootstrap_blocks_nothing)

text \<open>
  Further fact (a blocked name).  When the snapshot blocks the name of an accepted query, the handler
  sends the asking client the NXDOMAIN response to its query and nothing else, whatever the cache
  and the forwarder hold; neither is read or changed, and no datagram goes upstream.
\<close>

theorem blocked_query_gets_nxdomain:
  assumes "parse buf = Some (Ok q)" "policy_blocks snapshot (qname (question q))"
  shows "\<exists>resp out. build_error_response q NXDOMAIN = Some resp \<and>
    handle_client draws quiet e snapshot g buf addr s = Some (out, s) \<and>
    filter is_send out = [ToClient addr resp]"
  using assms by (simp add: handle_client_Ok builders)

theorem blocked_query_gets_nxdomain_witness:
  "\<exists>q resp out. parse (query_bytes sample_header sinkhole_labels 1 1) = Some (Ok q) \<and>
    build_error_response q NXDOMAIN = Some resp \<and>
    handle_client word_of_nat True sample_env seed_policy 1 (query_bytes sample_header sinkhole_labels 1 1) sample_client
      (startup open_forwarder) = Some (out, startup open_forwarder) \<and>
    filter is_send out = [ToClient sample_client resp]"
proof -
  obtain q where q: "parse (query_bytes sample_header sinkhole_labels 1 1) = Some (Ok q)" "qname (question q) = ''sinkhole.test''"
    using sinkhole_query_parses by blast
  moreover have "policy_blocks seed_policy ''sinkhole.test''" by code_simp
  ultimately show ?thesis using blocked_query_gets_nxdomain [OF q(1)] by auto
qed

text \<open>
  Property C37 (one datagram out for one datagram in).  In every state that a run from start-up reaches,
  under any snapshot and generation, the handler returns.  A client datagram that does not parse causes
  nothing.  One that does causes exactly one datagram: the NXDOMAIN response for a blocked name, the sinkhole response
  for the sinkhole name, and otherwise the query itself under another id to the upstream address, the
  SERVFAIL response, or a datagram received from upstream earlier under the id of the query.  The error
  responses are no longer than the query, and the sinkhole response at most 16 bytes longer.
\<close>

theorem client_datagram_one_send:
  assumes "recurring draws" "pending_tx f = []" "dp_run draws quiet evs (startup f) = Some (earlier, s)"
  shows "\<exists>out s'. handle_client draws quiet e snapshot g buf addr s = Some (out, s') \<and>
    (\<forall>x. parse buf = Some (Err x) \<longrightarrow> out = [] \<and> s' = s) \<and>
    (\<forall>q. parse buf = Some (Ok q) \<longrightarrow> (\<exists>x. filter is_send out = [x] \<and>
       (if dec_action (snapshot_evaluate snapshot (qname (question q))) = BLOCK_NXDOMAIN then
          \<exists>b. build_error_response q NXDOMAIN = Some b \<and> length b \<le> length buf \<and> x = ToClient addr b
        else if qname (question q) = ''sinkhole.test'' then
          \<exists>b. build_sinkhole_response q loopback_be 60 = Some b \<and> length b \<le> length buf + 16 \<and> x = ToClient addr b
        else (\<exists>t. x = ToUpstream (upstream_addr f) (hi8 t # lo8 t # drop 2 buf)) \<or>
          (\<exists>b. build_error_response q SERVFAIL = Some b \<and> length b \<le> length buf \<and> x = ToClient addr b) \<or>
          (\<exists>r. (r, upstream_addr f) \<in> \<Union> (from_upstream ` set evs) \<and>
             x = ToClient addr (hi8 (wh_id (pp_header q)) # lo8 (wh_id (pp_header q)) # drop 2 r)))))"
proof -
  let ?C = "insert (buf, addr) (\<Union> (from_clients ` set evs))" and ?U = "\<Union> (from_upstream ` set evs)"
  have inv: "packet_inv ?C ?U (upstream_addr f) s"
    using dp_run_total [OF startup_inv [OF assms(2)] assms(1), of evs ?C ?U quiet] assms(3)
    by (auto simp: dp_inv_def)
  then obtain out s' where h: "handle_client draws quiet e snapshot g buf addr s = Some (out, s')"
    using handle_client_step [OF inv _ assms(1), of buf addr quiet e snapshot g] by blast
  have "out = [] \<and> s' = s" if "parse buf = Some (Err x)" for x using h by (simp add: handle_client_Err [OF that])
  then show ?thesis
    by (intro exI [of _ out] exI [of _ s'] conjI allI impI h handle_client_sends_one [OF inv _ h]) simp_all
qed

theorem client_datagram_one_send_witness:
  "\<exists>q out b. parse (query_bytes sample_header sinkhole_labels 1 1) = Some (Ok q) \<and>
    handle_client word_of_nat True sample_env seed_policy 1 (query_bytes sample_header sinkhole_labels 1 1) sample_client
      (startup open_forwarder) = Some (out, startup open_forwarder) \<and>
    build_error_response q NXDOMAIN = Some b \<and> filter is_send out = [ToClient sample_client b] \<and>
    length b \<le> length (query_bytes sample_header sinkhole_labels 1 1)"
proof -
  obtain q where q: "parse (query_bytes sample_header sinkhole_labels 1 1) = Some (Ok q)" "qname (question q) = ''sinkhole.test''"
    using sinkhole_query_parses by blast
  have blocked: "policy_blocks seed_policy ''sinkhole.test''" by code_simp
  then have act: "dec_action (snapshot_evaluate seed_policy ''sinkhole.test'') = BLOCK_NXDOMAIN" by (simp add: snapshot_action)
  from q blocked obtain out where out: "handle_client word_of_nat True sample_env seed_policy 1
      (query_bytes sample_header sinkhole_labels 1 1) sample_client (startup open_forwarder) = Some (out, startup open_forwarder)"
    by (simp add: handle_client_Ok)
  have "dp_run word_of_nat True [] (startup open_forwarder) = Some ([], startup open_forwarder)" by simp
  from client_datagram_one_send [OF recurring_word_of_nat open_forwarder_idle this, of sample_env seed_policy 1
      "query_bytes sample_header sinkhole_labels 1 1" sample_client] out q act
  show ?thesis by auto
qed

definition chaos_reply :: bytes where
  "chaos_reply = query_bytes (sample_header\<lparr>wh_id := 1, wh_flags := 0x8180\<rparr>) sample_labels 1 3"

definition waiting_dataplane :: dataplane where
  "waiting_dataplane = (startup open_forwarder)\<lparr>dp_forwarder := waiting_forwarder\<rparr>"

lemma cache_insert_content:
  assumes "cache_ok c" "cache_insert now q t cl r ttl g c = Some c'"
  shows "cache_content c' (q, t, cl) = Some (r, expiry now ttl, g)"
  by (simp add: cache_content_def cache_insert_step(3) [OF assms] spec_insert_def)

text \<open>
  Further fact (the class of an answer is not kept).  An accepted response is filed under class 1 (IN),
  whatever the class of its question: the answer of class 3 (CHAOS) to \<open>waiting_dataplane\<close>'s query is
  accepted, and is what the cache then holds for a query of class IN.  The class is not compared in
  \<open>validate_response\<close> either.
\<close>

theorem chaos_answer_filed_under_internet:
  assumes "validate_response buf a (dp_forwarder s) = Some (Ok tx, f)" "cache_inv (dp_cache s)" "0 < max_entries (dp_cache s)"
  shows "\<exists>out s'. handle_upstream e g buf a s = Some (out, s') \<and>
    cache_content (dp_cache s') (expected_qname tx, expected_qtype tx, 1) = Some (buf, insert_now e + 60 * 10 ^ 9, g)"
proof -
  have ok: "cache_ok (dp_cache s)" using assms(2,3) by (simp add: cache_ok_def)
  obtain c where c: "cache_insert (insert_now e) (expected_qname tx) (expected_qtype tx) 1 buf 60 g (dp_cache s) = Some c"
    using dns_cache.insert_total [OF ok] by fastforce
  have "expiry (insert_now e) 60 = insert_now e + 60 * 10 ^ 9" by (simp add: expiry_def clamp_ttl_def)
  then show ?thesis using assms(1) c cache_insert_content [OF ok c] by (simp add: handle_upstream_def)
qed

theorem chaos_answer_filed_under_internet_witness:
  "\<exists>p out s. parse chaos_reply = Some (Ok p) \<and> qclass (question p) = 3 \<and>
    handle_upstream sample_env 1 chaos_reply (upstream_addr open_forwarder) waiting_dataplane = Some (out, s) \<and>
    cache_content (dp_cache s) (''www.ex'', 1, 1) = Some (chaos_reply, 60 * 10 ^ 9, 1)"
proof -
  have "\<exists>p. parse chaos_reply = Some (Ok p) \<and> qclass (question p) = 3"
  proof -
    have "case parse chaos_reply of Some (Ok p) \<Rightarrow> qclass (question p) = 3 | _ \<Rightarrow> False" by code_simp
    then show ?thesis by (auto split: option.splits result.splits)
  qed
  moreover have v: "validate_response chaos_reply (upstream_addr open_forwarder) (dp_forwarder waiting_dataplane) =
      Some (Ok (transaction_for 0 sample_packet sample_client), open_forwarder)"
  proof -
    have "validate_response chaos_reply (upstream_addr open_forwarder) waiting_forwarder =
      Some (Ok (transaction_for 0 sample_packet sample_client), open_forwarder)" by code_simp
    then show ?thesis by (simp add: waiting_dataplane_def)
  qed
  have "cache_inv (dp_cache waiting_dataplane)" "0 < max_entries (dp_cache waiting_dataplane)"
    using new_cache_inv by (simp_all add: waiting_dataplane_def startup_def) (simp add: new_cache_def)
  note chaos_answer_filed_under_internet [OF v this, of sample_env 1]
  ultimately show ?thesis by (auto simp: transaction_for_def sample_packet_def sample_env_def)
qed

end
