(* ===== verification/Resolution.thy ===== *)
theory Resolution
  imports Dataplane
begin

text \<open>
  A resolution through the forwarder and the cache, as lemmas about the two handlers of
  \<open>dataplane/src/main.cpp\<close>: a miss goes upstream, the response is relayed and filed, and the next query
  finds it, until an update of the policy retires it.
\<close>

lemma miss_goes_upstream:
  assumes "parse buf = Some (Ok q)" "\<not> policy_blocks snap (qname (question q))" "qname (question q) \<noteq> ''sinkhole.test''"
    and "cache_ok (dp_cache s)"
    and "cache_content (dp_cache s) (qname (question q), qtype (question q), qclass (question q)) = None"
    and "fw_inv (dp_forwarder s)" "0 \<le> socket_fd (dp_forwarder s)" "recurring draws" "forward_sent e"
    and "length (filter (\<lambda>x. \<not> expired (forward_now e) (snd x)) (pending_tx (dp_forwarder s))) < 2048"
  shows "\<exists>out s' txid. handle_client draws quiet e snap g buf addr s = Some (out, s') \<and>
    filter is_send out = [ToUpstream (upstream_addr (dp_forwarder s)) (hi8 txid # lo8 txid # drop 2 buf)] \<and>
    txid \<noteq> 0 \<and> (\<forall>tx. (txid, tx) \<in> set (pending_tx (dp_forwarder s)) \<longrightarrow> expired (forward_now e) tx) \<and>
    cache_ok (dp_cache s') \<and> upstream_addr (dp_forwarder s') = upstream_addr (dp_forwarder s) \<and>
    (\<exists>tx. map_of (pending_tx (dp_forwarder s')) txid = Some tx \<and> client_txid tx = wh_id (pp_header q) \<and>
      client_addr tx = addr \<and> expected_qname tx = qname (question q) \<and> expected_qtype tx = qtype (question q))"
proof -
  let ?n = "qname (question q)" and ?t = "qtype (question q)" and ?up = "upstream_addr (dp_forwarder s)"
  obtain r0 c where l: "cache_lookup (lookup_now e) ?n ?t (qclass (question q)) g (dp_cache s) = Some (r0, c)"
    using dns_cache.lookup_total [OF assms(4), of "lookup_now e" ?n ?t "qclass (question q)" g] by auto
  have miss: "r0 = None" using dns_cache.lookup_hit [OF assms(4)] l assms(5) by (cases r0) fastforce+
  have okc: "cache_ok c" by (rule dns_cache.lookup_invar [OF assms(4) l])
  obtain txid f where f: "forward_query draws (forward_now e) True q addr (dp_forwarder s) =
        Some (Ok txid, [(?up, hi8 txid # lo8 txid # drop 2 buf)], f)"
      "txid \<noteq> 0" "\<forall>tx. (txid, tx) \<in> set (pending_tx (dp_forwarder s)) \<longrightarrow> expired (forward_now e) tx"
      "map_of (pending_tx f) txid = Some \<lparr>client_txid = be16 (buf ! 0) (buf ! 1), client_addr = addr,
        expected_qname = ?n, expected_qtype = ?t, timestamp = forward_now e\<rparr>"
    using forward_query_outcomes(1) [OF assms(1,6,7,8,10), of addr] by blast
  have "be16 (buf ! 0) (buf ! 1) = wh_id (pp_header q)"
    using id_of_header [of buf "pp_header q"] parse_header [OF assms(1)] by simp
  moreover have "upstream_addr f = ?up" by (rule forward_query_result(2) [OF assms(6) f(1)])
  moreover have "handle_client draws quiet e snap g buf addr s = Some
      (alerts_for quiet ?n @ [ToUpstream ?up (hi8 txid # lo8 txid # drop 2 buf)], s\<lparr>dp_cache := c, dp_forwarder := f\<rparr>)"
    using assms(2,3,9) l miss f(1) by (simp add: handle_client_Ok [OF assms(1)])
  ultimately show ?thesis using f(2-4) okc
    by (intro exI [of _ "alerts_for quiet ?n @ [ToUpstream ?up (hi8 txid # lo8 txid # drop 2 buf)]"]
        exI [of _ "s\<lparr>dp_cache := c, dp_forwarder := f\<rparr>"] exI [of _ txid]) simp
qed

lemma response_relayed_and_filed:
  assumes "parse r = Some (Ok p)" "is_response (pp_header p)" "cache_ok (dp_cache s)"
    and "map_of (pending_tx (dp_forwarder s)) (wh_id (pp_header p)) = Some tx"
    and "qname (question p) = expected_qname tx" "qtype (question p) = expected_qtype tx"
  shows "\<exists>s'. handle_upstream e g r (upstream_addr (dp_forwarder s)) s =
      Some ([ToClient (client_addr tx) (hi8 (client_txid tx) # lo8 (client_txid tx) # drop 2 r)], s') \<and>
    cache_inv (dp_cache s') \<and>
    map_of (cache_view (dp_cache s')) (make_key (qname (question p)) (qtype (question p)) 1) =
      Some (r, insert_now e + 60 * 10 ^ 9, g)"
proof -
  let ?f = "dp_forwarder s" and ?t = "wh_id (pp_header p)"
  have len: "2 \<le> length r" using parse_header [OF assms(1)] by simp
  have v: "validate_response r (upstream_addr ?f) ?f = Some (Ok tx, consumed ?t ?f)"
    unfolding validate_response_Ok_iff admissible_def answers_def
    using assms parse_header [OF assms(1)] by (intro exI [of _ "pp_header p"] exI [of _ p]) simp
  obtain c where c: "cache_insert (insert_now e) (expected_qname tx) (expected_qtype tx) 1 r 60 g (dp_cache s) = Some c"
    using dns_cache.insert_total [OF assms(3)] by blast
  have "handle_upstream e g r (upstream_addr ?f) s = Some ([ToClient (client_addr tx) (with_id (client_txid tx) r)],
      s\<lparr>dp_forwarder := consumed ?t ?f, dp_cache := c\<rparr>)"
    using v c by (simp add: handle_upstream_def with_id_def)
  moreover have "cache_inv c" using dns_cache.insert_invar [OF assms(3) c] by (simp add: cache_ok_def)
  moreover have "map_of (cache_view c) (make_key (qname (question p)) (qtype (question p)) 1) =
      Some (r, insert_now e + 60 * 10 ^ 9, g)"
    using cache_insert_content [OF assms(3) c] assms(5,6)
    by (simp add: cache_content_def expiry_def clamp_ttl_def)
  ultimately show ?thesis using with_id_eq [OF len] by simp
qed

lemma answered_from_cache:
  assumes "parse buf = Some (Ok q)" "\<not> policy_blocks snap (qname (question q))" "qname (question q) \<noteq> ''sinkhole.test''"
    and "cache_inv (dp_cache s)" "2 \<le> length r" "lookup_now e < x"
    and "map_of (cache_view (dp_cache s)) (make_key (qname (question q)) (qtype (question q)) (qclass (question q))) =
      Some (r, x, g)"
  shows "\<exists>out s'. handle_client draws quiet e snap g buf addr s = Some (out, s') \<and>
    filter is_send out = [ToClient addr (hi8 (wh_id (pp_header q)) # lo8 (wh_id (pp_header q)) # drop 2 r)]"
proof -
  obtain en c where "cache_lookup (lookup_now e) (qname (question q)) (qtype (question q)) (qclass (question q)) g
      (dp_cache s) = Some (Some en, c)" "ce_response en = r"
    using lookup_present [OF assms(4,7), of "lookup_now e" g] assms(6) by (auto simp: content_of_def)
  then show ?thesis
    using assms(2,3) with_id_eq [OF assms(5)] by (simp add: handle_client_Ok [OF assms(1)])
qed

section \<open>Properties\<close>

text \<open>
  Property C19 (an update retires every cached answer).  After any run from start-up, when a control connection
  raises the generation, every lookup under the new generation misses, for every question and at
  every time: no answer obtained under an older policy is served again, whether the new policy permits the
  name or not.  (\<open>docs/decisions/ADR-004\<close> describes otherwise that an entry which is still permitted gets the
  new generation and stays in use.)
\<close>

theorem policy_update_retires_cache:
  assumes "recurring draws" "pending_tx f = []" "dp_run draws quiet evs (startup f) = Some (out, s)"
    and "global_generation (dp_manager s) < global_generation (dp_manager (control_event data s))"
  shows "\<exists>c. cache_lookup now n t cl (global_generation (dp_manager (control_event data s)))
    (dp_cache (control_event data s)) = Some (None, c)"
proof -
  let ?C = "\<Union> (from_clients ` set evs)" and ?U = "\<Union> (from_upstream ` set evs)"
  let ?g = "global_generation (dp_manager (control_event data s))"
  have inv: "dp_inv ?C ?U (upstream_addr f) s"
    using run_from_startup_inv [OF assms(1-3)] by blast
  then have ok: "cache_ok (dp_cache s)" by (simp add: dp_inv_def packet_inv_def)
  have cache: "dp_cache (control_event data s) = dp_cache s" by (simp add: control_event_def)
  obtain r c where l: "cache_lookup now n t cl ?g (dp_cache s) = Some (r, c)"
    using dns_cache.lookup_total [OF ok, of now n t cl ?g] by auto
  have "r = None"
  proof (rule ccontr)
    assume "r \<noteq> None"
    then obtain e where "r = Some e" by blast
    then have "cache_content (dp_cache s) (n, t, cl) = Some (content_of e)" "ce_policy_generation e = ?g"
      using dns_cache.lookup_hit [OF ok] l by blast+
    then have "?g \<le> global_generation (dp_manager s)"
      using inv unfolding dp_inv_def packet_inv_def entry_ok_def content_of_def by fastforce
    with assms(4) show False by simp
  qed
  with l cache show ?thesis by simp
qed

text \<open>An answer that is filed by the first two turns, found before the update and not after it.\<close>

definition sample_answer :: "u16 \<Rightarrow> bytes" where
  "sample_answer i = query_bytes (sample_header\<lparr>wh_id := i, wh_flags := 0x8180\<rparr>) sample_labels 1 1"

lemma sample_answer_parses:
  "\<exists>p. parse (sample_answer i) = Some (Ok p) \<and> is_response (pp_header p) \<and> wh_id (pp_header p) = i \<and>
     qname (question p) = ''www.ex'' \<and> qtype (question p) = 1"
proof -
  let ?h = "sample_header\<lparr>wh_id := i, wh_flags := 0x8180\<rparr>"
  have "\<forall>l \<in> set sample_labels. valid_label l" "length (name_text sample_labels) \<le> 253" "name_text sample_labels = ''www.ex''"
    by code_simp+
  moreover have "wh_opcode ?h = 0" "is_response ?h" "wh_qdcount ?h = 1"
    by (simp_all add: wh_opcode_def is_response_def sample_header_def)
  moreover have "length (query_bytes ?h sample_labels 1 1 @ []) \<le> 4096"
    using length_query_bytes [of ?h sample_labels 1 1] by (simp add: sample_labels_def)
  ultimately show ?thesis
    using parse_query_bytes [of sample_labels ?h 1 1 "[]"] by (auto simp: sample_answer_def)
qed

lemma sample_update:
  assumes "dp_manager s = init_manager"
  shows "global_generation (dp_manager (control_event (policy_request 2 ''v2'' [''ads.test''] [] []) s)) = 2"
proof -
  let ?r = "policy_request 2 ''v2'' [''ads.test''] [] []"
  have "length ?r \<le> 8191" "?r \<noteq> []" "CHR 0x00 \<notin> set ?r" by code_simp+
  note serve = serve_short [OF this]
  have "global_generation (snd (handle_command ?r init_manager)) = 2" by code_simp
  then show ?thesis by (simp add: control_event_def assms serve)
qed

lemma sample_resolution:
  obtains evs out s r where "dp_run word_of_nat True evs (startup open_forwarder) = Some (out, s)"
    "dp_manager s = init_manager" "cache_inv (dp_cache s)"
    "map_of (cache_view (dp_cache s)) (make_key ''www.ex'' 1 1) = Some (r, 60 * 10 ^ 9, 1)"
proof -
  let ?d = "query_bytes sample_header sample_labels 1 1" and ?s = "startup open_forwarder" and ?up = "upstream_addr open_forwarder"
  obtain q where q: "parse ?d = Some (Ok q)" "qname (question q) = ''www.ex''" "qtype (question q) = 1"
  proof -
    have "\<forall>l \<in> set sample_labels. valid_label l" "length (name_text sample_labels) \<le> 253"
      "wh_opcode sample_header = 0" "wh_qdcount sample_header = 1" "length (?d @ []) \<le> 4096"
      "name_text sample_labels = ''www.ex''"
      by code_simp+
    from parse_query_bytes [OF this(1-5)] this(6) show ?thesis using that by simp
  qed
  have d: "receive ?d = ?d" "?d \<noteq> []" by code_simp+
  have "cache_ok (dp_cache ?s)" "fw_inv (dp_forwarder ?s)" "0 \<le> socket_fd (dp_forwarder ?s)" "forward_sent sample_env"
    "cache_content (dp_cache ?s) (qname (question q), qtype (question q), qclass (question q)) = None"
    "length (filter (\<lambda>x. \<not> expired (forward_now sample_env) (snd x)) (pending_tx (dp_forwarder ?s))) < 2048"
    using new_cache_ok [of 10000]
    by (simp_all add: startup_def cache_ok_def open_forwarder_def new_forwarder_def fw_inv_def sample_env_def)
  with miss_goes_upstream [OF q(1) bootstrap_blocks_nothing _ _ _ _ _ recurring_word_of_nat, of ?s sample_env True 1 sample_client] q(2)
  obtain out1 s1 i tx where c: "handle_client word_of_nat True sample_env (active_snapshot init_manager) 1 ?d sample_client ?s = Some (out1, s1)"
    "cache_ok (dp_cache s1)" "upstream_addr (dp_forwarder s1) = ?up" "map_of (pending_tx (dp_forwarder s1)) i = Some tx"
    "expected_qname tx = ''www.ex''" "expected_qtype tx = 1"
    using q(3) by (auto simp: startup_def)
  let ?r = "sample_answer i"
  obtain p where p: "parse ?r = Some (Ok p)" "is_response (pp_header p)" "wh_id (pp_header p) = i"
    "qname (question p) = ''www.ex''" "qtype (question p) = 1" using sample_answer_parses by blast
  have r: "receive ?r = ?r" "?r \<noteq> []"
    using parse_Ok_question [OF p(1)] p(1) by (auto simp: receive_short elim: parse_OkD simp: parsed_from_def)
  obtain out2 s2 where u: "handle_upstream sample_env 1 ?r ?up s1 = Some (out2, s2)" "cache_inv (dp_cache s2)"
    "map_of (cache_view (dp_cache s2)) (make_key ''www.ex'' 1 1) = Some (?r, 60 * 10 ^ 9, 1)"
    using response_relayed_and_filed [OF p(1,2) c(2), of tx sample_env 1] p c(3-6) by (auto simp: sample_env_def)
  have m: "dp_manager s1 = init_manager" "dp_manager s2 = init_manager"
    using handle_client_manager [OF c(1)] handle_upstream_manager [OF u(1)] by (simp_all add: startup_manager)
  have "global_generation init_manager = 1" by (simp add: init_manager_def)
  then have "dp_run word_of_nat True [Turn sample_env (Some (?d, sample_client)) None, Turn sample_env None (Some (?r, ?up))] ?s =
      Some (out1 @ out2, s2)"
    using c(1) u(1) d r m by (simp add: loop_turn_def when_ready_def client_event_def upstream_event_def startup_manager)
  then show ?thesis using m(2) u(2,3) by (rule that)
qed

theorem policy_update_retires_cache_witness:
  "\<exists>evs out s entry c c'. dp_run word_of_nat True evs (startup open_forwarder) = Some (out, s) \<and>
    cache_lookup 5 ''www.ex'' 1 1 1 (dp_cache s) = Some (Some entry, c) \<and>
    cache_lookup 5 ''www.ex'' 1 1 2 (dp_cache (control_event (policy_request 2 ''v2'' [''ads.test''] [] []) s)) = Some (None, c')"
proof -
  obtain evs out s r where s: "dp_run word_of_nat True evs (startup open_forwarder) = Some (out, s)" "dp_manager s = init_manager"
    "cache_inv (dp_cache s)" "map_of (cache_view (dp_cache s)) (make_key ''www.ex'' 1 1) = Some (r, 60 * 10 ^ 9, 1)"
    by (rule sample_resolution)
  note g = sample_update [OF s(2)]
  from policy_update_retires_cache [OF recurring_word_of_nat open_forwarder_idle s(1),
      of "policy_request 2 ''v2'' [''ads.test''] [] []" 5 "''www.ex''" 1 1, unfolded g] s(2)
  obtain c' where "cache_lookup 5 ''www.ex'' 1 1 2 (dp_cache (control_event (policy_request 2 ''v2'' [''ads.test''] [] []) s)) = Some (None, c')"
    by (auto simp: init_manager_def)
  moreover obtain entry c where "cache_lookup 5 ''www.ex'' 1 1 1 (dp_cache s) = Some (Some entry, c)"
    using lookup_present [OF s(3,4), of 5 1] by auto
  ultimately show ?thesis using s(1) by blast
qed

end
