(* ===== verification/Fuzz_Harness.thy ===== *)
theory Fuzz_Harness
  imports Parser
begin

text \<open>
  The fuzzing harness of the parser (\<open>dataplane/tests/fuzz_dns_parser.cpp\<close>): the seed packets, the seven
  mutations and the campaign loop with its counters, its \<open>try\<close> and its \<open>catch\<close>.  What the random engine and
  the two distributions return in one iteration is a record of draws, an argument, and so is the call of the
  parser, which may throw; the report it prints and the files it writes are left out.
\<close>

section \<open>Seeds\<close>

text \<open>The \<open>while (start < domain.size())\<close> loop; the length byte is a cast to \<open>uint8_t\<close>.\<close>

function label_loop :: "string \<Rightarrow> nat \<Rightarrow> bytes \<Rightarrow> bytes" where
  "label_loop domain start pkt =
     (if start < length domain then
        let dot = (case find_char CHR ''.'' domain start of None \<Rightarrow> length domain | Some d \<Rightarrow> d);
            label = take (dot - start) (drop start domain)
        in label_loop domain (dot + 1) (pkt @ word_of_nat (length label) # map char_byte label)
      else pkt)"
  by pat_completeness auto

termination
  by (relation "measure (\<lambda>(domain, start, pkt). length domain - start)")
    (auto split: option.splits dest: find_char_SomeD(1))

declare label_loop.simps [simp del]

definition make_base_packet :: "string \<Rightarrow> bytes" where
  "make_base_packet domain =
     (let pkt = (replicate 12 0)[0 := 0x12, 1 := 0x34, 2 := 0x01, 3 := 0x00, 5 := 0x01]
      in label_loop domain 0 pkt @ [0x00] @ [0x00, 0x01] @ [0x00, 0x01])"

definition corpus :: "bytes list" where
  "corpus =
     [make_base_packet ''example.com'',
      make_base_packet ''deeply.nested.sub.domain.test.org'',
      make_base_packet ''a.b.c.d.e.f.g.h.i.j.k.l.m.n.o.p.q.r.s.t.u.v.w.x.y.z.com'',
      make_base_packet ''max-label-length-123456789012345678901234567890123456789012345678.com'']"

section \<open>Mutations\<close>

text \<open>One iteration's draws: the type of the mutation, the values of \<open>rng()\<close> in the order they are drawn,
  and the value of the byte distribution.\<close>

record fuzz_draw =
  mut_type :: int
  draw1 :: u32
  draw2 :: u32
  byte_drawn :: int

definition mutate :: "fuzz_draw \<Rightarrow> bytes \<Rightarrow> bytes" where
  "mutate d pkt =
     (if mut_type d = 0 then if pkt \<noteq> [] then take (unat (draw1 d) mod length pkt) pkt else pkt
      else if mut_type d = 1 then if 14 < length pkt then pkt[12 := 0xC0, 13 := 0x0C] else pkt
      else if mut_type d = 2 then
        if 16 < length pkt then pkt[12 := 0xC0, 13 := 0x0E, 14 := 0xC0, 15 := 0x0C] else pkt
      else if mut_type d = 3 then if 14 < length pkt then pkt[12 := 0xC0, 13 := 0xFF] else pkt
      else if mut_type d = 4 then if 12 < length pkt then pkt[12 := 0x3F] else pkt
      else if mut_type d = 5 then
        if pkt \<noteq> [] then
          let pos = unat (draw1 d) mod length pkt
          in pkt[pos := pkt ! pos XOR push_bit (unat (draw2 d) mod 8) 1]
        else pkt
      else if mut_type d = 6 then
        if pkt \<noteq> [] then pkt[unat (draw1 d) mod length pkt := word_of_int (byte_drawn d)] else pkt
      else pkt)"

section \<open>The campaign\<close>

record campaign =
  valid_parses :: nat
  graceful_rejections :: nat
  total_crashes :: nat

text \<open>
  One call of the parser in the \<open>try\<close> block: it returns a result or throws; \<open>None\<close> is undefined behaviour,
  which would be that of the whole campaign.  The loop takes the call as an argument.
\<close>

datatype 'a attempt = Returns 'a | Throws

fun count_attempt :: "'a result attempt \<Rightarrow> campaign \<Rightarrow> campaign" where
  "count_attempt (Returns res) c =
     (if is_ok res then c\<lparr>valid_parses := valid_parses c + 1\<rparr>
      else c\<lparr>graceful_rejections := graceful_rejections c + 1\<rparr>)"
| "count_attempt Throws c = c\<lparr>total_crashes := total_crashes c + 1\<rparr>"

fun fuzz_loop :: "(bytes \<Rightarrow> 'a result attempt option) \<Rightarrow> nat \<Rightarrow> fuzz_draw list \<Rightarrow> campaign \<Rightarrow> campaign option" where
  "fuzz_loop call i [] c = Some c"
| "fuzz_loop call i (d # ds) c = do {
     attempt \<leftarrow> call (mutate d (corpus ! (i mod length corpus)));
     fuzz_loop call (i + 1) ds (count_attempt attempt c) }"

definition campaign_exit :: "campaign \<Rightarrow> int" where
  "campaign_exit c = (if total_crashes c = 0 then 0 else 1)"

definition fuzz_main :: "(bytes \<Rightarrow> 'a result attempt option) \<Rightarrow> fuzz_draw list \<Rightarrow> (campaign \<times> int) option" where
  "fuzz_main call ds = do {
     c \<leftarrow> fuzz_loop call 0 ds \<lparr>valid_parses = 0, graceful_rejections = 0, total_crashes = 0\<rparr>;
     Some (c, campaign_exit c) }"

text \<open>The parser of this program: nothing in it throws (but for a failed allocation).\<close>

definition parse_call :: "bytes \<Rightarrow> parsed_packet result attempt option" where
  "parse_call pkt = map_option Returns (parse pkt)"

section \<open>The seeds as encoded queries\<close>

definition dot_free :: "string \<Rightarrow> bool" where
  "dot_free l \<longleftrightarrow> l \<noteq> [] \<and> CHR ''.'' \<notin> set l"

lemma find_char_dot_free:
  "dot_free l \<Longrightarrow> drop start s = l \<Longrightarrow> find_char CHR ''.'' s start = None"
  "dot_free l \<Longrightarrow> drop start s = l @ CHR ''.'' # rest \<Longrightarrow> find_char CHR ''.'' s start = Some (start + length l)"
proof -
  have "find_from ((=) CHR ''.'') l = None" if "dot_free l" for l
    using that by (auto simp: find_from_None_iff dot_free_def)
  moreover have "find_from ((=) CHR ''.'') (l @ CHR ''.'' # rest) = Some (length l)" if "CHR ''.'' \<notin> set l" for l
    using that by (induction l) auto
  ultimately show "dot_free l \<Longrightarrow> drop start s = l \<Longrightarrow> find_char CHR ''.'' s start = None"
    "dot_free l \<Longrightarrow> drop start s = l @ CHR ''.'' # rest \<Longrightarrow> find_char CHR ''.'' s start = Some (start + length l)"
    by (simp_all add: find_char_def dot_free_def)
qed

lemma label_loop_labels:
  assumes "drop start domain = join_dots ls" "\<forall>l \<in> set ls. dot_free l"
  shows "label_loop domain start pkt @ [0] = pkt @ encode_name (map (map char_byte) ls)"
  using assms
proof (induction ls arbitrary: start pkt rule: join_dots.induct)
  case 1
  then show ?case by (simp add: label_loop.simps)
next
  case (2 l)
  then have "start < length domain" "length domain = start + length l"
    by (auto simp: dot_free_def dest: arg_cong [where f = length])
  with 2 show ?case by (simp add: label_loop.simps [of _ start] label_loop.simps [of _ "Suc _"] find_char_dot_free(1) [of l])
next
  case (3 l l' ls)
  let ?rest = "join_dots (l' # ls)"
  have d: "drop start domain = l @ CHR ''.'' # ?rest" using 3(2) by simp
  have f: "find_char CHR ''.'' domain start = Some (start + length l)" using 3(3) d by (intro find_char_dot_free(2)) auto
  have "start < length domain" using d by (cases "start < length domain") auto
  moreover have "drop (Suc (start + length l)) domain = ?rest"
    using arg_cong [OF d, of "drop (Suc (length l))"] by (simp add: add.commute)
  ultimately show ?case
    using 3(1) [of "Suc (start + length l)"] 3(3) d f by (simp add: label_loop.simps [of _ start])
qed

lemma base_header: "(replicate 12 0)[0 := 0x12, 1 := 0x34, 2 := 0x01, 3 := 0x00, 5 := 0x01] = header_bytes sample_header"
  by code_simp

lemma make_base_packet_labels:
  assumes "\<forall>l \<in> set ls. dot_free l"
  shows "make_base_packet (join_dots ls) = query_bytes sample_header (map (map char_byte) ls) 1 1"
proof -
  have "[hi8 1, lo8 1, hi8 1, lo8 1] = [0x00, 0x01] @ [0x00, 0x01]" by code_simp
  with label_loop_labels [of 0 "join_dots ls" ls "header_bytes sample_header"] assms show ?thesis
    unfolding make_base_packet_def Let_def base_header query_bytes_def by (metis append.assoc drop0)
qed

section \<open>What the parser makes of a mutated seed\<close>

definition rejects :: "error_code \<Rightarrow> bytes \<Rightarrow> bool" where
  "rejects e pkt \<longleftrightarrow> parse pkt = Some (Err e)"

definition rejected :: "bytes \<Rightarrow> bool" where
  "rejected pkt \<longleftrightarrow> (\<exists>e. rejects e pkt)"

text \<open>A packet that the parser has read to its last byte, or one that it rejects, has no accepted strict prefix.\<close>

definition read_to_end :: "bytes \<Rightarrow> bool" where
  "read_to_end pkt = (case parse pkt of Some (Ok q) \<Rightarrow> 12 + wire_bytes_consumed (question q) = length pkt | _ \<Rightarrow> length pkt \<le> 4096)"

lemma truncation_rejected:
  assumes "read_to_end pkt" "n < length pkt"
  shows "rejected (take n pkt)"
proof -
  obtain r r' where r: "parse pkt = Some r" "parse (take n pkt) = Some r'" using parse_not_None by blast
  show ?thesis
  proof (cases r)
    case (Ok q)
    with assms r strict_prefix_rejected [of pkt q n] show ?thesis
      by (simp add: read_to_end_def rejected_def rejects_def)
  next
    case (Err e)
    with assms(1) r(1) have "length pkt \<le> 4096" by (simp add: read_to_end_def)
    with parse_extend [of "take n pkt" _ "drop n pkt"] r Err show ?thesis
      by (cases r') (auto simp: rejected_def rejects_def)
  qed
qed

text \<open>The bytes of the seeds, evaluated once.\<close>

lemma corpus_bytes:
  "corpus =
     [[18, 52, 1, 0, 0, 1, 0, 0, 0, 0, 0, 0, 7, 101, 120, 97, 109, 112, 108, 101, 3, 99, 111, 109, 0, 0,
       1, 0, 1],
      [18, 52, 1, 0, 0, 1, 0, 0, 0, 0, 0, 0, 6, 100, 101, 101, 112, 108, 121, 6, 110, 101, 115, 116, 101,
       100, 3, 115, 117, 98, 6, 100, 111, 109, 97, 105, 110, 4, 116, 101, 115, 116, 3, 111, 114,
       103, 0, 0, 1, 0, 1],
      [18, 52, 1, 0, 0, 1, 0, 0, 0, 0, 0, 0, 1, 97, 1, 98, 1, 99, 1, 100, 1, 101, 1, 102, 1, 103, 1, 104,
       1, 105, 1, 106, 1, 107, 1, 108, 1, 109, 1, 110, 1, 111, 1, 112, 1, 113, 1, 114, 1, 115, 1,
       116, 1, 117, 1, 118, 1, 119, 1, 120, 1, 121, 1, 122, 3, 99, 111, 109, 0, 0, 1, 0, 1],
      [18, 52, 1, 0, 0, 1, 0, 0, 0, 0, 0, 0, 65, 109, 97, 120, 45, 108, 97, 98, 101, 108, 45, 108, 101,
       110, 103, 116, 104, 45, 49, 50, 51, 52, 53, 54, 55, 56, 57, 48, 49, 50, 51, 52, 53, 54, 55,
       56, 57, 48, 49, 50, 51, 52, 53, 54, 55, 56, 57, 48, 49, 50, 51, 52, 53, 54, 55, 56, 57, 48,
       49, 50, 51, 52, 53, 54, 55, 56, 3, 99, 111, 109, 0, 0, 1, 0, 1]]"
  by code_simp

lemma mutated_seeds:
  "\<forall>p \<in> set corpus. rejects POINTER_LOOP_DETECTED (p[12 := 0xC0, 13 := 0x0C])"
  "\<forall>p \<in> set corpus. rejects POINTER_LOOP_DETECTED (p[12 := 0xC0, 13 := 0x0E, 14 := 0xC0, 15 := 0x0C])"
  "\<forall>p \<in> set corpus. rejects POINTER_OUT_OF_BOUNDS (p[12 := 0xC0, 13 := 0xFF])"
  "\<forall>p \<in> set corpus. 16 < length p"
  unfolding corpus_bytes by code_simp+

lemma overlong_first_label: "\<forall>p \<in> set corpus. rejects POINTER_OUT_OF_BOUNDS (p[12 := 0x3F])"
  unfolding corpus_bytes by code_simp

lemma seeds_read_to_end: "\<forall>p \<in> set corpus. read_to_end p"
  unfolding corpus_bytes by code_simp

lemma hostile_mutation:
  assumes "p \<in> set corpus"
  shows "mut_type d = 0 \<Longrightarrow> rejected (mutate d p)"
    and "mut_type d = 1 \<or> mut_type d = 2 \<Longrightarrow> rejects POINTER_LOOP_DETECTED (mutate d p)"
    and "mut_type d = 3 \<or> mut_type d = 4 \<Longrightarrow> rejects POINTER_OUT_OF_BOUNDS (mutate d p)"
proof -
  have "16 < length p" using mutated_seeds(4) assms by blast
  moreover from this have "p \<noteq> []" "unat (draw1 d) mod length p < length p" by (auto intro: mod_less_divisor)
  ultimately show "mut_type d = 0 \<Longrightarrow> rejected (mutate d p)"
    using seeds_read_to_end assms truncation_rejected [of p] by (simp add: mutate_def)
  show "mut_type d = 1 \<or> mut_type d = 2 \<Longrightarrow> rejects POINTER_LOOP_DETECTED (mutate d p)"
    using mutated_seeds(1,2) assms \<open>16 < length p\<close> by (auto simp: mutate_def)
  show "mut_type d = 3 \<or> mut_type d = 4 \<Longrightarrow> rejects POINTER_OUT_OF_BOUNDS (mutate d p)"
    using mutated_seeds(3) overlong_first_label assms \<open>16 < length p\<close> by (auto simp: mutate_def)
qed

text \<open>The mutations whose result the seeds decide.\<close>

definition hostile :: "fuzz_draw \<Rightarrow> bool" where
  "hostile d \<longleftrightarrow> 0 \<le> mut_type d \<and> mut_type d \<le> 4"

lemma hostile_rejected:
  assumes "p \<in> set corpus" "hostile d"
  shows "rejected (mutate d p)"
proof -
  have "mut_type d = 0 \<or> (mut_type d = 1 \<or> mut_type d = 2) \<or> (mut_type d = 3 \<or> mut_type d = 4)"
    using assms(2) by (auto simp: hostile_def)
  with hostile_mutation [OF assms(1), of d] show ?thesis unfolding rejected_def by blast
qed

lemma corpus_nth: "corpus ! (i mod length corpus) \<in> set corpus"
  by (rule nth_mem) (simp add: corpus_def)

lemma fuzz_loop_parse:
  "\<exists>c'. fuzz_loop parse_call i ds c = Some c' \<and> total_crashes c' = total_crashes c \<and>
     valid_parses c' + graceful_rejections c' = valid_parses c + graceful_rejections c + length ds \<and>
     valid_parses c' \<le> valid_parses c + length (filter (\<lambda>d. \<not> hostile d) ds)"
proof (induction ds arbitrary: i c)
  case (Cons d ds)
  let ?p = "corpus ! (i mod length corpus)"
  obtain r where r: "parse (mutate d ?p) = Some r" using parse_not_None by blast
  have "is_ok r \<Longrightarrow> \<not> hostile d"
    using hostile_rejected [OF corpus_nth [of i], of d] r by (auto simp: rejected_def rejects_def)
  with Cons [of "i + 1" "count_attempt (Returns r) c"] r show ?case by (auto simp: parse_call_def)
qed simp

text \<open>The calls of a campaign, one per iteration.\<close>

fun attempts :: "(bytes \<Rightarrow> 'a result attempt option) \<Rightarrow> nat \<Rightarrow> fuzz_draw list \<Rightarrow> 'a result attempt option list" where
  "attempts call i [] = []"
| "attempts call i (d # ds) = call (mutate d (corpus ! (i mod length corpus))) # attempts call (i + 1) ds"

lemma fuzz_loop_counts:
  "fuzz_loop call i ds c = Some c' \<Longrightarrow>
     total_crashes c' = total_crashes c + length (filter (\<lambda>a. a = Some Throws) (attempts call i ds)) \<and>
     valid_parses c' + graceful_rejections c' + total_crashes c' =
       valid_parses c + graceful_rejections c + total_crashes c + length ds"
proof (induction ds arbitrary: i c)
  case (Cons d ds)
  then obtain a where a: "call (mutate d (corpus ! (i mod length corpus))) = Some a"
      "fuzz_loop call (i + 1) ds (count_attempt a c) = Some c'"
    by (auto simp: bind_eq_Some_conv)
  from Cons.IH [OF this(2)] a(1) show ?case by (cases a) auto
qed simp

section \<open>Properties\<close>

text \<open>
  Property C15 (the attack vectors of the harness).  Whatever the random engine draws, a seed that is
  truncated is rejected; a seed whose name becomes a pointer to itself or two pointers to each other is
  rejected as a pointer loop; and a seed whose name becomes a pointer behind the packet, or a label that is
  longer than it was, as out of bounds.
\<close>

theorem hostile_mutations_rejected:
  assumes "seed \<in> set corpus"
  shows "(mut_type d = 0 \<longrightarrow> (\<exists>e. parse (mutate d seed) = Some (Err e))) \<and>
    (mut_type d \<in> {1, 2} \<longrightarrow> parse (mutate d seed) = Some (Err POINTER_LOOP_DETECTED)) \<and>
    (mut_type d \<in> {3, 4} \<longrightarrow> parse (mutate d seed) = Some (Err POINTER_OUT_OF_BOUNDS))"
  using hostile_mutation [OF assms, of d] by (simp add: rejected_def rejects_def)

theorem hostile_mutations_rejected_witness:
  "parse (mutate \<lparr>mut_type = 1, draw1 = 0, draw2 = 0, byte_drawn = 0\<rparr> (make_base_packet ''example.com'')) =
     Some (Err POINTER_LOOP_DETECTED) \<and>
   (\<exists>e. parse (mutate \<lparr>mut_type = 0, draw1 = 20, draw2 = 0, byte_drawn = 0\<rparr> (make_base_packet ''example.com'')) =
     Some (Err e))"
proof -
  have "make_base_packet ''example.com'' \<in> set corpus" by (simp add: corpus_def)
  note hostile_mutations_rejected [OF this]
  from this [of "\<lparr>mut_type = 1, draw1 = 0, draw2 = 0, byte_drawn = 0\<rparr>"]
    this [of "\<lparr>mut_type = 0, draw1 = 20, draw2 = 0, byte_drawn = 0\<rparr>"]
  show ?thesis by simp
qed

text \<open>
  Further fact (the campaign).  Whatever the parser called does, a campaign that ends has counted every iteration
  once and as crashes exactly the calls that threw, and returns 0 when there was none.  With the parser of
  this program it does end, with no crash, and the packets that parse are at most the iterations that
  flipped a bit or replaced a byte.
\<close>

theorem fuzz_campaign_counts:
  "(fuzz_main call ds = Some (c, e) \<longrightarrow>
      valid_parses c + graceful_rejections c + total_crashes c = length ds \<and>
      total_crashes c = length (filter (\<lambda>a. a = Some Throws) (attempts call 0 ds)) \<and>
      (e = 0 \<longleftrightarrow> Some Throws \<notin> set (attempts call 0 ds))) \<and>
   (\<exists>c'. fuzz_main parse_call ds = Some (c', 0) \<and>
      valid_parses c' \<le> length (filter (\<lambda>d. mut_type d < 0 \<or> 4 < mut_type d) ds))"
proof -
  have "(\<lambda>d. \<not> hostile d) = (\<lambda>d. mut_type d < 0 \<or> 4 < mut_type d)" by (auto simp: hostile_def)
  with fuzz_loop_parse [of 0 ds "\<lparr>valid_parses = 0, graceful_rejections = 0, total_crashes = 0\<rparr>"]
    fuzz_loop_counts [of call 0 ds "\<lparr>valid_parses = 0, graceful_rejections = 0, total_crashes = 0\<rparr>" c]
  show ?thesis
    by (auto simp: fuzz_main_def campaign_exit_def filter_empty_conv bind_eq_Some_conv split: if_splits)
qed

theorem fuzz_campaign_counts_witness:
  "\<exists>c. fuzz_main (\<lambda>pkt. Some (Throws :: unit result attempt)) [\<lparr>mut_type = 5, draw1 = 0, draw2 = 0, byte_drawn = 0\<rparr>] = Some (c, 1) \<and>
     total_crashes c = 1"
proof -
  let ?call = "\<lambda>pkt. Some (Throws :: unit result attempt)" and ?ds = "[\<lparr>mut_type = 5, draw1 = 0, draw2 = 0, byte_drawn = 0\<rparr>]"
  obtain c where c: "fuzz_main ?call ?ds = Some (c, 1)" by (simp add: fuzz_main_def campaign_exit_def)
  with fuzz_campaign_counts [of ?call ?ds c 1] show ?thesis by simp
qed

text \<open>
  Further fact (the longest-label seed is no valid packet).  The fourth seed is named after the maximal label
  but its first label has 65 bytes, so the parser rejects it before any mutation.
\<close>

theorem max_label_seed_rejected: "parse (corpus ! 3) = Some (Err INVALID_LABEL_LENGTH)"
  unfolding corpus_bytes by code_simp

end
