(* ===== verification/Benchmark_Client.thy ===== *)
theory Benchmark_Client
  imports Resolution Fuzz_Harness
begin

text \<open>
  The client of the live benchmark (\<open>offline/benchmarks/runner.py\<close>): how it builds its queries, what it
  counts as a success, and the workloads.  A Python exception is an error value.  A \<open>str\<close> is a list of
  characters up to code point 255; anything from 128 on fails to encode.  What the socket returns is an
  argument; latencies, percentiles (binary floating point) and the report are left out.
\<close>

section \<open>The code\<close>

datatype python_error = ValueError | UnicodeEncodeError | ZeroDivisionError

text \<open>\<open>s.strip('.')\<close> and \<open>s.split('.')\<close>.\<close>

definition py_strip :: "char \<Rightarrow> string \<Rightarrow> string" where
  "py_strip c s = rev (dropWhile ((=) c) (rev (dropWhile ((=) c) s)))"

fun py_split :: "char \<Rightarrow> string \<Rightarrow> string list" where
  "py_split c [] = [[]]"
| "py_split c (x # xs) =
     (if x = c then [] # py_split c xs
      else case py_split c xs of [] \<Rightarrow> [[x]] | l # ls \<Rightarrow> (x # l) # ls)"

fun append_labels :: "string list \<Rightarrow> bytes \<Rightarrow> python_error + bytes" where
  "append_labels [] pkt = Inr pkt"
| "append_labels (label # labels) pkt =
     (if 255 < length label then Inl ValueError
      else if \<exists>c \<in> set label. 128 \<le> (of_char c :: nat) then Inl UnicodeEncodeError
      else append_labels labels (pkt @ word_of_nat (length label) # map char_byte label))"

definition make_dns_query :: "string \<Rightarrow> int \<Rightarrow> int \<Rightarrow> python_error + bytes" where
  "make_dns_query domain txid q_type =
     (let pkt = (replicate 12 0)
            [0 := word_of_int (drop_bit 8 txid AND 0xFF), 1 := word_of_int (txid AND 0xFF),
             2 := 0x01, 3 := 0x00, 4 := 0x00, 5 := 0x01]
      in case append_labels (py_split CHR ''.'' (py_strip CHR ''.'' domain)) pkt of
           Inl e \<Rightarrow> Inl e
         | Inr pkt \<Rightarrow> Inr (pkt @ [0] @ [word_of_int (drop_bit 8 q_type AND 0xFF), word_of_int (q_type AND 0xFF)] @
             [0x00, 0x01]))"

text \<open>\<open>send_query\<close> on what \<open>recvfrom(512)\<close> returns: a datagram cut at 512 bytes, or an exception, the
  time-out among them.\<close>

definition send_query :: "bytes option \<Rightarrow> bool" where
  "send_query received = (case received of Some resp \<Rightarrow> 12 \<le> length (take 512 resp) | None \<Rightarrow> False)"

definition worker_thread :: "(nat \<Rightarrow> bytes \<Rightarrow> bytes option) \<Rightarrow> bytes list \<Rightarrow> nat \<Rightarrow> python_error + bool list" where
  "worker_thread network queries count_per_thread =
     (if 0 < count_per_thread \<and> queries = [] then Inl ZeroDivisionError
      else Inr (map (\<lambda>i. send_query (network i (queries ! (i mod length queries)))) [0..<count_per_thread]))"

definition workload_domains :: "string \<Rightarrow> string list" where
  "workload_domains workload =
     (if workload = ''CACHE_HIT'' then [''example.com'']
      else if workload = ''BLOCKED_NXDOMAIN'' then [''doubleclick.net'', ''ad.doubleclick.net'', ''blocked.test'']
      else [''example.com'', ''doubleclick.net'', ''sinkhole.test'', ''blocked.test'', ''safe.doubleclick.net''])"

definition workload_queries :: "string \<Rightarrow> (python_error + bytes) list" where
  "workload_queries workload =
     map (\<lambda>(i, d). make_dns_query d (int i + 1) 1) (enumerate 0 (workload_domains workload))"

text \<open>The counts of \<open>run_benchmark\<close> over the threads in the order they complete, each with its network.\<close>

fun count_results :: "(nat \<Rightarrow> bytes \<Rightarrow> bytes option) list \<Rightarrow> bytes list \<Rightarrow> nat \<Rightarrow> nat \<times> nat \<Rightarrow> python_error + nat \<times> nat" where
  "count_results [] queries n (success_count, error_count) = Inr (success_count, error_count)"
| "count_results (network # threads) queries n (success_count, error_count) =
     (case worker_thread network queries n of
        Inl e \<Rightarrow> Inl e
      | Inr results \<Rightarrow> count_results threads queries n
          (success_count + length (filter id results), error_count + length (filter Not results)))"

definition run_benchmark ::
    "(nat \<Rightarrow> bytes \<Rightarrow> bytes option) list \<Rightarrow> nat \<Rightarrow> bytes list \<Rightarrow> python_error + nat \<times> nat" where
  "run_benchmark threads total_queries queries =
     (let concurrency = length threads
      in if concurrency = 0 then Inl ZeroDivisionError
         else count_results threads queries (total_queries div concurrency) (0, 0))"

section \<open>Queries\<close>

lemma py_split_dot_free: "CHR ''.'' \<notin> set l \<Longrightarrow> py_split CHR ''.'' l = [l]"
  by (induction l) auto

lemma py_split_join:
  assumes "ls \<noteq> []" "\<forall>l \<in> set ls. CHR ''.'' \<notin> set l"
  shows "py_split CHR ''.'' (join_dots ls) = ls"
  using assms
proof (induction ls rule: join_dots.induct)
  case (3 l l' ls)
  have "py_split CHR ''.'' (a @ CHR ''.'' # rest) = a # py_split CHR ''.'' rest" if "CHR ''.'' \<notin> set a" for a rest
    using that by (induction a) auto
  with 3 show ?case by simp
qed (simp_all add: py_split_dot_free)

lemma join_dots_ends:
  assumes "ls \<noteq> []" "\<forall>l \<in> set ls. dot_free l"
  shows "join_dots ls \<noteq> []" "hd (join_dots ls) \<noteq> CHR ''.''" "last (join_dots ls) \<noteq> CHR ''.''"
  using assms by (induction ls rule: join_dots.induct) (auto simp: dot_free_def dest: hd_in_set last_in_set)

lemma py_strip_join:
  assumes "ls \<noteq> []" "\<forall>l \<in> set ls. dot_free l"
  shows "py_strip CHR ''.'' (join_dots ls) = join_dots ls"
proof -
  have "dropWhile P s = s" if "s \<noteq> []" "\<not> P (hd s)" for P :: "char \<Rightarrow> bool" and s
    using that by (cases s) auto
  with join_dots_ends [OF assms] show ?thesis by (auto simp: py_strip_def hd_rev)
qed

text \<open>Labels a resolver may be asked for: no dot, no control character, ASCII, at most 63 characters.\<close>

definition query_label :: "string \<Rightarrow> bool" where
  "query_label l \<longleftrightarrow> dot_free l \<and> length l \<le> 63 \<and>
     (\<forall>c \<in> set l. 32 \<le> (of_char c :: nat) \<and> (of_char c :: nat) < 127)"

lemma query_label_valid: "query_label l \<Longrightarrow> valid_label (map char_byte l)"
  by (auto simp: query_label_def valid_label_def label_char_ok_def dot_free_def Suc_le_eq
      word_less_nat_alt word_unat_eq_iff not_less)

lemma append_labels_query:
  "\<forall>l \<in> set ls. query_label l \<Longrightarrow> append_labels ls pkt = Inr (pkt @ concat (map (\<lambda>l. word_of_nat (length l) # l) (map (map char_byte) ls)))"
proof (induction ls arbitrary: pkt)
  case (Cons l ls)
  have "\<not> 255 < length l" "\<not> (\<exists>c \<in> set l. 128 \<le> (of_char c :: nat))"
    using Cons.prems by (auto simp: query_label_def not_le)
  with Cons show ?case by simp
qed simp

lemma name_text_query: "name_text (map (map char_byte) ls) = map tolower (join_dots ls)"
proof -
  have "label_string (map char_byte l) = map tolower l" for l by (simp add: label_string_def)
  then show ?thesis by (induction ls rule: join_dots.induct) (simp_all add: name_text_def)
qed

lemma int_bytes:
  "word_of_int (drop_bit 8 x AND 0xFF) = hi8 (word_of_int x)" "word_of_int (x AND 0xFF) = lo8 (word_of_int x)"
proof -
  have m: "(0xFF :: int) = mask 8" by (simp add: mask_eq_exp_minus_1)
  show "word_of_int (drop_bit 8 x AND 0xFF) = hi8 (word_of_int x)"
    unfolding m by (rule bit_word_eqI) (auto simp: hi8_def bit_simps)
  show "word_of_int (x AND 0xFF) = lo8 (word_of_int x)"
    unfolding m by (rule bit_word_eqI) (auto simp: lo8_alt bit_simps)
qed

definition client_header :: "int \<Rightarrow> wire_header" where
  "client_header txid = sample_header\<lparr>wh_id := word_of_int txid\<rparr>"

lemma make_dns_query_labels:
  assumes "ls \<noteq> []" "\<forall>l \<in> set ls. query_label l"
  shows "make_dns_query (join_dots ls) txid t =
    Inr (query_bytes (client_header txid) (map (map char_byte) ls) (word_of_int t) 1)"
proof -
  let ?w = "word_of_int txid :: u16"
  have "\<forall>l \<in> set ls. dot_free l" "\<forall>l \<in> set ls. CHR ''.'' \<notin> set l" using assms(2) by (auto simp: query_label_def dot_free_def)
  with assms(1) have "py_split CHR ''.'' (py_strip CHR ''.'' (join_dots ls)) = ls"
    by (simp add: py_strip_join py_split_join)
  moreover have "(replicate 12 0)[0 := hi8 ?w, 1 := lo8 ?w, 2 := 0x01, 3 := 0x00, 4 := 0x00, 5 := 0x01] =
      header_bytes (client_header txid)"
  proof -
    have "[hi8 0x0100, lo8 0x0100, hi8 1, lo8 1, hi8 0, lo8 0] = [1, 0, 0, 1, 0, 0]" by code_simp
    then show ?thesis by (simp add: header_bytes_def client_header_def sample_header_def eval_nat_numeral)
  qed
  moreover have "[hi8 1, lo8 1] = [0x00, 0x01]" by code_simp
  ultimately show ?thesis
    unfolding make_dns_query_def int_bytes(1) unfolding int_bytes(2)
    using append_labels_query [OF assms(2)] by (simp add: query_bytes_def encode_name_def)
qed

lemma length_encode_text:
  "ls \<noteq> [] \<Longrightarrow> length (encode_name (map (map char_byte) ls)) = length (join_dots ls) + 2"
  by (induction ls rule: join_dots.induct) simp_all

lemma parse_client_query:
  assumes "ls \<noteq> []" "\<forall>l \<in> set ls. query_label l" "length (join_dots ls) \<le> 253"
  shows "\<exists>q. parse (query_bytes (client_header txid) (map (map char_byte) ls) (word_of_int t) 1) = Some (Ok q) \<and>
    pp_header q = client_header txid \<and> qname (question q) = map tolower (join_dots ls) \<and>
    qtype (question q) = word_of_int t \<and> qclass (question q) = 1"
proof -
  let ?ls = "map (map char_byte) ls"
  have "\<forall>l \<in> set ?ls. valid_label l" using assms(2) query_label_valid by auto
  moreover have "length (name_text ?ls) \<le> 253" using assms(3) by (simp add: name_text_query)
  moreover have "wh_opcode (client_header txid) = 0" "wh_qdcount (client_header txid) = 1"
  proof -
    have "wh_opcode sample_header = 0" "wh_qdcount sample_header = 1" by code_simp+
    then show "wh_opcode (client_header txid) = 0" "wh_qdcount (client_header txid) = 1"
      by (simp_all add: client_header_def wh_opcode_def)
  qed
  moreover have "length (query_bytes (client_header txid) ?ls (word_of_int t) 1 @ []) \<le> 4096"
    using assms(1,3) by (simp add: len_simps length_encode_text)
  ultimately show ?thesis
    using parse_query_bytes [of ?ls "client_header txid" "word_of_int t" 1 "[]"] by (simp add: name_text_query)
qed

section \<open>The blocked workload\<close>

definition blocked_names :: "string list list" where
  "blocked_names = [[''doubleclick'', ''net''], [''ad'', ''doubleclick'', ''net''], [''blocked'', ''test'']]"

lemma blocked_names_ok:
  "\<forall>ls \<in> set blocked_names. ls \<noteq> [] \<and> (\<forall>l \<in> set ls. query_label l) \<and> length (join_dots ls) \<le> 253 \<and>
     map tolower (join_dots ls) = join_dots ls \<and> join_dots ls \<noteq> ''sinkhole.test'' \<and>
     policy_blocks seed_policy (join_dots ls)"
  by code_simp

lemma blocked_workload: "workload_domains ''BLOCKED_NXDOMAIN'' = map join_dots blocked_names"
  by code_simp

text \<open>Before any policy arrives a query for a name of the workload is decided on the bootstrap snapshot.\<close>

lemma query_without_policy:
  assumes "parse buf = Some (Ok q)" "qname (question q) \<noteq> ''sinkhole.test''"
    and "recurring draws" "pending_tx f = []" "dp_run draws quiet evs (startup f) = Some (earlier, s)"
    and "\<forall>data. Control data \<notin> set evs"
  shows "\<exists>out s' x. client_event draws quiet e (buf, addr) s = Some (out, s') \<and> filter is_send out = [x] \<and>
    ((\<exists>t. x = ToUpstream (upstream_addr f) (hi8 t # lo8 t # drop 2 buf)) \<or>
     (\<exists>b. build_error_response q SERVFAIL = Some b \<and> x = ToClient addr b) \<or>
     (\<exists>r. (r, upstream_addr f) \<in> \<Union> (from_upstream ` set evs) \<and>
        x = ToClient addr (hi8 (wh_id (pp_header q)) # lo8 (wh_id (pp_header q)) # drop 2 r)))"
proof -
  let ?C = "insert (buf, addr) (\<Union> (from_clients ` set evs))" and ?U = "\<Union> (from_upstream ` set evs)"
  have inv: "packet_inv ?C ?U (upstream_addr f) s"
    using dp_run_total [OF startup_inv [OF assms(4)] assms(3), of evs ?C ?U quiet] assms(5) by (auto simp: dp_inv_def)
  have m: "dp_manager s = init_manager" using dp_run_manager [OF assms(5,6)] by (simp add: startup_manager)
  have buf: "receive buf = buf" "buf \<noteq> []"
    using parse_Ok_question [OF assms(1)] assms(1) by (auto simp: receive_short elim: parse_OkD simp: parsed_from_def)
  obtain out s' where h: "handle_client draws quiet e (active_snapshot init_manager) (global_generation init_manager) buf addr s = Some (out, s')"
    using handle_client_step [OF inv _ assms(3), of buf addr] by blast
  have "dec_action (snapshot_evaluate (active_snapshot init_manager) (qname (question q))) \<noteq> BLOCK_NXDOMAIN"
    using bootstrap_blocks_nothing by (simp add: snapshot_action)
  then show ?thesis
    using handle_client_sends_one [OF inv assms(1) h] assms(2) h buf m
    by (intro exI [of _ out] exI [of _ s']) (auto simp: client_event_def)
qed

lemma startup_query_goes_upstream:
  assumes "parse buf = Some (Ok q)" "qname (question q) \<noteq> ''sinkhole.test''"
    and "recurring draws" "pending_tx f = []" "0 \<le> socket_fd f" "forward_sent e"
  shows "\<exists>out s t. client_event draws quiet e (buf, addr) (startup f) = Some (out, s) \<and>
    filter is_send out = [ToUpstream (upstream_addr f) (hi8 t # lo8 t # drop 2 buf)]"
proof -
  have "cache_ok (dp_cache (startup f))" "cache_content (dp_cache (startup f)) x = None" for x
    using new_cache_ok [of 10000] by (simp_all add: startup_def cache_ok_def)
  moreover have "dp_forwarder (startup f) = f" "fw_inv f" using assms(4) by (simp_all add: startup_def fw_inv_def)
  moreover have "receive buf = buf" "buf \<noteq> []"
    using assms(1) by (auto simp: receive_short elim: parse_OkD simp: parsed_from_def)
  ultimately show ?thesis
    using miss_goes_upstream [OF assms(1) bootstrap_blocks_nothing assms(2) _ _ _ _ assms(3,6), of "startup f"] assms(4,5)
    by (fastforce simp: client_event_def startup_manager)
qed

section \<open>Counting\<close>

lemma worker_thread_counts:
  assumes "queries \<noteq> []"
  shows "\<exists>rs. worker_thread network queries n = Inr rs \<and> length (filter id rs) + length (filter Not rs) = n"
proof -
  have "length (filter id rs) + length (filter Not rs) = length rs" for rs by (induction rs) auto
  with assms show ?thesis by (simp add: worker_thread_def)
qed

lemma count_results_total:
  assumes "queries \<noteq> []"
  shows "\<exists>a' b'. count_results threads queries n (a, b) = Inr (a', b') \<and> a' + b' = a + b + length threads * n"
proof (induction threads arbitrary: a b)
  case (Cons network threads)
  obtain rs where rs: "worker_thread network queries n = Inr rs" "length (filter id rs) + length (filter Not rs) = n"
    using worker_thread_counts [OF assms] by blast
  with Cons [of "a + length (filter id rs)" "b + length (filter Not rs)"] show ?case by auto
qed simp

section \<open>Properties\<close>

text \<open>
  Further fact (the benchmark's queries).  For a name of at most 253 characters made of labels of 1 to 63
  printable ASCII characters, \<open>make_dns_query\<close> raises nothing, and the data plane's parser accepts the packet
  and reads the transaction id, the lowercased name, the type and class IN from it.
\<close>

theorem benchmark_query_parses:
  assumes "ls \<noteq> []" "\<forall>l \<in> set ls. query_label l" "length (join_dots ls) \<le> kMaxDomainNameLength"
  shows "\<exists>buf q. make_dns_query (join_dots ls) txid t = Inr buf \<and> parse buf = Some (Ok q) \<and>
    wh_id (pp_header q) = word_of_int txid \<and> qname (question q) = map tolower (join_dots ls) \<and>
    qtype (question q) = word_of_int t \<and> qclass (question q) = qclass_code QC_IN"
  using make_dns_query_labels [OF assms(1,2), of txid t] parse_client_query [of ls txid t] assms
  by (auto simp: client_header_def)

theorem benchmark_query_parses_witness:
  "\<exists>buf q. make_dns_query ''Example.COM'' 0x1234 28 = Inr buf \<and> parse buf = Some (Ok q) \<and>
    wh_id (pp_header q) = 0x1234 \<and> qname (question q) = ''example.com'' \<and> qtype (question q) = qtype_code QT_AAAA"
proof -
  have "\<forall>l \<in> set [''Example'', ''COM'']. query_label l" by code_simp
  moreover have "map tolower ''Example.COM'' = ''example.com''" by code_simp
  ultimately show ?thesis
    using benchmark_query_parses [of "[''Example'', ''COM'']", where txid = "0x1234" and t = 28] by simp blast
qed

text \<open>
  Property C39 (what the blocked workload measures).  The names of the benchmark workload BLOCKED_NXDOMAIN are
  those that the seed policy of \<open>main\<close> blocks.  But as long as no control connection has come, as when the
  script that records the figures runs, whatever else the data plane has received since its start: each
  query of that workload causes exactly one datagram, which is the query sent upstream under another id, or
  SERVFAIL when that fails, or a datagram the upstream resolver sent earlier under the query's id.  The data plane makes up no
  NXDOMAIN (one that the resolver sends is relayed).  The first query after the start does go upstream, if
  the socket is open and \<open>sendto\<close> succeeds.
\<close>

theorem blocked_workload_goes_upstream:
  assumes "i < length (workload_domains ''BLOCKED_NXDOMAIN'')"
    and "recurring draws" "pending_tx f = []" "dp_run draws quiet evs (startup f) = Some (earlier, s)"
    and "\<forall>data. Control data \<notin> set evs"
  shows "policy_blocks seed_policy (workload_domains ''BLOCKED_NXDOMAIN'' ! i) \<and>
    (\<exists>buf q out s' x. workload_queries ''BLOCKED_NXDOMAIN'' ! i = Inr buf \<and> parse buf = Some (Ok q) \<and>
      client_event draws quiet e (buf, addr) s = Some (out, s') \<and> filter is_send out = [x] \<and>
      ((\<exists>t. x = ToUpstream (upstream_addr f) (hi8 t # lo8 t # drop 2 buf)) \<or>
       (\<exists>b. build_error_response q SERVFAIL = Some b \<and> x = ToClient addr b) \<or>
       (\<exists>r. (r, upstream_addr f) \<in> \<Union> (from_upstream ` set evs) \<and>
          x = ToClient addr (hi8 (wh_id (pp_header q)) # lo8 (wh_id (pp_header q)) # drop 2 r))) \<and>
      (evs = [] \<and> 0 \<le> socket_fd f \<and> forward_sent e \<longrightarrow>
         (\<exists>t. x = ToUpstream (upstream_addr f) (hi8 t # lo8 t # drop 2 buf))))"
proof -
  let ?ls = "blocked_names ! i"
  have i: "i < length blocked_names" using assms(1) by (simp add: blocked_workload)
  then have "?ls \<in> set blocked_names" by simp
  with blocked_names_ok have ls: "?ls \<noteq> []" "\<forall>l \<in> set ?ls. query_label l" "length (join_dots ?ls) \<le> 253"
    "map tolower (join_dots ?ls) = join_dots ?ls" "join_dots ?ls \<noteq> ''sinkhole.test''" "policy_blocks seed_policy (join_dots ?ls)"
    by blast+
  have q: "workload_queries ''BLOCKED_NXDOMAIN'' ! i = make_dns_query (join_dots ?ls) (int i + 1) 1"
    using i by (simp add: workload_queries_def blocked_workload nth_enumerate_eq)
  let ?buf = "query_bytes (client_header (int i + 1)) (map (map char_byte) ?ls) (word_of_int 1) 1"
  obtain p where p: "parse ?buf = Some (Ok p)" "qname (question p) = map tolower (join_dots ?ls)"
    using parse_client_query [OF ls(1-3), of "int i + 1" 1] by blast
  have n: "qname (question p) \<noteq> ''sinkhole.test''" unfolding p(2) ls(4) by (rule ls(5))
  have b: "workload_queries ''BLOCKED_NXDOMAIN'' ! i = Inr ?buf"
    unfolding q by (rule make_dns_query_labels [OF ls(1,2)])
  obtain out s' x where x: "client_event draws quiet e (?buf, addr) s = Some (out, s')" "filter is_send out = [x]"
    "(\<exists>t. x = ToUpstream (upstream_addr f) (hi8 t # lo8 t # drop 2 ?buf)) \<or>
     (\<exists>b. build_error_response p SERVFAIL = Some b \<and> x = ToClient addr b) \<or>
     (\<exists>r. (r, upstream_addr f) \<in> \<Union> (from_upstream ` set evs) \<and>
        x = ToClient addr (hi8 (wh_id (pp_header p)) # lo8 (wh_id (pp_header p)) # drop 2 r))"
    using query_without_policy [OF p(1) n assms(2-5), of e addr] by blast
  have "\<exists>t. x = ToUpstream (upstream_addr f) (hi8 t # lo8 t # drop 2 ?buf)"
    if "evs = []" "0 \<le> socket_fd f" "forward_sent e"
    using startup_query_goes_upstream [OF p(1) n assms(2,3) that(2,3), of quiet addr] x(1,2) assms(4) that(1) by auto
  moreover have "workload_domains ''BLOCKED_NXDOMAIN'' ! i = join_dots ?ls" using i by (simp add: blocked_workload)
  ultimately show ?thesis using ls(6) b p(1) x by metis
qed

theorem blocked_workload_goes_upstream_witness:
  "\<exists>buf out s t. workload_queries ''BLOCKED_NXDOMAIN'' ! 1 = Inr buf \<and>
      client_event word_of_nat True sample_env (buf, sample_client) (startup open_forwarder) = Some (out, s) \<and>
      filter is_send out = [ToUpstream (upstream_addr open_forwarder) (hi8 t # lo8 t # drop 2 buf)]"
proof -
  have "dp_run word_of_nat True [] (startup open_forwarder) = Some ([], startup open_forwarder)" by simp
  from blocked_workload_goes_upstream [OF _ recurring_word_of_nat open_forwarder_idle this, of 1 sample_env sample_client]
  show ?thesis
    by (auto simp: workload_domains_def open_forwarder_def new_forwarder_def sample_env_def)
qed

text \<open>
  Further fact (every query is counted).  With at least one thread and one query, the two counters of
  \<open>run_benchmark\<close> add up to the queries that were sent; and an answer counts as a success by its length
  alone, whatever its response code.
\<close>

theorem benchmark_counts_every_query:
  assumes "threads \<noteq> []" "queries \<noteq> []"
  shows "(\<exists>successes errors. run_benchmark threads n queries = Inr (successes, errors) \<and>
      successes + errors = length threads * (n div length threads)) \<and>
    (send_query (Some resp) \<longleftrightarrow> 12 \<le> length resp)"
  using count_results_total [OF assms(2), of threads "n div length threads" 0 0] assms(1)
  by (auto simp: run_benchmark_def send_query_def)

theorem benchmark_counts_every_query_witness:
  "\<exists>successes errors. run_benchmark [\<lambda>i q. None, \<lambda>i q. Some q] 7 [[1]] = Inr (successes, errors) \<and> successes + errors = 6"
proof -
  let ?threads = "[\<lambda>i q. None, \<lambda>i q. Some q]"
  have "length ?threads * (7 div length ?threads) = (6 :: nat)" by (simp add: numeral_2_eq_2 [symmetric])
  note b = benchmark_counts_every_query [of ?threads "[[1]]" 7 "[]", unfolded this]
  show ?thesis by (rule b [THEN conjunct1]) simp_all
qed

end
