(* ===== verification/Command_Line.thy ===== *)
theory Command_Line
  imports Decimal "HOL-Library.Monad_Syntax"
begin

text \<open>
  The command line of the data plane, the loop over \<open>argv\<close> at the head of \<open>main\<close>
  (\<open>dataplane/src/main.cpp\<close>).  \<open>None\<close> is the undefined behaviour of \<open>std::atoi\<close> on a number that
  is no \<open>int\<close>.
\<close>

section \<open>The code\<close>

record options =
  listen_port :: u16
  opt_upstream_ip :: string
  opt_upstream_port :: u16
  ipc_sock :: string
  opt_quiet :: bool

definition default_options :: options where
  "default_options = \<lparr>listen_port = 1053, opt_upstream_ip = ''8.8.8.8'', opt_upstream_port = 53,
     ipc_sock = ''/tmp/dns_dataplane_control.sock'', opt_quiet = False\<rparr>"

text \<open>\<open>std::atoi\<close>: white space, an optional sign, digits; no digits give 0.\<close>

definition atoi :: "string \<Rightarrow> int option" where
  "atoi s =
     (let s = dropWhile is_space s;
          neg = (s \<noteq> [] \<and> hd s = CHR ''-'');
          s = (if s \<noteq> [] \<and> (hd s = CHR ''-'' \<or> hd s = CHR ''+'') then tl s else s);
          n = int (dec_value (takeWhile is_digit s));
          n = (if neg then - n else n)
      in if - 2147483648 \<le> n \<and> n < 2147483648 then Some n else None)"

text \<open>\<open>static_cast<uint16_t>(std::atoi(s))\<close>.\<close>

definition atoi16 :: "string \<Rightarrow> u16 option" where
  "atoi16 s = map_option word_of_int (atoi s)"

definition set_upstream :: "string \<Rightarrow> options \<Rightarrow> options option" where
  "set_upstream u opts =
     (case find_char CHR '':'' u 0 of
        Some colon \<Rightarrow> do {
          port \<leftarrow> atoi16 (drop (colon + 1) u);
          Some (opts\<lparr>opt_upstream_ip := take colon u, opt_upstream_port := port\<rparr>) }
      | None \<Rightarrow> Some (opts\<lparr>opt_upstream_ip := u\<rparr>))"

text \<open>The arguments after the program's name.  An option that needs a value and stands last is ignored.\<close>

fun parse_args :: "string list \<Rightarrow> options \<Rightarrow> options option" where
  "parse_args [] opts = Some opts"
| "parse_args [a] opts = Some (if a = ''--quiet'' then opts\<lparr>opt_quiet := True\<rparr> else opts)"
| "parse_args (a # v # rest) opts =
     (if a = ''--port'' then do {
        port \<leftarrow> atoi16 v;
        parse_args rest (opts\<lparr>listen_port := port\<rparr>) }
      else if a = ''--upstream'' then do {
        opts \<leftarrow> set_upstream v opts;
        parse_args rest opts }
      else if a = ''--ipc'' then parse_args rest (opts\<lparr>ipc_sock := v\<rparr>)
      else if a = ''--quiet'' then parse_args (v # rest) (opts\<lparr>opt_quiet := True\<rparr>)
      else parse_args (v # rest) opts)"

section \<open>Numbers in arguments\<close>

lemma atoi_dec_string:
  assumes "n < 2147483648"
  shows "atoi (dec_string n) = Some (int n)"
proof -
  have d: "\<forall>c \<in> set (dec_string n). is_digit c" by (rule dec_string_digits)
  then have tw: "takeWhile is_digit (dec_string n) = dec_string n" by simp
  have "dropWhile is_space (dec_string n) = dec_string n"
    using d is_digit_not_space dec_string_nonempty by (cases "dec_string n") auto
  moreover have "\<not> is_digit CHR ''-''" "\<not> is_digit CHR ''+''" by (simp_all add: is_digit_def)
  then have "hd (dec_string n) \<noteq> CHR ''-''" "hd (dec_string n) \<noteq> CHR ''+''"
    using d dec_string_nonempty [of n] by (metis hd_in_set)+
  ultimately show ?thesis
    using assms by (simp add: atoi_def Let_def tw)
qed

lemma atoi16_dec_string: "n < 2147483648 \<Longrightarrow> atoi16 (dec_string n) = Some (word_of_nat n)"
  by (simp add: atoi16_def atoi_dec_string)

lemma atoi16_port: "atoi16 (dec_string (unat (p :: u16))) = Some p"
proof -
  have "unat p < 2 ^ 16" using unsigned_less [of p, where ?'a = nat] by simp
  then have "unat p < 2147483648" by simp
  then show ?thesis by (simp add: atoi16_dec_string)
qed

lemma find_char_append:
  assumes "c \<notin> set a"
  shows "find_char c (a @ c # b) 0 = Some (length a)"
proof -
  have "find_from ((=) c) (a @ c # b) = Some (length a)"
    using assms by (induction a) auto
  then show ?thesis by (simp add: find_char_def)
qed

lemma find_char_absent: "c \<notin> set s \<Longrightarrow> find_char c s 0 = None"
  by (auto simp: find_char_def find_from_None_iff)

section \<open>Properties\<close>

text \<open>The arguments that set every option.\<close>

definition options_argv :: "options \<Rightarrow> string list" where
  "options_argv opts =
     [''--port'', dec_string (unat (listen_port opts)),
      ''--upstream'', opt_upstream_ip opts @ '':'' @ dec_string (unat (opt_upstream_port opts)),
      ''--ipc'', ipc_sock opts] @ (if opt_quiet opts then [''--quiet''] else [])"

text \<open>
  Further fact (command line round trip).  Every setting of the options with an upstream host without a
  colon can be given on the command line: \<open>main\<close> reads back exactly what was written, whatever the
  defaults.
\<close>

theorem command_line_roundtrip:
  assumes "CHR '':'' \<notin> set (opt_upstream_ip opts)" "\<not> opt_quiet dflt"
  shows "parse_args (options_argv opts) dflt = Some opts"
  using assms find_char_append [OF assms(1)]
  by (cases opts) (simp add: options_argv_def atoi16_port set_upstream_def)

theorem command_line_roundtrip_witness:
  "parse_args (options_argv (default_options\<lparr>opt_upstream_port := 5353, opt_quiet := True\<rparr>)) default_options =
     Some (default_options\<lparr>opt_upstream_port := 5353, opt_quiet := True\<rparr>)"
  by (rule command_line_roundtrip) (simp_all add: default_options_def)

text \<open>
  Further fact (port numbers are not checked).  Any port up to the largest \<open>int\<close> is accepted and taken
  modulo 65536, so that \<open>--port 65589\<close> listens on port 53; and an IPv6 upstream is cut at its first
  colon, which leaves no host.
\<close>

theorem port_argument_wraps:
  assumes "n < 2147483648"
  shows "parse_args [''--port'', dec_string n] opts = Some (opts\<lparr>listen_port := word_of_nat (n mod 65536)\<rparr>) \<and>
    parse_args [''--upstream'', ''::'' @ dec_string n] opts =
      Some (opts\<lparr>opt_upstream_ip := [], opt_upstream_port := 0\<rparr>)"
proof -
  have "word_of_nat (n mod 65536) = (word_of_nat n :: u16)"
    by (simp add: word_unat_eq_iff unat_of_nat)
  moreover have "find_char CHR '':'' (''::'' @ dec_string n) 0 = Some 0"
    by (simp add: find_char_def)
  moreover have "atoi16 (CHR '':'' # dec_string n) = Some 0"
    by (simp add: atoi16_def atoi_def is_space_def is_digit_def dec_value_def)
  ultimately show ?thesis
    using assms by (simp add: atoi16_dec_string set_upstream_def)
qed

theorem port_argument_wraps_witness:
  "parse_args [''--port'', dec_string 65589] default_options = Some (default_options\<lparr>listen_port := 53\<rparr>)"
  using port_argument_wraps [of 65589 default_options] by simp

end
