(* ===== verification/Control_Server.thy ===== *)
theory Control_Server
  imports Ipc "HOL-Library.Monad_Syntax"
begin

text \<open>
  The life cycle of the control socket (\<open>dataplane/src/runtime/ipc_server.cpp\<close>): \<open>start\<close>, \<open>stop\<close> and
  the loop of the worker thread.  What the operating system answers is an argument, what the code asks
  of it is a list of calls, in order.  \<open>None\<close> is \<open>std::terminate\<close>.
\<close>

section \<open>Calls\<close>

text \<open>A successful \<open>socket\<close> or \<open>accept\<close> is \<open>Opened\<close> with its descriptor.\<close>

datatype sys_call =
    Opened int
  | Closed int
  | ShutDown int
  | BoundPath string
  | BoundPort u32 u16
  | Unlinked string
  | Wrote int string
  | Joined

text \<open>The descriptors open after a list of calls; \<open>None\<close> when one is closed that is not open.\<close>

fun descriptors :: "int set \<Rightarrow> sys_call list \<Rightarrow> int set option" where
  "descriptors D [] = Some D"
| "descriptors D (Opened fd # cs) = descriptors (insert fd D) cs"
| "descriptors D (Closed fd # cs) = (if fd \<in> D then descriptors (D - {fd}) cs else None)"
| "descriptors D (_ # cs) = descriptors D cs"

lemma descriptors_append:
  "descriptors D (as @ bs) = (case descriptors D as of Some E \<Rightarrow> descriptors E bs | None \<Rightarrow> None)"
  by (induction D as rule: descriptors.induct) auto

section \<open>The code\<close>

record ipc_server =
  socket_path :: string
  server_fd :: int
  running :: bool
  worker_joinable :: bool

definition new_ipc_server :: "string \<Rightarrow> ipc_server" where
  "new_ipc_server path = \<lparr>socket_path = path, server_fd = -1, running = False, worker_joinable = False\<rparr>"

definition c_str :: "string \<Rightarrow> string" where
  "c_str s = takeWhile (\<lambda>c. c \<noteq> CHR 0x00) s"

text \<open>The \<open>strncpy\<close> into \<open>sun_path\<close>, whose size the platform fixes (108 on Linux).\<close>

definition sun_path :: "nat \<Rightarrow> string \<Rightarrow> string" where
  "sun_path n path = take (n - 1) (c_str path)"

text \<open>What \<open>socket\<close>, \<open>bind\<close> and \<open>listen\<close> answer.\<close>

record ipc_os =
  ipc_fd :: int
  ipc_bind_ok :: bool
  ipc_listen_ok :: bool

definition ipc_start :: "nat \<Rightarrow> ipc_os \<Rightarrow> ipc_server \<Rightarrow> (sys_call list \<times> bool \<times> ipc_server) option" where
  "ipc_start n os srv =
     (let cs = [Unlinked (c_str (socket_path srv))];
          fd = ipc_fd os;
          srv = srv\<lparr>server_fd := fd\<rparr>
      in
      if fd < 0 then Some (cs, False, srv)
      else if \<not> ipc_bind_ok os then Some (cs @ [Opened fd, Closed fd], False, srv\<lparr>server_fd := -1\<rparr>)
      else
        let cs = cs @ [Opened fd, BoundPath (sun_path n (socket_path srv))] in
        if \<not> ipc_listen_ok os then Some (cs @ [Closed fd], False, srv\<lparr>server_fd := -1\<rparr>)
        else
          let srv = srv\<lparr>running := True\<rparr> in
          if worker_joinable srv then None
          else Some (cs, True, srv\<lparr>worker_joinable := True\<rparr>))"

definition ipc_stop :: "ipc_server \<Rightarrow> sys_call list \<times> ipc_server" where
  "ipc_stop srv =
     (if running srv then
        let cs = (if 0 \<le> server_fd srv then [ShutDown (server_fd srv), Closed (server_fd srv)] else []);
            cs = cs @ (if worker_joinable srv then [Joined] else []) @ [Unlinked (c_str (socket_path srv))]
        in (cs, srv\<lparr>running := False, server_fd := (if 0 \<le> server_fd srv then -1 else server_fd srv),
              worker_joinable := False\<rparr>)
      else ([], srv))"

text \<open>
  The worker's loop as a list of what each pass meets: \<open>running_\<close> false at the head, an \<open>accept\<close> that
  fails with \<open>running_\<close> then true or false, or a connection with the bytes its one \<open>read\<close> could return.
\<close>

datatype pass =
    Stopped
  | AcceptFailed (still_running: bool)
  | Connection (conn_fd: int) (conn_data: string)

fun listen_loop :: "pass list \<Rightarrow> snapshot_manager \<Rightarrow> sys_call list \<times> snapshot_manager" where
  "listen_loop [] m = ([], m)"
| "listen_loop (Stopped # ps) m = ([], m)"
| "listen_loop (AcceptFailed r # ps) m = (if \<not> r then ([], m) else listen_loop ps m)"
| "listen_loop (Connection fd data # ps) m =
     (let (resp, m) = serve_connection data m;
          written = (case resp of Some r \<Rightarrow> [Wrote fd r] | None \<Rightarrow> []);
          (cs, m) = listen_loop ps m
      in (Opened fd # written @ Closed fd # cs, m))"

section \<open>Invariant\<close>

text \<open>A server is running exactly when it has an open listening socket and a worker to join.\<close>

definition server_inv :: "ipc_server \<Rightarrow> bool" where
  "server_inv srv \<longleftrightarrow> (running srv \<longleftrightarrow> 0 \<le> server_fd srv) \<and> (running srv \<longleftrightarrow> worker_joinable srv)"

definition server_fds :: "ipc_server \<Rightarrow> int set" where
  "server_fds srv = (if running srv then {server_fd srv} else {})"

lemma new_ipc_server_inv [inv_intros]: "server_inv (new_ipc_server path)"
  by (simp add: new_ipc_server_def server_inv_def)

lemma ipc_stop_spec:
  assumes "server_inv srv" "server_fds srv \<subseteq> D"
  shows "server_inv (snd (ipc_stop srv)) \<and> \<not> running (snd (ipc_stop srv)) \<and>
    socket_path (snd (ipc_stop srv)) = socket_path srv \<and>
    descriptors D (fst (ipc_stop srv)) = Some (D - server_fds srv)"
  using assms by (auto simp: ipc_stop_def server_inv_def server_fds_def)

lemma ipc_stop_idle: "\<not> running srv \<Longrightarrow> ipc_stop srv = ([], srv)"
  by (simp add: ipc_stop_def)

lemma ipc_start_spec:
  assumes "server_inv srv" "\<not> running srv" "ipc_fd os \<notin> D"
  shows "\<exists>cs ok srv'. ipc_start n os srv = Some (cs, ok, srv') \<and> server_inv srv' \<and> running srv' = ok \<and>
    (ok \<longleftrightarrow> 0 \<le> ipc_fd os \<and> ipc_bind_ok os \<and> ipc_listen_ok os) \<and> (ok \<longrightarrow> server_fd srv' = ipc_fd os) \<and>
    socket_path srv' = socket_path srv \<and> descriptors D cs = Some (D \<union> server_fds srv')"
  using assms
  by (cases "ipc_fd os < 0"; cases "ipc_bind_ok os"; cases "ipc_listen_ok os")
    (auto simp: ipc_start_def Let_def server_inv_def server_fds_def)

section \<open>Any sequence of starts and stops\<close>

datatype server_op = Start ipc_os | Stop

fun server_run :: "nat \<Rightarrow> server_op list \<Rightarrow> ipc_server \<Rightarrow> (sys_call list \<times> ipc_server) option" where
  "server_run n [] srv = Some ([], srv)"
| "server_run n (Start os # ops) srv = do {
     (cs, ok, srv) \<leftarrow> ipc_start n os srv;
     (cs', srv) \<leftarrow> server_run n ops srv;
     Some (cs @ cs', srv) }"
| "server_run n (Stop # ops) srv = (let (cs, srv) = ipc_stop srv in do {
     (cs', srv) \<leftarrow> server_run n ops srv;
     Some (cs @ cs', srv) })"

text \<open>Between two starts there is a stop.\<close>

fun alternating :: "server_op list \<Rightarrow> bool" where
  "alternating [] = True"
| "alternating [_] = True"
| "alternating (op # op' # ops) = ((op = Stop \<or> op' = Stop) \<and> alternating (op' # ops))"

lemma server_run_ok:
  assumes "server_inv srv" "alternating ops" "running srv \<Longrightarrow> ops = [] \<or> hd ops = Stop"
  shows "\<exists>cs srv'. server_run n ops srv = Some (cs, srv') \<and> server_inv srv' \<and>
    descriptors (server_fds srv) cs = Some (server_fds srv')"
  using assms
proof (induction ops arbitrary: srv)
  case (Cons op ops)
  have alt: "alternating ops" using Cons.prems(2) by (cases ops) auto
  show ?case
  proof (cases op)
    case (Start os)
    then have r: "\<not> running srv" using Cons.prems(3) by auto
    then have "ipc_fd os \<notin> server_fds srv" by (simp add: server_fds_def)
    from ipc_start_spec [OF Cons.prems(1) r this, of n] obtain cs ok srv1 where st:
        "ipc_start n os srv = Some (cs, ok, srv1)" "server_inv srv1"
        "descriptors (server_fds srv) cs = Some (server_fds srv \<union> server_fds srv1)"
      by blast
    have "ops = [] \<or> hd ops = Stop" using Cons.prems(2) Start by (cases ops) auto
    from Cons.IH [OF st(2) alt this] obtain cs2 srv2 where run: "server_run n ops srv1 = Some (cs2, srv2)" "server_inv srv2"
        "descriptors (server_fds srv1) cs2 = Some (server_fds srv2)"
      by blast
    have "server_fds srv = {}" using r by (simp add: server_fds_def)
    with st run Start have "server_run n (op # ops) srv = Some (cs @ cs2, srv2)"
      "descriptors (server_fds srv) (cs @ cs2) = Some (server_fds srv2)"
      by (simp_all add: descriptors_append)
    with run(2) show ?thesis by blast
  next
    case Stop
    obtain cs srv1 where st: "ipc_stop srv = (cs, srv1)" by force
    with ipc_stop_spec [OF Cons.prems(1) subset_refl] have "server_inv srv1" "\<not> running srv1"
        "descriptors (server_fds srv) cs = Some {}"
      by auto
    moreover from this have "server_fds srv1 = {}" by (simp add: server_fds_def)
    ultimately obtain cs2 srv2 where run: "server_run n ops srv1 = Some (cs2, srv2)" "server_inv srv2"
        "descriptors {} cs2 = Some (server_fds srv2)"
      using Cons.IH [of srv1] alt by auto
    with st Stop \<open>descriptors (server_fds srv) cs = Some {}\<close>
    have "server_run n (op # ops) srv = Some (cs @ cs2, srv2)"
      "descriptors (server_fds srv) (cs @ cs2) = Some (server_fds srv2)"
      by (simp_all add: descriptors_append)
    with run(2) show ?thesis by blast
  qed
qed auto

section \<open>Properties\<close>

text \<open>
  Property C34 (control socket life cycle).  Whatever the operating system answers, any starts and stops
  with a stop between two starts never terminate the program, never close a descriptor that is not open,
  and leave exactly the listening socket of a running server open: a failed start leaks nothing, and
  after a stop no descriptor is left.
\<close>

theorem control_server_descriptors:
  assumes "alternating ops"
  shows "\<exists>cs srv. server_run n ops (new_ipc_server path) = Some (cs, srv) \<and>
    descriptors {} cs = Some (if running srv then {server_fd srv} else {}) \<and>
    descriptors {} (cs @ fst (ipc_stop srv)) = Some {}"
proof -
  have "\<not> running (new_ipc_server path)" by (simp add: new_ipc_server_def)
  moreover from this have "server_fds (new_ipc_server path) = {}" by (simp add: server_fds_def)
  ultimately obtain cs srv where r: "server_run n ops (new_ipc_server path) = Some (cs, srv)" "server_inv srv"
      "descriptors {} cs = Some (server_fds srv)"
    using server_run_ok [OF new_ipc_server_inv assms, of path n] by auto
  with ipc_stop_spec [OF r(2) subset_refl] show ?thesis
    by (auto simp: descriptors_append server_fds_def)
qed

definition ipc_os_ok :: "int \<Rightarrow> ipc_os" where
  "ipc_os_ok fd = \<lparr>ipc_fd = fd, ipc_bind_ok = True, ipc_listen_ok = True\<rparr>"

theorem control_server_descriptors_witness:
  "\<exists>cs srv. server_run 108 [Start (ipc_os_ok 5), Stop, Start ((ipc_os_ok 6)\<lparr>ipc_listen_ok := False\<rparr>)] (new_ipc_server ''/tmp/s'') = Some (cs, srv) \<and>
    descriptors {} cs = Some (if running srv then {server_fd srv} else {}) \<and>
    descriptors {} (cs @ fst (ipc_stop srv)) = Some {}"
  by (rule control_server_descriptors) simp

text \<open>
  Further fact (a second start terminates).  Starting a running server again, when the operating system
  lets it, assigns to the joinable worker thread, which ends the program.
\<close>

theorem second_start_terminates:
  assumes "ipc_start n os (new_ipc_server path) = Some (cs, True, srv)"
    and "0 \<le> ipc_fd os'" "ipc_bind_ok os'" "ipc_listen_ok os'"
  shows "ipc_start n os' srv = None"
  using assms by (auto simp: ipc_start_def new_ipc_server_def Let_def split: if_splits)

theorem second_start_terminates_witness:
  "\<exists>cs srv. ipc_start 108 (ipc_os_ok 5) (new_ipc_server ''/tmp/s'') = Some (cs, True, srv) \<and>
     ipc_start 108 (ipc_os_ok 6) srv = None"
proof -
  obtain cs srv where st: "ipc_start 108 (ipc_os_ok 5) (new_ipc_server ''/tmp/s'') = Some (cs, True, srv)"
    by (simp add: ipc_start_def ipc_os_ok_def new_ipc_server_def)
  have "ipc_start 108 (ipc_os_ok 6) srv = None"
    by (rule second_start_terminates [OF st]) (simp_all add: ipc_os_ok_def)
  with st show ?thesis by blast
qed

text \<open>
  Further fact (a long socket path).  \<open>start\<close> binds the path cut to the size of \<open>sun_path\<close>, and removes,
  like \<open>stop\<close>, the path as given.  The two are the same exactly when the path with its NUL fits;
  otherwise the bound socket file is never removed.
\<close>

theorem long_socket_path_not_removed:
  assumes "ipc_start n os (new_ipc_server path) = Some (cs, True, srv)" "0 < n"
  shows "(\<exists>p. BoundPath p \<in> set cs \<and> Unlinked p \<in> set (cs @ fst (ipc_stop srv))) \<longleftrightarrow>
    length (c_str path) < n"
proof -
  have "c_str path = sun_path n path \<longleftrightarrow> length (c_str path) < n"
    using assms(2) take_all_iff [of "n - 1" "c_str path"] unfolding sun_path_def by (metis Suc_pred' less_Suc_eq_le)
  with assms(1) show ?thesis
    by (auto simp: ipc_start_def ipc_stop_def new_ipc_server_def Let_def split: if_splits)
qed

theorem long_socket_path_not_removed_witness:
  "\<exists>cs srv. ipc_start 108 (ipc_os_ok 5) (new_ipc_server (replicate 120 CHR ''a'')) = Some (cs, True, srv) \<and>
     \<not> (\<exists>p. BoundPath p \<in> set cs \<and> Unlinked p \<in> set (cs @ fst (ipc_stop srv)))"
proof -
  obtain cs srv where st: "ipc_start 108 (ipc_os_ok 5) (new_ipc_server (replicate 120 CHR ''a'')) = Some (cs, True, srv)"
    by (simp add: ipc_start_def ipc_os_ok_def new_ipc_server_def)
  have "c_str (replicate 120 CHR ''a'') = replicate 120 CHR ''a''" by (simp add: c_str_def)
  with long_socket_path_not_removed [OF st] st show ?thesis by auto
qed

text \<open>The connections the worker serves before it stops.\<close>

fun served :: "pass list \<Rightarrow> pass list" where
  "served [] = []"
| "served (Stopped # ps) = []"
| "served (AcceptFailed r # ps) = (if \<not> r then [] else served ps)"
| "served (Connection fd data # ps) = Connection fd data # served ps"

fun is_write :: "sys_call \<Rightarrow> bool" where
  "is_write (Wrote fd r) = True"
| "is_write _ = False"

text \<open>
  Further fact (the worker's loop).  The worker serves the connections in order, each on the policy state the
  one before left, up to the first time it finds the server stopped; failed accepts change
  nothing.  Every connection that sends a byte gets one answer, every accepted descriptor is closed,
  and no other one.
\<close>

theorem listen_loop_serves:
  assumes "\<forall>p \<in> set (served ps). conn_fd p \<notin> D"
  shows "snd (listen_loop ps m) = foldl (\<lambda>m p. snd (serve_connection (conn_data p) m)) m (served ps) \<and>
    descriptors D (fst (listen_loop ps m)) = Some D \<and>
    length (filter is_write (fst (listen_loop ps m))) = length (filter (\<lambda>p. conn_data p \<noteq> []) (served ps))"
  using assms
proof (induction ps m rule: listen_loop.induct)
  case (4 fd data ps m)
  obtain resp m' where s: "serve_connection data m = (resp, m')" by force
  have "resp = None \<longleftrightarrow> data = []"
    using s by (cases "data = []") (auto simp: serve_connection_def Let_def split: prod.splits)
  with 4 s show ?case
    by (cases resp) (auto simp: Let_def descriptors_append split: prod.splits)
qed auto

theorem listen_loop_serves_witness:
  "descriptors {3} (fst (listen_loop [AcceptFailed True, Connection 7 ''hello'', Stopped, Connection 8 ''x''] init_manager)) = Some {3} \<and>
   length (filter is_write (fst (listen_loop [AcceptFailed True, Connection 7 ''hello'', Stopped, Connection 8 ''x''] init_manager))) = 1"
  using listen_loop_serves [of "[AcceptFailed True, Connection 7 ''hello'', Stopped, Connection 8 ''x'']" "{3}" init_manager]
  by simp

end
