(* ===== verification/Main_Program.thy ===== *)
theory Main_Program
  imports Dataplane Command_Line Control_Server "HOL-Library.Stream"
begin

text \<open>
  The whole of \<open>main\<close> (\<open>dataplane/src/main.cpp\<close>): the command line, the three sockets, the event
  loop and the shutdown, with the calls on descriptors in order and the lines printed before and after
  the loop.  The options that \<open>setsockopt\<close> sets and the installation of the signal handlers are left out; a
  signal shows as \<open>g_running\<close> being false at the head of the loop.

  The program need not end: the loop is left only through \<open>g_running\<close> or an error of \<open>poll\<close>, and \<open>stop\<close>
  joins the worker thread, which may be in a \<open>read\<close> without time-out.  \<open>None\<close> is undefined behaviour or a
  run that never returns.
\<close>

section \<open>The event loop\<close>

text \<open>
  What the loop meets: a turn with the value of \<open>g_running\<close> at its head and the answer of \<open>poll\<close>, which is
  negative with \<open>errno\<close> equal to \<open>EINTR\<close> or not, or names the ready sockets (none after a time-out) with the
  datagrams they hold; or, between two turns, a control connection served by the worker thread.
\<close>

datatype poll_answer =
    Interrupted
  | PollFailed
  | Ready env "(bytes \<times> sockaddr_in) option" "(bytes \<times> sockaddr_in) option"

datatype tick = Poll (g_running: bool) (g_answer: poll_answer) | Served string

partial_function (option) main_loop ::
    "(nat \<Rightarrow> u16) \<Rightarrow> bool \<Rightarrow> tick stream \<Rightarrow> dataplane \<Rightarrow> (effect list \<times> dataplane) option" where
  "main_loop draws quiet ts s =
     (case shd ts of
        Served data \<Rightarrow> main_loop draws quiet (stl ts) (control_event data s)
      | Poll go ret \<Rightarrow>
          if \<not> go then Some ([], s)
          else case ret of
            Interrupted \<Rightarrow> main_loop draws quiet (stl ts) s
          | PollFailed \<Rightarrow> Some ([], s)
          | Ready e client upstream \<Rightarrow> do {
              (out1, s) \<leftarrow> loop_turn draws quiet e client upstream s;
              (out2, s) \<leftarrow> main_loop draws quiet (stl ts) s;
              Some (out1 @ out2, s) })"

text \<open>The ticks that leave the loop, and the events that the ticks before stand for.\<close>

fun ends_loop :: "tick \<Rightarrow> bool" where
  "ends_loop (Served data) = False"
| "ends_loop (Poll go ret) \<longleftrightarrow> \<not> go \<or> ret = PollFailed"

fun processed :: "tick list \<Rightarrow> event list" where
  "processed [] = []"
| "processed (Poll go (Ready e client upstream) # ts) = Turn e client upstream # processed ts"
| "processed (Poll go ret # ts) = processed ts"
| "processed (Served data # ts) = Control data # processed ts"

lemma main_loop_left: "ends_loop (shd ts) \<Longrightarrow> main_loop draws quiet ts s = Some ([], s)"
  by (cases "shd ts") (auto simp: main_loop.simps [of draws quiet ts s])

lemma main_loop_goes_on:
  "\<not> ends_loop (shd ts) \<Longrightarrow> main_loop draws quiet ts s = do {
     (out1, s) \<leftarrow> dp_run draws quiet (processed [shd ts]) s;
     (out2, s) \<leftarrow> main_loop draws quiet (stl ts) s;
     Some (out1 @ out2, s) }"
  by (cases "shd ts"; cases "g_answer (shd ts)")
    (auto simp: main_loop.simps [of draws quiet ts s] bind_assoc split: prod.splits Option.bind_splits)

lemma processed_Cons: "processed (t # ts) = processed [t] @ processed ts"
  by (cases "t # ts" rule: processed.cases) simp_all

text \<open>Up to the first tick that leaves it the loop is the run of the events; without one it never returns.\<close>

lemma main_loop_run:
  assumes "\<forall>i<n. \<not> ends_loop (ts !! i)" "ends_loop (ts !! n)"
  shows "main_loop draws quiet ts s = dp_run draws quiet (processed (stake n ts)) s"
  using assms
proof (induction n arbitrary: ts s)
  case 0
  then show ?case by (simp add: main_loop_left)
next
  case (Suc n)
  have "\<not> ends_loop (shd ts)" using Suc.prems(1) by force
  note main_loop_goes_on [OF this, of draws quiet s]
  moreover have "\<forall>i<n. \<not> ends_loop (stl ts !! i)" "ends_loop (stl ts !! n)" using Suc.prems by auto
  note Suc.IH [OF this]
  moreover have "processed (stake (Suc n) ts) = processed [shd ts] @ processed (stake n (stl ts))"
    by (simp add: processed_Cons [of "shd ts" "stake n (stl ts)"])
  ultimately show ?case by (simp only: dp_run_append)
qed

lemma first_end:
  assumes "\<exists>t\<in>sset ts. ends_loop t"
  obtains n where "\<forall>i<n. \<not> ends_loop (ts !! i)" "ends_loop (ts !! n)"
proof -
  let ?n = "LEAST n. ends_loop (ts !! n)"
  have "\<exists>n. ends_loop (ts !! n)" using assms by (auto simp: sset_range)
  then have "ends_loop (ts !! ?n)" by (rule LeastI_ex)
  moreover have "\<forall>i<?n. \<not> ends_loop (ts !! i)" by (blast dest: not_less_Least)
  ultimately show ?thesis using that by blast
qed

lemma main_loop_returns_ends:
  assumes "main_loop draws quiet ts s = Some r"
  shows "\<exists>t\<in>sset ts. ends_loop t"
  using assms
proof (induction rule: main_loop.raw_induct [rotated, consumes 1, case_names turn])
  case (turn loop draws quiet ts s r)
  have "ends_loop (shd ts) \<or> (\<exists>s' r'. loop draws quiet (stl ts) s' = Some r')"
    using turn(2) by (cases r) (auto simp: bind_eq_Some_conv split: tick.splits poll_answer.splits if_splits)
  then show ?case
  proof
    assume "ends_loop (shd ts)"
    then show ?thesis by (auto intro: shd_sset)
  next
    assume "\<exists>s' r'. loop draws quiet (stl ts) s' = Some r'"
    then obtain s' r' where "loop draws quiet (stl ts) s' = Some r'" by blast
    then obtain t where "t \<in> sset (stl ts)" "ends_loop t" using turn(1) by blast
    then show ?thesis by (auto intro: stl_sset)
  qed
qed

text \<open>
  Further fact (when the event loop returns).  Under a generator that keeps offering every id, and from the
  state of the start, the loop returns exactly when some tick finds \<open>g_running\<close> false or an error of \<open>poll\<close>.
\<close>

theorem main_loop_returns_iff:
  assumes "recurring draws" "pending_tx f = []"
  shows "main_loop draws quiet ts (startup f) \<noteq> None \<longleftrightarrow> (\<exists>t\<in>sset ts. ends_loop t)"
proof
  assume "main_loop draws quiet ts (startup f) \<noteq> None"
  then show "\<exists>t\<in>sset ts. ends_loop t" by (auto dest: main_loop_returns_ends)
next
  assume "\<exists>t\<in>sset ts. ends_loop t"
  then obtain n where n: "\<forall>i<n. \<not> ends_loop (ts !! i)" "ends_loop (ts !! n)" by (rule first_end)
  obtain out s where "dp_run draws quiet (processed (stake n ts)) (startup f) = Some (out, s)"
    using run_from_startup [OF assms] .
  then show "main_loop draws quiet ts (startup f) \<noteq> None" by (simp add: main_loop_run [OF n])
qed

section \<open>The code\<close>

text \<open>
  What the operating system answers: to the calls of the set-up; and whether the \<open>read\<close> of the worker
  thread that may be under way when \<open>stop\<close> joins it returns, because its client sends or closes (true as well
  when no \<open>read\<close> is under way).
\<close>

record os_answers =
  os_listen_fd :: int
  os_bind_ok :: bool
  os_forward_fd :: int
  os_nonblocking_ok :: bool
  os_pton :: "string \<Rightarrow> u32 option"
  os_ipc :: ipc_os
  os_worker_reads :: bool

text \<open>A line on \<open>std::cout\<close> or \<open>std::cerr\<close>, without its end.\<close>

datatype console_line = Stdout string | Stderr string

definition rule_line :: string where
  "rule_line = replicate 54 CHR ''=''"

definition banner :: "options \<Rightarrow> console_line list" where
  "banner opts =
     [Stdout rule_line,
      Stdout ''  ARM64 DNS Security Dataplane (Stage 3 Appliance)'',
      Stdout (''  Listening on: 127.0.0.1:'' @ dec_string (unat (listen_port opts)) @ '' (UDP)''),
      Stdout (''  Upstream:     '' @ opt_upstream_ip opts @ '':'' @ dec_string (unat (opt_upstream_port opts))),
      Stdout (''  Control IPC:  '' @ ipc_sock opts),
      Stdout ''  Features:     Lock-Free RCU Swapping + IPC Control'',
      Stdout rule_line]"

record outcome =
  exit_code :: int
  calls :: "sys_call list"
  effects :: "effect list"
  printed :: "console_line list"

text \<open>\<open>UpstreamForwarder::init\<close> with its calls: every failing branch after \<open>socket\<close> closes.  Then the
  destructor.\<close>

definition forwarder_init_calls ::
    "int \<Rightarrow> bool \<Rightarrow> (string \<Rightarrow> u32 option) \<Rightarrow> forwarder \<Rightarrow> sys_call list \<times> bool \<times> forwarder" where
  "forwarder_init_calls fd nonblocking pton f =
     (let (ok, f') = forwarder_init fd nonblocking pton f;
          cs = (if fd < 0 then [] else if \<not> nonblocking \<or> pton (upstream_ip f) = None then [Opened fd, Closed fd]
                else [Opened fd])
      in (cs, ok, f'))"

definition forwarder_destroy :: "forwarder \<Rightarrow> sys_call list" where
  "forwarder_destroy f = (if 0 \<le> socket_fd f then [Closed (socket_fd f)] else [])"

text \<open>The end of \<open>main\<close> after the loop: \<open>stop\<close>, the listening socket, then the destructors of the server
  and of the forwarder.\<close>

definition shut_down :: "int \<Rightarrow> ipc_server \<Rightarrow> forwarder \<Rightarrow> sys_call list" where
  "shut_down fd server f =
     (let (stop, server) = ipc_stop server
      in stop @ [Closed fd] @ fst (ipc_stop server) @ forwarder_destroy f)"

text \<open>
  \<open>main\<close> from the start of the control server on, with the calls and lines so far.  After the loop the join
  in \<open>stop\<close> waits for the worker.
\<close>

definition main_from_ipc ::
    "nat \<Rightarrow> (nat \<Rightarrow> u16) \<Rightarrow> os_answers \<Rightarrow> options \<Rightarrow> tick stream \<Rightarrow> forwarder \<Rightarrow> sys_call list \<Rightarrow> outcome option" where
  "main_from_ipc n draws os opts ts f cs = do {
     let fd = os_listen_fd os;
     (scs, started, server) \<leftarrow> ipc_start n (os_ipc os) (new_ipc_server (ipc_sock opts));
     let cs = cs @ scs;
     if \<not> started then
       Some \<lparr>exit_code = 1, calls = cs @ [Closed fd] @ fst (ipc_stop server) @ forwarder_destroy f, effects = [],
             printed = banner opts @ [Stderr (''Failed to initialize IPC server on '' @ ipc_sock opts)]\<rparr>
     else do {
       (out, s) \<leftarrow> main_loop draws (opt_quiet opts) ts (startup f);
       if \<not> os_worker_reads os then None
       else Some \<lparr>exit_code = 0, calls = cs @ shut_down fd server (dp_forwarder s), effects = out,
             printed = banner opts @ [Stdout ''Dataplane running. Waiting for queries & IPC commands...'',
               Stdout [], Stdout ''Shutting down gracefully.'']\<rparr>
     }
   }"

definition main_program ::
    "nat \<Rightarrow> (nat \<Rightarrow> u16) \<Rightarrow> os_answers \<Rightarrow> string list \<Rightarrow> tick stream \<Rightarrow> outcome option" where
  "main_program n draws os argv ts = do {
     opts \<leftarrow> parse_args argv default_options;
     let fd = os_listen_fd os;
     if fd < 0 then
       Some \<lparr>exit_code = 1, calls = [], effects = [],
             printed = banner opts @ [Stderr ''Failed to create listening socket'']\<rparr>
     else if \<not> os_bind_ok os then
       Some \<lparr>exit_code = 1, calls = [Opened fd, Closed fd], effects = [],
             printed = banner opts @
               [Stderr (''Failed to bind listening socket to port '' @ dec_string (unat (listen_port opts)))]\<rparr>
     else do {
       let cs = [Opened fd, BoundPort loopback_be (htons (listen_port opts))];
       let (fcs, initialised, f) = forwarder_init_calls (os_forward_fd os) (os_nonblocking_ok os) (os_pton os)
             (new_forwarder (opt_upstream_ip opts) (opt_upstream_port opts));
       let cs = cs @ fcs;
       if \<not> initialised then
         Some \<lparr>exit_code = 1, calls = cs @ [Closed fd] @ forwarder_destroy f, effects = [],
               printed = banner opts @ [Stderr ''Failed to initialize upstream forwarder'']\<rparr>
       else main_from_ipc n draws os opts ts f cs
     }
   }"

section \<open>Descriptors of the forwarder\<close>

lemma forwarder_init_calls_spec:
  assumes "socket_fd f = -1" "fd \<notin> D" "forwarder_init_calls fd nonblocking pton f = (cs, ok, f')"
  shows "ok \<longleftrightarrow> 0 \<le> fd \<and> nonblocking \<and> pton (upstream_ip f) \<noteq> None"
    and "descriptors D cs = Some (if ok then insert fd D else D)"
    and "ok \<Longrightarrow> socket_fd f' = fd" "\<not> ok \<Longrightarrow> socket_fd f' < 0" "pending_tx f' = pending_tx f"
  using assms by (auto simp: forwarder_init_calls_def forwarder_init_def Let_def split: option.splits if_splits)

lemma forwarder_destroy_spec:
  "descriptors D (forwarder_destroy f) =
     (if 0 \<le> socket_fd f then if socket_fd f \<in> D then Some (D - {socket_fd f}) else None else Some D)"
  by (simp add: forwarder_destroy_def)

text \<open>The event loop never touches the forwarder's descriptor.\<close>

lemma forward_query_socket:
  "forward_query draws now sent q addr f = Some (r, out, f') \<Longrightarrow> socket_fd f' = socket_fd f"
  by (auto simp: forward_query_def Let_def generate_unique_txid_def prune_def bind_eq_Some_conv
      split: if_splits)

lemma validate_response_socket:
  "validate_response buf from f = Some (r, f') \<Longrightarrow> socket_fd f' = socket_fd f"
  by (cases rule: validate_response_cases [of buf "from" f]) (auto simp: consumed_def)

lemma handle_client_socket:
  assumes "handle_client draws quiet e snap g buf addr s = Some (out, s')"
  shows "socket_fd (dp_forwarder s') = socket_fd (dp_forwarder s)"
proof (cases "parse buf")
  case None
  with assms show ?thesis by (simp add: handle_client_def)
next
  case (Some r)
  show ?thesis
  proof (cases r)
    case (Err err)
    with assms Some show ?thesis by (simp add: handle_client_def)
  next
    case (Ok q)
    with assms Some show ?thesis
      by (auto simp: handle_client_Ok dest: forward_query_socket split: if_splits option.splits prod.splits)
  qed
qed

lemma handle_upstream_socket:
  assumes "handle_upstream e g buf addr s = Some (out, s')"
  shows "socket_fd (dp_forwarder s') = socket_fd (dp_forwarder s)"
proof -
  obtain r f where v: "validate_response buf addr (dp_forwarder s) = Some (r, f)"
    using assms by (auto simp: handle_upstream_def bind_eq_Some_conv)
  with assms have "dp_forwarder s' = f"
    by (cases r) (auto simp: handle_upstream_def Let_def bind_eq_Some_conv)
  with validate_response_socket [OF v] show ?thesis by simp
qed

lemma client_event_socket:
  "client_event draws quiet e d s = Some (out, s') \<Longrightarrow> socket_fd (dp_forwarder s') = socket_fd (dp_forwarder s)"
  by (auto simp: client_event_def dest: handle_client_socket split: if_splits)

lemma upstream_event_socket:
  "upstream_event e d s = Some (out, s') \<Longrightarrow> socket_fd (dp_forwarder s') = socket_fd (dp_forwarder s)"
  by (auto simp: upstream_event_def dest: handle_upstream_socket split: if_splits)

lemma loop_turn_socket:
  assumes "loop_turn draws quiet e c u s = Some (out, s')"
  shows "socket_fd (dp_forwarder s') = socket_fd (dp_forwarder s)"
proof -
  obtain out1 s1 out2 where r: "when_ready (client_event draws quiet e) c s = Some (out1, s1)"
      "when_ready (upstream_event e) u s1 = Some (out2, s')"
    using assms by (auto simp: loop_turn_def bind_eq_Some_conv)
  have "socket_fd (dp_forwarder s1) = socket_fd (dp_forwarder s)"
    using r(1) by (cases c) (auto simp: when_ready_def dest: client_event_socket)
  moreover have "socket_fd (dp_forwarder s') = socket_fd (dp_forwarder s1)"
    using r(2) by (cases u) (auto simp: when_ready_def dest: upstream_event_socket)
  ultimately show ?thesis by simp
qed

lemma dp_run_socket:
  assumes "dp_run draws quiet evs s = Some (out, s')"
  shows "socket_fd (dp_forwarder s') = socket_fd (dp_forwarder s)"
  using assms
proof (induction evs arbitrary: s out)
  case (Cons ev evs)
  then obtain out1 s1 out2 where 1: "dp_step draws quiet ev s = Some (out1, s1)" "dp_run draws quiet evs s1 = Some (out2, s')"
    by (auto simp: bind_eq_Some_conv)
  have "socket_fd (dp_forwarder s1) = socket_fd (dp_forwarder s)"
    using 1(1) by (cases ev) (auto simp: control_event_def dest: loop_turn_socket)
  with Cons.IH [OF 1(2)] show ?case by simp
qed simp

section \<open>Properties\<close>

text \<open>The descriptors the operating system hands out differ while they are open.\<close>

definition fresh_descriptors :: "os_answers \<Rightarrow> bool" where
  "fresh_descriptors os \<longleftrightarrow>
     (0 \<le> os_listen_fd os \<longrightarrow> os_forward_fd os \<noteq> os_listen_fd os \<and> ipc_fd (os_ipc os) \<noteq> os_listen_fd os) \<and>
     (0 \<le> os_forward_fd os \<longrightarrow> ipc_fd (os_ipc os) \<noteq> os_forward_fd os)"

definition set_up_succeeds :: "os_answers \<Rightarrow> options \<Rightarrow> bool" where
  "set_up_succeeds os opts \<longleftrightarrow>
     0 \<le> os_listen_fd os \<and> os_bind_ok os \<and>
     0 \<le> os_forward_fd os \<and> os_nonblocking_ok os \<and> os_pton os (opt_upstream_ip opts) \<noteq> None \<and>
     0 \<le> ipc_fd (os_ipc os) \<and> ipc_bind_ok (os_ipc os) \<and> ipc_listen_ok (os_ipc os)"

text \<open>The program leaves the event loop and the join.\<close>

definition comes_to_an_end :: "os_answers \<Rightarrow> tick stream \<Rightarrow> bool" where
  "comes_to_an_end os ts \<longleftrightarrow> (\<exists>t\<in>sset ts. ends_loop t) \<and> os_worker_reads os"

lemma loop_then_shut_down:
  assumes "recurring draws" "pending_tx f = []" "0 \<le> socket_fd f" "server_inv srv" "running srv"
    and "distinct [server_fd srv, socket_fd f, fd]"
    and loop: "main_loop draws quiet ts (startup f) = Some (out, s)"
  shows "descriptors {server_fd srv, socket_fd f, fd} (shut_down fd srv (dp_forwarder s)) = Some {}"
proof -
  obtain n where "\<forall>i<n. \<not> ends_loop (ts !! i)" "ends_loop (ts !! n)"
    using main_loop_returns_ends [OF loop] by (rule first_end)
  from main_loop_run [OF this] loop have "dp_run draws quiet (processed (stake n ts)) (startup f) = Some (out, s)"
    by simp
  from dp_run_socket [OF this] have s: "socket_fd (dp_forwarder s) = socket_fd f" by (simp add: startup_def)
  obtain stop srv' where stop: "ipc_stop srv = (stop, srv')" by force
  have "server_fds srv = {server_fd srv}" using assms(5) by (simp add: server_fds_def)
  with ipc_stop_spec [OF assms(4), of "{server_fd srv, socket_fd f, fd}"] stop assms(6)
  have "\<not> running srv'" "descriptors {server_fd srv, socket_fd f, fd} stop = Some {socket_fd f, fd}" by auto
  with s stop ipc_stop_idle [of srv'] assms(3,6) show ?thesis
    by (auto simp: shut_down_def descriptors_append forwarder_destroy_def)
qed

text \<open>An error line is printed exactly on the failing paths.\<close>

definition reports_error :: "outcome \<Rightarrow> bool" where
  "reports_error r \<longleftrightarrow> (\<exists>msg. Stderr msg \<in> set (printed r))"

lemma no_error_in_banner [simp]: "Stderr msg \<notin> set (banner opts)"
  by (simp add: banner_def)

definition clean :: "bool \<Rightarrow> outcome \<Rightarrow> bool" where
  "clean ok r \<longleftrightarrow> exit_code r = (if ok then 0 else 1) \<and> reports_error r = (\<not> ok) \<and>
     descriptors {} (calls r) = Some {} \<and> (\<not> ok \<longrightarrow> effects r = [])"

definition ipc_starts :: "os_answers \<Rightarrow> bool" where
  "ipc_starts os \<longleftrightarrow> 0 \<le> ipc_fd (os_ipc os) \<and> ipc_bind_ok (os_ipc os) \<and> ipc_listen_ok (os_ipc os)"

lemma main_from_ipc_clean:
  assumes "recurring draws" "fresh_descriptors os" "0 \<le> os_listen_fd os" "0 \<le> os_forward_fd os"
    and "socket_fd f = os_forward_fd os" "pending_tx f = []"
    and cs: "descriptors {} cs = Some {os_forward_fd os, os_listen_fd os}"
  shows "(main_from_ipc n draws os opts ts f cs = None \<longleftrightarrow> ipc_starts os \<and> \<not> comes_to_an_end os ts) \<and>
    (\<forall>r. main_from_ipc n draws os opts ts f cs = Some r \<longrightarrow> clean (ipc_starts os) r)"
proof -
  let ?fd = "os_listen_fd os" and ?ffd = "os_forward_fd os" and ?ifd = "ipc_fd (os_ipc os)"
  let ?srv0 = "new_ipc_server (ipc_sock opts)"
  have fd: "?ffd \<noteq> ?fd" "?ifd \<noteq> ?fd" "?ifd \<noteq> ?ffd" using assms(2-4) by (auto simp: fresh_descriptors_def)
  have srv0: "server_inv ?srv0" "\<not> running ?srv0" by (simp_all add: new_ipc_server_inv) (simp add: new_ipc_server_def)
  have "?ifd \<notin> {?ffd, ?fd}" using fd by simp
  from ipc_start_spec [OF srv0 this, of n] obtain scs started srv where st:
      "ipc_start n (os_ipc os) ?srv0 = Some (scs, started, srv)" "server_inv srv" "running srv = started"
      "started \<longleftrightarrow> ipc_starts os"
      "started \<longrightarrow> server_fd srv = ?ifd" "descriptors {?ffd, ?fd} scs = Some ({?ffd, ?fd} \<union> server_fds srv)"
    unfolding ipc_starts_def by blast
  show ?thesis
  proof (cases started)
    case False
    then have "ipc_stop srv = ([], srv)" using st(3) ipc_stop_idle by blast
    with False cs st fd assms(3-5) show ?thesis
      by (auto simp: main_from_ipc_def clean_def reports_error_def Let_def descriptors_append forwarder_destroy_def server_fds_def)
  next
    case True
    then have sfd: "running srv" "server_fd srv = ?ifd" "distinct [server_fd srv, socket_fd f, ?fd]"
      using st(3,5) fd assms(5) by auto
    note returns = main_loop_returns_iff [OF assms(1,6), of "opt_quiet opts" ts]
    have "descriptors {?ifd, ?ffd, ?fd} (shut_down ?fd srv (dp_forwarder s)) = Some {}"
      if "main_loop draws (opt_quiet opts) ts (startup f) = Some (out, s)" for out s
      using loop_then_shut_down [OF assms(1,6) _ st(2) sfd(1,3) that] assms(4,5) sfd(2) by simp
    with True cs st(1,4,6) sfd(1,2) returns show ?thesis
      by (auto simp: main_from_ipc_def clean_def reports_error_def comes_to_an_end_def Let_def descriptors_append
          server_fds_def bind_eq_None_conv bind_eq_Some_conv split: if_splits)
  qed
qed

text \<open>
  Property C6 (when the program returns, and how).  For any arguments whose numbers are representable,
  whatever the operating system answers and whatever datagrams and policies arrive, \<open>main\<close> fails to return in
  one case only: the set-up succeeded and either no turn of the loop ever finds \<open>g_running\<close> false or an error
  of \<open>poll\<close> other than \<open>EINTR\<close>, or the worker that \<open>stop\<close> joins is held in \<open>read\<close> by a silent client.  When it
  returns, it returns 0 if every step of the set-up succeeded, and otherwise prints an error line, sends
  nothing and returns 1; and on every path it closes each descriptor it opened exactly once.
\<close>

theorem main_program_clean:
  assumes "parse_args argv default_options = Some opts" "recurring draws" "fresh_descriptors os"
  shows "(main_program n draws os argv ts = None \<longleftrightarrow>
      set_up_succeeds os opts \<and> \<not> ((\<exists>t\<in>sset ts. ends_loop t) \<and> os_worker_reads os)) \<and>
    (\<forall>r. main_program n draws os argv ts = Some r \<longrightarrow>
      exit_code r = (if set_up_succeeds os opts then 0 else 1) \<and>
      descriptors {} (calls r) = Some {} \<and>
      ((\<exists>msg. Stderr msg \<in> set (printed r)) \<longleftrightarrow> \<not> set_up_succeeds os opts) \<and>
      (\<not> set_up_succeeds os opts \<longrightarrow> effects r = []))"
proof (cases "os_listen_fd os < 0 \<or> \<not> os_bind_ok os")
  case True
  with assms(1) show ?thesis by (auto simp: main_program_def set_up_succeeds_def Let_def)
next
  case False
  let ?fd = "os_listen_fd os" and ?ffd = "os_forward_fd os"
  let ?f0 = "new_forwarder (opt_upstream_ip opts) (opt_upstream_port opts)"
  have f0: "socket_fd ?f0 = -1" "upstream_ip ?f0 = opt_upstream_ip opts" "pending_tx ?f0 = []"
    by (simp_all add: new_forwarder_def)
  have fd: "0 \<le> ?fd" "?ffd \<noteq> ?fd" using False assms(3) by (auto simp: fresh_descriptors_def)
  obtain fcs ok f where init: "forwarder_init_calls ?ffd (os_nonblocking_ok os) (os_pton os) ?f0 = (fcs, ok, f)"
    by (metis prod_cases3)
  note fi = forwarder_init_calls_spec [OF f0(1) _ init, of "{?fd}", unfolded f0]
  have fcs: "descriptors {?fd} fcs = Some (if ok then {?ffd, ?fd} else {?fd})" using fi(2) fd(2) by auto
  show ?thesis
  proof (cases ok)
    case False': False
    then have "forwarder_destroy f = []" using fi(4) fd(2) by (simp add: forwarder_destroy_def)
    with assms(1) False False' init fcs fi(1) fd show ?thesis
      by (auto simp: main_program_def set_up_succeeds_def Let_def descriptors_append)
  next
    case True
    let ?cs = "[Opened ?fd, BoundPort loopback_be (htons (listen_port opts))] @ fcs"
    have "0 \<le> ?ffd" "socket_fd f = ?ffd" "pending_tx f = []" "descriptors {} ?cs = Some {?ffd, ?fd}"
      using fi(1,3,5) True fd(2) fcs by auto
    note rest = main_from_ipc_clean [OF assms(2,3) fd(1) this, of n opts ts]
    have "main_program n draws os argv ts = main_from_ipc n draws os opts ts f ?cs"
      using assms(1) False True init by (simp add: main_program_def Let_def)
    moreover have "set_up_succeeds os opts \<longleftrightarrow> ipc_starts os"
      using False True fi(1) fd by (auto simp: set_up_succeeds_def ipc_starts_def)
    ultimately show ?thesis using rest by (simp add: clean_def reports_error_def comes_to_an_end_def)
  qed
qed

definition sample_ticks :: "tick stream" where
  "sample_ticks =
     Poll True Interrupted ##
     Poll True (Ready sample_env (Some (query_bytes sample_header sample_labels 1 1, sample_client)) None) ##
     Served ''{}'' ## Poll True (Ready sample_env None None) ## sconst (Poll False Interrupted)"

definition sample_os :: os_answers where
  "sample_os = \<lparr>os_listen_fd = 3, os_bind_ok = True, os_forward_fd = 4, os_nonblocking_ok = True,
     os_pton = (\<lambda>ip. if ip = ''8.8.8.8'' then Some 0x08080808 else None), os_ipc = ipc_os_ok 5,
     os_worker_reads = True\<rparr>"

theorem main_program_clean_witness:
  "(\<exists>r. main_program 108 word_of_nat sample_os [''--quiet''] sample_ticks = Some r \<and>
      exit_code r = 0 \<and> descriptors {} (calls r) = Some {}) \<and>
   main_program 108 word_of_nat sample_os [''--quiet''] (sconst (Poll True Interrupted)) = None \<and>
   main_program 108 word_of_nat (sample_os\<lparr>os_worker_reads := False\<rparr>) [''--quiet''] sample_ticks = None \<and>
   (\<exists>r. main_program 108 word_of_nat sample_os [''--upstream'', ''dns.google''] sample_ticks = Some r \<and>
      exit_code r = 1 \<and> descriptors {} (calls r) = Some {})"
proof -
  let ?os = "sample_os\<lparr>os_worker_reads := False\<rparr>"
  have "fresh_descriptors sample_os" "fresh_descriptors ?os"
    by (simp_all add: fresh_descriptors_def sample_os_def ipc_os_ok_def)
  note ok = this [THEN main_program_clean [OF _ recurring_word_of_nat, rotated]]
  have args: "parse_args [''--quiet''] default_options = Some (default_options\<lparr>opt_quiet := True\<rparr>)"
    "parse_args [''--upstream'', ''dns.google''] default_options = Some (default_options\<lparr>opt_upstream_ip := ''dns.google''\<rparr>)"
    by (simp, simp add: set_upstream_def find_char_absent)
  have up: "set_up_succeeds sample_os (default_options\<lparr>opt_quiet := True\<rparr>)"
    "set_up_succeeds ?os (default_options\<lparr>opt_quiet := True\<rparr>)"
    "\<not> set_up_succeeds sample_os (default_options\<lparr>opt_upstream_ip := ''dns.google''\<rparr>)"
    by (simp_all add: set_up_succeeds_def sample_os_def ipc_os_ok_def default_options_def)
  have ends: "\<exists>t\<in>sset sample_ticks. ends_loop t" "\<not> (\<exists>t\<in>sset (sconst (Poll True Interrupted)). ends_loop t)"
    "os_worker_reads sample_os" "\<not> os_worker_reads ?os"
    by (simp_all add: sample_ticks_def sample_os_def)
  show ?thesis
    using ok(1) [OF args(1), of 108 sample_ticks] ok(1) [OF args(1), of 108 "sconst (Poll True Interrupted)"]
      ok(2) [OF args(1), of 108 sample_ticks] ok(1) [OF args(2), of 108 sample_ticks] up ends
    by (auto simp del: sset_sconst)
qed

text \<open>
  Further fact (the two threads meet in the manager).  The connections that the worker's loop serves
  change the data plane exactly as the control events of the event loop with their bytes.
\<close>

theorem worker_loop_is_control_events:
  "dp_run draws quiet (map (\<lambda>p. Control (conn_data p)) (served ps)) s =
     Some ([], s\<lparr>dp_manager := snd (listen_loop ps (dp_manager s))\<rparr>)"
proof (induction ps arbitrary: s)
  case (Cons p ps)
  show ?case
  proof (cases p)
    case (Connection fd data)
    with Cons [of "control_event data s"] show ?thesis
      by (simp add: control_event_def case_prod_beta Let_def)
  qed (use Cons in simp_all)
qed simp

end
