(* ===== verification/Pattern_Automaton.thy ===== *)
theory Pattern_Automaton
  imports Prelude "HOL-Library.Monad_Syntax" "HOL-Library.Multiset"
begin

text \<open>
  The Aho-Corasick automaton (\<open>dataplane/src/engine/aho_corasick.cpp\<close>), the substring matcher that
  the benchmarks compare with the suffix trie.  Nodes live in one vector and name each other by index;
  every indexed access is checked, and \<open>None\<close> is an access outside the vector or a loop that does not
  end.  A node's \<open>unordered_map<char, int>\<close> is an association list, and the order in which a loop
  visits its entries, which the standard leaves open, is the parameter \<open>visit\<close>.

  The abstraction: a node stands for the word on its path from the root (\<open>ws ! i\<close> for node \<open>i\<close>), the
  failure link of a node for the longest proper suffix of its word that is the word of a node, and its
  mark for the patterns that are suffixes of its word.
\<close>

section \<open>The code\<close>

record ac_node =
  transitions :: "(char \<times> nat) list"
  fail_link :: nat
  is_match :: bool
  ac_rule_id :: u32

record aho_corasick =
  ac_nodes :: "ac_node list"
  built :: bool

definition new_ac_node :: ac_node where
  "new_ac_node = \<lparr>transitions = [], fail_link = 0, is_match = False, ac_rule_id = 0\<rparr>"

definition new_automaton :: aho_corasick where
  "new_automaton = \<lparr>ac_nodes = [new_ac_node], built = False\<rparr>"

text \<open>The loop of \<open>insert\<close>: the node it ends in and the grown vector.\<close>

fun ac_insert_loop :: "string \<Rightarrow> nat \<Rightarrow> ac_node list \<Rightarrow> (nat \<times> ac_node list) option" where
  "ac_insert_loop [] cur ns = Some (cur, ns)"
| "ac_insert_loop (c # cs) cur ns =
     do {
       n \<leftarrow> rd ns cur;
       case map_of (transitions n) (tolower c) of
         None \<Rightarrow> do {
           let next_idx = length ns;
           ns' \<leftarrow> wr (ns @ [new_ac_node]) cur (n\<lparr>transitions := AList.update (tolower c) next_idx (transitions n)\<rparr>);
           ac_insert_loop cs next_idx ns' }
       | Some next_idx \<Rightarrow> ac_insert_loop cs next_idx ns }"

definition ac_insert :: "string \<Rightarrow> u32 \<Rightarrow> aho_corasick \<Rightarrow> aho_corasick option" where
  "ac_insert pattern rid a =
     (if pattern = [] then Some a
      else do {
        (cur, ns) \<leftarrow> ac_insert_loop pattern 0 (ac_nodes a);
        n \<leftarrow> rd ns cur;
        ns' \<leftarrow> wr ns cur (n\<lparr>is_match := True, ac_rule_id := rid\<rparr>);
        Some (a\<lparr>ac_nodes := ns', built := False\<rparr>) })"

text \<open>The inner \<open>while\<close> that \<open>build\<close> and \<open>search\<close> share: follow failure links up to a node with a
  transition for the character, or to the root.\<close>

partial_function (option) fail_walk :: "ac_node list \<Rightarrow> char \<Rightarrow> nat \<Rightarrow> nat option" where
  "fail_walk ns c f =
     do {
       n \<leftarrow> rd ns f;
       if 0 < f \<and> map_of (transitions n) c = None then fail_walk ns c (fail_link n) else Some f }"

text \<open>The first loop of \<open>build\<close>, over the root's children, and the body of the inner loop for the child
  \<open>v\<close> of \<open>u\<close> on \<open>c\<close>; both also push the child on the queue.\<close>

fun link_root_children :: "(char \<times> nat) list \<Rightarrow> ac_node list \<Rightarrow> nat list \<Rightarrow> (ac_node list \<times> nat list) option" where
  "link_root_children [] ns q = Some (ns, q)"
| "link_root_children ((c, child_idx) # es) ns q =
     do {
       n \<leftarrow> rd ns child_idx;
       ns' \<leftarrow> wr ns child_idx (n\<lparr>fail_link := 0\<rparr>);
       link_root_children es ns' (q @ [child_idx]) }"

definition link_child :: "ac_node list \<Rightarrow> nat \<Rightarrow> char \<Rightarrow> nat \<Rightarrow> ac_node list option" where
  "link_child ns u c v =
     do {
       nu \<leftarrow> rd ns u;
       f \<leftarrow> fail_walk ns c (fail_link nu);
       nf \<leftarrow> rd ns f;
       nv \<leftarrow> rd ns v;
       let l = (case map_of (transitions nf) c of
                  Some w \<Rightarrow> if w \<noteq> v then w else 0
                | None \<Rightarrow> 0);
       ns' \<leftarrow> wr ns v (nv\<lparr>fail_link := l\<rparr>);
       nl \<leftarrow> rd ns' l;
       if is_match nl then wr ns' v (nv\<lparr>fail_link := l, is_match := True, ac_rule_id := ac_rule_id nl\<rparr>)
       else Some ns' }"

fun link_children :: "nat \<Rightarrow> (char \<times> nat) list \<Rightarrow> ac_node list \<Rightarrow> nat list \<Rightarrow> (ac_node list \<times> nat list) option" where
  "link_children u [] ns q = Some (ns, q)"
| "link_children u ((c, v) # es) ns q =
     do {
       ns' \<leftarrow> link_child ns u c v;
       link_children u es ns' (q @ [v]) }"

text \<open>The breadth-first loop.\<close>

partial_function (option) bfs_loop ::
  "((char \<times> nat) list \<Rightarrow> (char \<times> nat) list) \<Rightarrow> nat list \<Rightarrow> ac_node list \<Rightarrow> ac_node list option" where
  "bfs_loop visit q ns =
     (case q of
        [] \<Rightarrow> Some ns
      | u # q' \<Rightarrow> do {
          n \<leftarrow> rd ns u;
          (ns', q'') \<leftarrow> link_children u (visit (transitions n)) ns q';
          bfs_loop visit q'' ns' })"

definition ac_build :: "((char \<times> nat) list \<Rightarrow> (char \<times> nat) list) \<Rightarrow> aho_corasick \<Rightarrow> aho_corasick option" where
  "ac_build visit a =
     do {
       root \<leftarrow> rd (ac_nodes a) 0;
       (ns, q) \<leftarrow> link_root_children (visit (transitions root)) (ac_nodes a) [];
       ns' \<leftarrow> bfs_loop visit q ns;
       Some (a\<lparr>ac_nodes := ns', built := True\<rparr>) }"

text \<open>\<open>search\<close>: the result is \<open>Some rid\<close> for \<open>true\<close> with \<open>*out_rule_id = rid\<close>, \<open>None\<close> for \<open>false\<close>.\<close>

fun ac_search_loop :: "ac_node list \<Rightarrow> string \<Rightarrow> nat \<Rightarrow> u32 option option" where
  "ac_search_loop ns [] cur = Some None"
| "ac_search_loop ns (c # cs) cur =
     do {
       k \<leftarrow> fail_walk ns (tolower c) cur;
       n \<leftarrow> rd ns k;
       let next = (case map_of (transitions n) (tolower c) of Some w \<Rightarrow> w | None \<Rightarrow> 0);
       n' \<leftarrow> rd ns next;
       if is_match n' then Some (Some (ac_rule_id n')) else ac_search_loop ns cs next }"

definition ac_search :: "string \<Rightarrow> aho_corasick \<Rightarrow> u32 option option" where
  "ac_search input a = (if \<not> built a then Some None else ac_search_loop (ac_nodes a) input 0)"

definition node_count :: "aho_corasick \<Rightarrow> nat" where
  "node_count a = length (ac_nodes a)"

section \<open>Suffixes in a set of words\<close>

text \<open>The longest suffix of a word in a set, and what the shortest suffix with a value maps to.\<close>

fun longest_in :: "string set \<Rightarrow> string \<Rightarrow> string" where
  "longest_in W [] = []"
| "longest_in W (c # cs) = (if c # cs \<in> W then c # cs else longest_in W cs)"

fun shortest_rule :: "(string \<Rightarrow> u32 option) \<Rightarrow> string \<Rightarrow> u32 option" where
  "shortest_rule R [] = None"
| "shortest_rule R (c # cs) = (case shortest_rule R cs of Some r \<Rightarrow> Some r | None \<Rightarrow> R (c # cs))"

lemma longest_in_mem: "[] \<in> W \<Longrightarrow> longest_in W t \<in> W"
  by (induction t) auto

lemma longest_in_suffix: "suffix (longest_in W t) t"
  by (induction t) (auto simp: suffix_Cons)

lemma longest_in_self [simp]: "t \<in> W \<Longrightarrow> longest_in W t = t"
  by (cases t) auto

lemma longest_in_le: "length (longest_in W t) \<le> length t"
  using longest_in_suffix suffix_length_le by blast

lemma longest_in_greatest: "s \<in> W \<Longrightarrow> suffix s t \<Longrightarrow> suffix s (longest_in W t)"
  by (induction t) (auto simp: suffix_Cons)

lemma longest_in_eqI:
  assumes "[] \<in> W" "w \<in> W" "suffix w t" "\<And>s. s \<in> W \<Longrightarrow> suffix s t \<Longrightarrow> suffix s w"
  shows "longest_in W t = w"
  using assms longest_in_mem longest_in_suffix longest_in_greatest suffix_order.antisym by metis

lemma shortest_rule_longest_in: "dom R \<subseteq> W \<Longrightarrow> shortest_rule R (longest_in W t) = shortest_rule R t"
proof (induction t)
  case (Cons c cs)
  then show ?case by (cases "R (c # cs)") (auto split: option.splits)
qed simp

lemma shortest_rule_None_iff: "shortest_rule R t = None \<longleftrightarrow> (\<forall>p. p \<noteq> [] \<and> suffix p t \<longrightarrow> R p = None)"
  by (induction t) (auto simp: suffix_Cons split: option.splits)

definition prefix_closed :: "string set \<Rightarrow> bool" where
  "prefix_closed W \<longleftrightarrow> (\<forall>w c. w @ [c] \<in> W \<longrightarrow> w \<in> W)"

text \<open>The recurrence behind failure links: the longest suffix of \<open>t @ [c]\<close> extends a suffix of \<open>t\<close>.\<close>

lemma longest_in_snoc:
  assumes W: "[] \<in> W" "prefix_closed W" and m: "suffix m t" "\<And>s. s @ [c] \<in> W \<Longrightarrow> suffix s t \<Longrightarrow> suffix s m"
  shows "longest_in W (t @ [c]) = longest_in W (m @ [c])"
proof (rule longest_in_eqI [OF W(1) longest_in_mem [OF W(1)]])
  show "suffix (longest_in W (m @ [c])) (t @ [c])"
    using longest_in_suffix m(1) by (metis snoc_suffix_snoc suffix_order.trans)
  fix s assume s: "s \<in> W" "suffix s (t @ [c])"
  show "suffix s (longest_in W (m @ [c]))"
  proof (cases s rule: rev_cases)
    case (snoc s' d)
    with s have "d = c" "suffix s' t" by auto
    with s(1) snoc m(2) have "suffix s (m @ [c])" by simp
    with s(1) show ?thesis by (rule longest_in_greatest)
  qed simp
qed

lemma longest_in_snoc_longest:
  assumes "[] \<in> W" "prefix_closed W"
  shows "longest_in W (t @ [c]) = longest_in W (longest_in W t @ [c])"
  by (rule longest_in_snoc [OF assms longest_in_suffix])
    (use assms in \<open>auto simp: prefix_closed_def intro: longest_in_greatest\<close>)

lemma longest_in_snoc_tl:
  assumes "[] \<in> W" "prefix_closed W" "t @ [c] \<notin> W" "t \<noteq> []"
  shows "longest_in W (t @ [c]) = longest_in W (tl t @ [c])"
proof (rule longest_in_snoc [OF assms(1,2)])
  show "suffix (tl t) t" by (simp add: suffix_tl)
  fix s assume "s @ [c] \<in> W" "suffix s t"
  with assms(3,4) show "suffix s (tl t)" by (cases t) (auto simp: suffix_Cons)
qed

section \<open>The tree of words\<close>

definition word_tree :: "ac_node list \<Rightarrow> string list \<Rightarrow> bool" where
  "word_tree ns ws \<longleftrightarrow>
     length ws = length ns \<and> ws \<noteq> [] \<and> ws ! 0 = [] \<and> distinct ws \<and> prefix_closed (set ws) \<and>
     (\<forall>i < length ns. distinct (map fst (transitions (ns ! i))) \<and>
        (\<forall>c j. map_of (transitions (ns ! i)) c = Some j \<longleftrightarrow> j < length ns \<and> ws ! j = ws ! i @ [c]))"

text \<open>A node without its transitions.\<close>

definition marks :: "ac_node \<Rightarrow> ac_node" where
  "marks n = n\<lparr>transitions := []\<rparr>"

lemma marks_eq_iff:
  "marks n = marks m \<longleftrightarrow> fail_link n = fail_link m \<and> is_match n = is_match m \<and> ac_rule_id n = ac_rule_id m"
  by (cases n; cases m) (simp add: marks_def)

lemma word_treeD:
  assumes "word_tree ns ws"
  shows "length ws = length ns" "0 < length ns" "ws ! 0 = []" "distinct ws" "prefix_closed (set ws)" "[] \<in> set ws"
    and "i < length ns \<Longrightarrow> distinct (map fst (transitions (ns ! i)))"
    and "i < length ns \<Longrightarrow> map_of (transitions (ns ! i)) c = Some j \<longleftrightarrow> j < length ns \<and> ws ! j = ws ! i @ [c]"
  using assms unfolding word_tree_def by (auto, metis length_pos_if_in_set list.set_sel(1) hd_conv_nth)

lemma word_tree_None:
  assumes "word_tree ns ws" "i < length ns"
  shows "map_of (transitions (ns ! i)) c = None \<longleftrightarrow> ws ! i @ [c] \<notin> set ws"
proof -
  have "map_of (transitions (ns ! i)) c \<noteq> None \<longleftrightarrow> (\<exists>j < length ns. ws ! j = ws ! i @ [c])"
    using word_treeD(8) [OF assms] by auto
  then show ?thesis using word_treeD(1) [OF assms(1)] by (auto simp: in_set_conv_nth)
qed

lemma word_tree_transitions:
  assumes "word_tree ns ws" "map transitions ns' = map transitions ns"
  shows "word_tree ns' ws"
proof -
  have "length ns' = length ns" using assms(2) by (metis length_map)
  moreover from this have "transitions (ns' ! i) = transitions (ns ! i)" if "i < length ns" for i
    using assms(2) that by (metis nth_map)
  ultimately show ?thesis using assms(1) by (simp add: word_tree_def del: map_of_eq_Some_iff)
qed

lemma word_tree_grow:
  assumes t: "word_tree ns ws" and i: "i < length ns" and c: "map_of (transitions (ns ! i)) c = None"
  shows "word_tree ((ns @ [new_ac_node])[i := (ns ! i)\<lparr>transitions := AList.update c (length ns) (transitions (ns ! i))\<rparr>])
           (ws @ [ws ! i @ [c]])" (is "word_tree ?ns ?ws")
proof -
  note d = word_treeD [OF t]
  have fresh: "ws ! i @ [c] \<notin> set ws" using word_tree_None [OF t i] c by simp
  then have fresh_nth: "ws ! k \<noteq> ws ! i @ [c]" if "k < length ns" for k
    using that d(1) by (metis nth_mem)
  have leaf: "ws ! i @ [c, e] \<notin> set ws" for e
    using d(5) fresh unfolding prefix_closed_def by (metis append_assoc append_Cons append_Nil)
  have "prefix_closed (set ?ws)"
    using d(1,5) i unfolding prefix_closed_def by auto
  moreover have "distinct (map fst (transitions (?ns ! j)))" if "j < length ?ns" for j
    using that d(7) i by (auto simp: nth_list_update nth_append less_Suc_eq distinct_update new_ac_node_def)
  moreover have "map_of (transitions (?ns ! j)) e = Some k \<longleftrightarrow> k < length ?ns \<and> ?ws ! k = ?ws ! j @ [e]"
    if "j < length ?ns" for j e k
  proof -
    consider "j = i" | "j \<noteq> i" "j < length ns" | "j = length ns" using \<open>j < length ?ns\<close> by fastforce
    then show ?thesis
    proof cases
      case 1
      then show ?thesis
        using i c d(1,8) fresh_nth
        by (auto simp: update_conv' nth_append less_Suc_eq simp del: map_of_eq_Some_iff)
    next
      case 2
      then have "ws ! j \<noteq> ws ! i" using nth_eq_iff_index_eq [OF d(4)] d(1) i by auto
      with 2 i d(1,8) show ?thesis
        by (auto simp: nth_append less_Suc_eq simp del: map_of_eq_Some_iff)
    next
      case 3
      with i d(1) leaf show ?thesis
        by (auto simp: nth_append new_ac_node_def in_set_conv_nth)
    qed
  qed
  ultimately show ?thesis using d fresh by (simp add: word_tree_def nth_append del: map_of_eq_Some_iff)
qed

section \<open>Insertion\<close>

text \<open>What \<open>R\<close>, the rules inserted so far, demands of a node with word \<open>w\<close> at any time, and after
  \<open>build\<close>.\<close>

definition marks_ok :: "(string \<Rightarrow> u32 option) \<Rightarrow> ac_node \<Rightarrow> string \<Rightarrow> bool" where
  "marks_ok R n w \<longleftrightarrow>
     (is_match n \<longrightarrow> shortest_rule R w \<noteq> None) \<and> (R w \<noteq> None \<longrightarrow> is_match n) \<and>
     (\<forall>r. R w = Some r \<and> shortest_rule R (tl w) = None \<longrightarrow> ac_rule_id n = r)"

definition links_ok :: "(string \<Rightarrow> u32 option) \<Rightarrow> string list \<Rightarrow> ac_node \<Rightarrow> string \<Rightarrow> bool" where
  "links_ok R ws n w \<longleftrightarrow>
     (w \<noteq> [] \<longrightarrow> fail_link n < length ws \<and> ws ! fail_link n = longest_in (set ws) (tl w)) \<and>
     shortest_rule R w = (if is_match n then Some (ac_rule_id n) else None)"

text \<open>The words of the nodes are the prefixes of the patterns.\<close>

definition words_of :: "(string \<Rightarrow> u32 option) \<Rightarrow> string set" where
  "words_of R = insert [] {w. \<exists>p \<in> dom R. prefix w p}"

definition ac_tree :: "(string \<Rightarrow> u32 option) \<Rightarrow> ac_node list \<Rightarrow> string list \<Rightarrow> bool" where
  "ac_tree R ns ws \<longleftrightarrow> word_tree ns ws \<and> set ws = words_of R \<and> R [] = None \<and>
     (\<forall>i < length ns. marks_ok R (ns ! i) (ws ! i))"

definition ac_inv :: "(string \<Rightarrow> u32 option) \<Rightarrow> aho_corasick \<Rightarrow> bool" where
  "ac_inv R a \<longleftrightarrow> (\<exists>ws. ac_tree R (ac_nodes a) ws \<and>
     (built a \<longrightarrow> (\<forall>i < length ws. links_ok R ws (ac_nodes a ! i) (ws ! i))))"

lemma new_automaton_inv: "ac_inv Map.empty new_automaton"
  unfolding ac_inv_def
  by (rule exI [of _ "[[]]"])
    (auto simp: new_automaton_def ac_tree_def word_tree_def words_of_def marks_ok_def new_ac_node_def prefix_closed_def)

lemma dom_subset_words: "dom R \<subseteq> words_of R"
  by (auto simp: words_of_def)

lemma ac_insert_loop_grows:
  assumes "word_tree ns ws" "cur < length ns"
  shows "\<exists>k ns' ws'. ac_insert_loop p cur ns = Some (k, ns') \<and> word_tree ns' (ws @ ws') \<and> k < length ns' \<and>
    (ws @ ws') ! k = ws ! cur @ map tolower p \<and> map marks ns' = map marks ns @ replicate (length ws') new_ac_node \<and>
    set (ws @ ws') = set ws \<union> {ws ! cur @ q | q. prefix q (map tolower p)}"
  using assms
proof (induction p arbitrary: ns ws cur)
  case Nil
  have "ws ! cur \<in> set ws" using Nil word_treeD(1) by (metis nth_mem)
  with Nil show ?case by (intro exI [of _ cur] exI [of _ ns] exI [of _ "[]"]) (auto simp: mem_simps)
next
  case (Cons c cs)
  note d = word_treeD [OF Cons.prems(1)]
  have "ws ! cur \<in> set ws" using Cons.prems d(1) by (metis nth_mem)
  have pre: "{w @ q | q. prefix q (x # xs)} = insert w {(w @ [x]) @ q | q. prefix q xs}" for w x and xs :: string
    by (auto simp: prefix_Cons)
  show ?case
  proof (cases "map_of (transitions (ns ! cur)) (tolower c)")
    case None
    let ?ns = "(ns @ [new_ac_node])[cur := (ns ! cur)\<lparr>transitions := AList.update (tolower c) (length ns) (transitions (ns ! cur))\<rparr>]"
    let ?ws = "ws @ [ws ! cur @ [tolower c]]"
    have m: "map marks ?ns = map marks ns @ [new_ac_node]"
      using Cons.prems(2) by (intro nth_equalityI) (auto simp: nth_append nth_list_update marks_def new_ac_node_def)
    obtain k ns' ws' where IH: "ac_insert_loop cs (length ns) ?ns = Some (k, ns')" "word_tree ns' (?ws @ ws')" "k < length ns'"
        "(?ws @ ws') ! k = ?ws ! length ns @ map tolower cs"
        "map marks ns' = map marks ?ns @ replicate (length ws') new_ac_node"
        "set (?ws @ ws') = set ?ws \<union> {?ws ! length ns @ q | q. prefix q (map tolower cs)}"
      using Cons.IH [OF word_tree_grow [OF Cons.prems None], of "length ns"] by auto
    have "?ws ! length ns = ws ! cur @ [tolower c]" using d(1) by (metis nth_append_length)
    with IH None Cons.prems(2) m \<open>ws ! cur \<in> set ws\<close> show ?thesis
      by (intro exI [of _ k] exI [of _ ns'] exI [of _ "(ws ! cur @ [tolower c]) # ws'"])
        (auto simp: mem_simps pre [of _ "tolower c", simplified])
  next
    case (Some j)
    then have j: "j < length ns" "ws ! j = ws ! cur @ [tolower c]" using d(8) Cons.prems(2) by blast+
    obtain k ns' ws' where IH: "ac_insert_loop cs j ns = Some (k, ns')" "word_tree ns' (ws @ ws')" "k < length ns'"
        "(ws @ ws') ! k = ws ! j @ map tolower cs"
        "map marks ns' = map marks ns @ replicate (length ws') new_ac_node"
        "set (ws @ ws') = set ws \<union> {ws ! j @ q | q. prefix q (map tolower cs)}"
      using Cons.IH [OF Cons.prems(1) j(1)] by blast
    with Some j Cons.prems(2) \<open>ws ! cur \<in> set ws\<close> show ?thesis
      by (intro exI [of _ k] exI [of _ ns'] exI [of _ ws'])
        (auto simp: mem_simps pre [of _ "tolower c", simplified])
  qed
qed

lemma shortest_rule_mono:
  assumes "shortest_rule R w \<noteq> None" "\<And>q. R q \<noteq> None \<Longrightarrow> R' q \<noteq> None"
  shows "shortest_rule R' w \<noteq> None"
  using assms by (auto simp: shortest_rule_None_iff)

lemma marks_ok_insert:
  assumes "marks_ok R n w" "w \<noteq> p"
  shows "marks_ok (R(p \<mapsto> rid)) n w"
proof -
  have "shortest_rule R v \<noteq> None \<Longrightarrow> shortest_rule (R(p \<mapsto> rid)) v \<noteq> None" for v
    by (erule shortest_rule_mono) simp
  with assms show ?thesis unfolding marks_ok_def by fastforce
qed

lemma marks_ok_cong: "marks n = marks m \<Longrightarrow> marks_ok R n w \<longleftrightarrow> marks_ok R m w"
  by (simp add: marks_ok_def marks_eq_iff)

lemma ac_insert_inv:
  assumes "ac_inv R a" "p \<noteq> []"
  shows "\<exists>a'. ac_insert p rid a = Some a' \<and> ac_inv (R(map tolower p \<mapsto> rid)) a' \<and> \<not> built a'"
proof -
  let ?p = "map tolower p" and ?R = "R(map tolower p \<mapsto> rid)"
  obtain ws where t: "ac_tree R (ac_nodes a) ws" using assms(1) by (auto simp: ac_inv_def)
  then have w: "word_tree (ac_nodes a) ws" and R: "set ws = words_of R" "R [] = None"
    and mk: "\<And>i. i < length (ac_nodes a) \<Longrightarrow> marks_ok R (ac_nodes a ! i) (ws ! i)"
    by (auto simp: ac_tree_def)
  note d = word_treeD [OF w]
  obtain k ns ws' where ins: "ac_insert_loop p 0 (ac_nodes a) = Some (k, ns)" "word_tree ns (ws @ ws')" "k < length ns"
      "(ws @ ws') ! k = ?p" "map marks ns = map marks (ac_nodes a) @ replicate (length ws') new_ac_node"
      "set (ws @ ws') = set ws \<union> {q. prefix q ?p}"
    using ac_insert_loop_grows [OF w d(2), of p] d(3) by auto
  note d' = word_treeD [OF ins(2)]
  let ?ns = "ns[k := (ns ! k)\<lparr>is_match := True, ac_rule_id := rid\<rparr>]"
  have "ac_insert p rid a = Some (a\<lparr>ac_nodes := ?ns, built := False\<rparr>)"
    using assms(2) ins(1,3) by (simp add: ac_insert_def mem_simps)
  moreover have "word_tree ?ns (ws @ ws')"
    using ins(3) by (intro word_tree_transitions [OF ins(2)]) (simp add: map_update list_update_same_conv)
  moreover have "set (ws @ ws') = words_of ?R"
    using ins(6) R(1) by (auto simp: words_of_def)
  moreover have "marks_ok ?R (?ns ! i) ((ws @ ws') ! i)" if i: "i < length ns" for i
  proof (cases "i = k")
    case True
    with ins(3,4) show ?thesis
      using assms(2) by (cases p) (auto simp: marks_ok_def split: option.splits)
  next
    case False
    then have ne: "(ws @ ws') ! i \<noteq> ?p"
      using ins(3,4) i d'(1) nth_eq_iff_index_eq [OF d'(4)] by metis
    have m: "marks (ns ! i) = (map marks (ac_nodes a) @ replicate (length ws') new_ac_node) ! i"
      using ins(5) i by (metis nth_map)
    have "marks_ok R (ns ! i) ((ws @ ws') ! i)"
    proof (cases "i < length (ac_nodes a)")
      case True
      with m have "marks (ns ! i) = marks (ac_nodes a ! i)" by (simp add: nth_append)
      with mk [OF True] True d(1) show ?thesis by (metis marks_ok_cong nth_append)
    next
      case False
      with m i d'(1) d(1) have "marks (ns ! i) = marks new_ac_node"
        by (simp add: nth_append marks_def new_ac_node_def)
      moreover have "(ws @ ws') ! i \<notin> set ws"
        using False i d'(1,4) d(1) nth_mem [of "i - length ws" ws'] by (auto simp: nth_append)
      then have "R ((ws @ ws') ! i) = None" using R(1) dom_subset_words [of R] by auto
      ultimately show ?thesis
        by (auto simp: marks_ok_def marks_eq_iff new_ac_node_def)
    qed
    with False ne show ?thesis by (simp add: marks_ok_insert)
  qed
  ultimately have "ac_inv ?R (a\<lparr>ac_nodes := ?ns, built := False\<rparr>)"
    using R(2) assms(2) unfolding ac_inv_def ac_tree_def by (intro exI [of _ "ws @ ws'"]) auto
  with \<open>ac_insert p rid a = _\<close> show ?thesis by simp
qed

section \<open>Failure links\<close>

text \<open>The node that the walk and the transition after it lead to.\<close>

definition goto :: "ac_node list \<Rightarrow> nat \<Rightarrow> char \<Rightarrow> nat" where
  "goto ns k c = (case map_of (transitions (ns ! k)) c of Some w \<Rightarrow> w | None \<Rightarrow> 0)"

lemma fail_walk_longest:
  assumes t: "word_tree ns ws"
    and "f < length ns" "\<And>i. i < length ns \<Longrightarrow> length (ws ! i) \<le> length (ws ! f) \<Longrightarrow> links_ok R ws (ns ! i) (ws ! i)"
  shows "\<exists>k < length ns. fail_walk ns c f = Some k \<and> goto ns k c < length ns \<and>
    ws ! goto ns k c = longest_in (set ws) (ws ! f @ [c])"
  using assms(2,3)
proof (induction "length (ws ! f)" arbitrary: f rule: less_induct)
  case less
  note d = word_treeD [OF t]
  show ?case
  proof (cases "map_of (transitions (ns ! f)) c")
    case (Some j)
    then have "j < length ns" "ws ! j = ws ! f @ [c]" using d(8) less.prems(1) by blast+
    moreover from this have "ws ! f @ [c] \<in> set ws" using d(1) nth_mem [of j ws] by simp
    ultimately show ?thesis
      using Some less.prems(1) by (subst fail_walk.simps) (auto simp: mem_simps goto_def)
  next
    case None
    then have fresh: "ws ! f @ [c] \<notin> set ws" using word_tree_None [OF t less.prems(1)] by blast
    show ?thesis
    proof (cases "f = 0")
      case True
      with None fresh d(2,3) show ?thesis
        by (subst fail_walk.simps) (auto simp: mem_simps goto_def)
    next
      case False
      then have ne: "ws ! f \<noteq> []"
        using nth_eq_iff_index_eq [OF d(4), of f 0] d(1,2,3) less.prems(1) by auto
      let ?g = "fail_link (ns ! f)"
      have g: "?g < length ns" "ws ! ?g = longest_in (set ws) (tl (ws ! f))"
        using less.prems ne d(1) by (auto simp: links_ok_def)
      have "0 < length (ws ! f)" using ne by simp
      then have "length (ws ! ?g) < length (ws ! f)"
        using longest_in_le [of "set ws" "tl (ws ! f)"] unfolding g(2) length_tl by linarith
      then obtain k where k: "k < length ns" "fail_walk ns c ?g = Some k" "goto ns k c < length ns"
          "ws ! goto ns k c = longest_in (set ws) (ws ! ?g @ [c])"
        using less.hyps [of ?g] g(1) less.prems(2) by fastforce
      moreover have "longest_in (set ws) (ws ! f @ [c]) = longest_in (set ws) (ws ! ?g @ [c])"
        using longest_in_snoc_tl [OF d(6,5) fresh ne] longest_in_snoc_longest [OF d(6,5)] g(2) by simp
      ultimately show ?thesis
        using False None less.prems(1) by (subst fail_walk.simps) (simp add: mem_simps)
    qed
  qed
qed

lemma links_ok_root: "ac_tree R ns ws \<Longrightarrow> links_ok R ws (ns ! 0) (ws ! 0)"
  using word_treeD(2,3) by (fastforce simp: ac_tree_def links_ok_def marks_ok_def)

text \<open>A node whose failure link and inherited mark have been set.\<close>

lemma links_ok_inherit:
  assumes mk: "marks_ok R n w" and w: "w \<noteq> []" and R: "R [] = None" "dom R \<subseteq> set ws"
    and l: "l < length ws" "ws ! l = longest_in (set ws) (tl w)"
    and nl: "shortest_rule R (ws ! l) = (if is_match nl then Some (ac_rule_id nl) else None)"
  shows "links_ok R ws (if is_match nl then n\<lparr>fail_link := l, is_match := True, ac_rule_id := ac_rule_id nl\<rparr>
      else n\<lparr>fail_link := l\<rparr>) w"
    and "marks_ok R (if is_match nl then n\<lparr>fail_link := l, is_match := True, ac_rule_id := ac_rule_id nl\<rparr>
      else n\<lparr>fail_link := l\<rparr>) w"
proof -
  have tl: "shortest_rule R (tl w) = (if is_match nl then Some (ac_rule_id nl) else None)"
    using shortest_rule_longest_in [OF R(2), of "tl w"] l(2) nl by simp
  have "shortest_rule R w = (case shortest_rule R (tl w) of Some r \<Rightarrow> Some r | None \<Rightarrow> R w)"
    using w by (cases w) auto
  then show "links_ok R ws (if is_match nl then n\<lparr>fail_link := l, is_match := True, ac_rule_id := ac_rule_id nl\<rparr>
      else n\<lparr>fail_link := l\<rparr>) w"
    "marks_ok R (if is_match nl then n\<lparr>fail_link := l, is_match := True, ac_rule_id := ac_rule_id nl\<rparr>
      else n\<lparr>fail_link := l\<rparr>) w"
    using mk l tl by (auto simp: links_ok_def marks_ok_def)
qed

lemma ac_tree_update:
  assumes t: "ac_tree R ns ws" and v: "v < length ns" and n: "transitions n = transitions (ns ! v)" "marks_ok R n (ws ! v)"
  shows "ac_tree R (ns[v := n]) ws" "map transitions (ns[v := n]) = map transitions ns"
proof -
  show m: "map transitions (ns[v := n]) = map transitions ns"
    using n(1) v by (simp add: map_update list_update_same_conv)
  show "ac_tree R (ns[v := n]) ws"
    using t v n(2) word_tree_transitions [OF _ m] by (auto simp: ac_tree_def nth_list_update)
qed

lemma link_child_ok:
  assumes t: "ac_tree R ns ws" and u: "u < length ns" "ws ! u \<noteq> []" and v: "map_of (transitions (ns ! u)) c = Some v"
    and settled: "\<And>i. i < length ns \<Longrightarrow> length (ws ! i) \<le> length (ws ! u) \<Longrightarrow> links_ok R ws (ns ! i) (ws ! i)"
  shows "\<exists>n. link_child ns u c v = Some (ns[v := n]) \<and> v < length ns \<and> transitions n = transitions (ns ! v) \<and>
    marks_ok R n (ws ! v) \<and> links_ok R ws n (ws ! v)"
proof -
  have w: "word_tree ns ws" and R: "R [] = None" "dom R \<subseteq> set ws"
    using t dom_subset_words [of R] by (auto simp: ac_tree_def)
  note d = word_treeD [OF w]
  let ?f = "fail_link (ns ! u)"
  have f: "?f < length ns" "ws ! ?f = longest_in (set ws) (tl (ws ! u))"
    using settled [OF u(1)] u(2) d(1) by (auto simp: links_ok_def)
  have fu: "length (ws ! ?f) < length (ws ! u)"
    using longest_in_le [of "set ws" "tl (ws ! u)"] u(2) f(2) by (cases "ws ! u") auto
  have vw: "v < length ns" "ws ! v = ws ! u @ [c]" using d(8) [OF u(1)] v by blast+
  obtain k where k: "k < length ns" "fail_walk ns c ?f = Some k" "goto ns k c < length ns"
      "ws ! goto ns k c = longest_in (set ws) (ws ! ?f @ [c])"
    using fail_walk_longest [OF w f(1), of R] settled fu by fastforce
  let ?l = "goto ns k c"
  have l: "ws ! ?l = longest_in (set ws) (tl (ws ! v))"
    using k(4) longest_in_snoc_longest [OF d(6,5), of "tl (ws ! u)" c] f(2) vw(2) u(2) by simp
  have lu: "length (ws ! ?l) \<le> length (ws ! u)"
    using longest_in_le [of "set ws" "tl (ws ! v)"] l vw(2) u(2) by simp
  then have lv: "?l \<noteq> v" using vw(2) by auto
  have nl: "shortest_rule R (ws ! ?l) = (if is_match (ns ! ?l) then Some (ac_rule_id (ns ! ?l)) else None)"
    using settled [OF k(3) lu] by (simp add: links_ok_def)
  have c: "(case map_of (transitions (ns ! k)) c of Some w \<Rightarrow> if w \<noteq> v then w else 0 | None \<Rightarrow> 0) = ?l"
    using lv by (auto simp: goto_def split: option.splits)
  have mk: "marks_ok R (ns ! v) (ws ! v)" using t vw(1) by (simp add: ac_tree_def)
  have "ws ! v \<noteq> []" using vw(2) by simp
  note inh = links_ok_inherit [OF mk this R k(3) [unfolded d(1) [symmetric]] l nl]
  let ?n = "if is_match (ns ! ?l)
      then (ns ! v)\<lparr>fail_link := ?l, is_match := True, ac_rule_id := ac_rule_id (ns ! ?l)\<rparr>
      else (ns ! v)\<lparr>fail_link := ?l\<rparr>"
  have "link_child ns u c v = Some (ns[v := ?n])"
    using u(1) vw(1) k(1,2,3) lv by (simp add: link_child_def mem_simps c Let_def)
  moreover have "transitions ?n = transitions (ns ! v)" by simp
  ultimately show ?thesis using inh vw(1) by blast
qed

section \<open>The breadth-first loop\<close>

definition children_of :: "ac_node list \<Rightarrow> nat \<Rightarrow> (char \<times> nat) list \<Rightarrow> bool" where
  "children_of ns u es \<longleftrightarrow> (\<forall>(c, v) \<in> set es. map_of (transitions (ns ! u)) c = Some v)"

definition settled :: "(string \<Rightarrow> u32 option) \<Rightarrow> string list \<Rightarrow> ac_node list \<Rightarrow> nat \<Rightarrow> bool" where
  "settled R ws ns i \<longleftrightarrow> links_ok R ws (ns ! i) (ws ! i)"

lemma transitions_nth:
  assumes "map transitions ns' = map transitions ns" "i < length ns"
  shows "transitions (ns' ! i) = transitions (ns ! i)"
  using assms by (metis length_map nth_map)

lemma children_of_cong:
  "map transitions ns' = map transitions ns \<Longrightarrow> u < length ns \<Longrightarrow> children_of ns' u es \<longleftrightarrow> children_of ns u es"
  using transitions_nth [of ns' ns u] by (simp only: children_of_def)

lemma link_children_ok:
  assumes "ac_tree R ns ws" "u < length ns" "ws ! u \<noteq> []" "children_of ns u es"
    and "\<And>i. i < length ns \<Longrightarrow> length (ws ! i) \<le> length (ws ! u) \<Longrightarrow> settled R ws ns i"
  shows "\<exists>ns'. link_children u es ns q = Some (ns', q @ map snd es) \<and> ac_tree R ns' ws \<and>
    map transitions ns' = map transitions ns \<and>
    (\<forall>i < length ns. i \<in> snd ` set es \<or> settled R ws ns i \<longrightarrow> settled R ws ns' i)"
  using assms
proof (induction es arbitrary: ns q)
  case (Cons e es)
  obtain c v where e: "e = (c, v)" by force
  from Cons.prems(4) e have v: "map_of (transitions (ns ! u)) c = Some v" by (simp add: children_of_def)
  obtain n where n: "link_child ns u c v = Some (ns[v := n])" "v < length ns" "transitions n = transitions (ns ! v)"
      "marks_ok R n (ws ! v)" "links_ok R ws n (ws ! v)"
    using link_child_ok [OF Cons.prems(1-3) v] Cons.prems(5) by (auto simp: settled_def)
  let ?ns = "ns[v := n]"
  note tr = ac_tree_update [OF Cons.prems(1) n(2,3,4)]
  have keep: "settled R ws ?ns i" if "i < length ns" "i = v \<or> settled R ws ns i" for i
    using that n(2,5) by (auto simp: settled_def nth_list_update)
  have ch: "children_of ?ns u es"
    using children_of_cong [OF tr(2) Cons.prems(2)] Cons.prems(4) by (simp add: children_of_def)
  have st: "settled R ws ?ns i" if "i < length ?ns" "length (ws ! i) \<le> length (ws ! u)" for i
    using keep Cons.prems(5) that by simp
  have u: "u < length ?ns" using Cons.prems(2) by simp
  obtain ns' where ns': "link_children u es ?ns (q @ [v]) = Some (ns', (q @ [v]) @ map snd es)" "ac_tree R ns' ws"
      "map transitions ns' = map transitions ?ns"
      "\<forall>i < length ?ns. i \<in> snd ` set es \<or> settled R ws ?ns i \<longrightarrow> settled R ws ns' i"
    using Cons.IH [OF tr(1) u Cons.prems(3) ch st, of "q @ [v]"] by blast
  with e n(1) tr(2) keep show ?case by (intro exI [of _ ns']) auto
qed auto

lemma link_root_children_ok:
  assumes "ac_tree R ns ws" "children_of ns 0 es"
  shows "\<exists>ns'. link_root_children es ns q = Some (ns', q @ map snd es) \<and> ac_tree R ns' ws \<and>
    map transitions ns' = map transitions ns \<and>
    (\<forall>i < length ns. i \<in> snd ` set es \<or> settled R ws ns i \<longrightarrow> settled R ws ns' i)"
  using assms
proof (induction es arbitrary: ns q)
  case (Cons e es)
  obtain c v where e: "e = (c, v)" by force
  have w: "word_tree ns ws" and R: "R [] = None" using Cons.prems(1) by (auto simp: ac_tree_def)
  note d = word_treeD [OF w]
  have v: "v < length ns" "ws ! v = [c]"
    using Cons.prems(2) e d(2,3) d(8) [of 0 c v] by (auto simp: children_of_def)
  let ?n = "(ns ! v)\<lparr>fail_link := 0\<rparr>"
  have mk: "marks_ok R (ns ! v) (ws ! v)" using Cons.prems(1) v(1) by (simp add: ac_tree_def)
  then have mk': "marks_ok R ?n (ws ! v)" by (simp add: marks_ok_def)
  have ok: "links_ok R ws ?n (ws ! v)"
    using mk d(1,2,3) v(2) by (auto simp: links_ok_def marks_ok_def)
  let ?ns = "ns[v := ?n]"
  have "transitions ?n = transitions (ns ! v)" by simp
  note tr = ac_tree_update [OF Cons.prems(1) v(1) this mk']
  have keep: "settled R ws ?ns i" if "i < length ns" "i = v \<or> settled R ws ns i" for i
    using that v(1) ok by (auto simp: settled_def nth_list_update)
  have ch: "children_of ?ns 0 es"
    using children_of_cong [OF tr(2) d(2)] Cons.prems(2) by (simp add: children_of_def)
  obtain ns' where ns': "link_root_children es ?ns (q @ [v]) = Some (ns', (q @ [v]) @ map snd es)" "ac_tree R ns' ws"
      "map transitions ns' = map transitions ?ns"
      "\<forall>i < length ?ns. i \<in> snd ` set es \<or> settled R ws ?ns i \<longrightarrow> settled R ws ns' i"
    using Cons.IH [OF tr(1) ch, of "q @ [v]"] by blast
  with e v(1) tr(2) keep show ?case by (intro exI [of _ ns']) (auto simp: mem_simps)
qed auto

text \<open>The queue is sorted by depth and spans at most two levels, and every node not yet settled lies
  below a queued one.\<close>

definition bfs_inv :: "(string \<Rightarrow> u32 option) \<Rightarrow> string list \<Rightarrow> nat list \<Rightarrow> ac_node list \<Rightarrow> bool" where
  "bfs_inv R ws q ns \<longleftrightarrow> ac_tree R ns ws \<and> (\<forall>u \<in> set q. u < length ns \<and> ws ! u \<noteq> []) \<and>
     sorted (map (\<lambda>u. length (ws ! u)) q) \<and> (\<forall>u \<in> set q. length (ws ! u) \<le> Suc (length (ws ! hd q))) \<and>
     (\<forall>i < length ns. settled R ws ns i \<or> (\<exists>u \<in> set q. strict_prefix (ws ! u) (ws ! i)))"

lemma prefix_closedD:
  assumes "prefix_closed W" "prefix v w" "w \<in> W"
  shows "v \<in> W"
proof -
  obtain z where "w = v @ z" using assms(2) by (auto simp: prefix_def)
  with assms(3) show ?thesis
  proof (induction z arbitrary: w rule: rev_induct)
    case (snoc x z)
    then show ?case using assms(1) by (metis append_assoc prefix_closed_def)
  qed simp
qed

lemma word_tree_children:
  assumes t: "word_tree ns ws" and u: "u < length ns" and es: "set es = set (transitions (ns ! u))"
  shows "children_of ns u es"
    and "v \<in> snd ` set es \<longleftrightarrow> v < length ns \<and> (\<exists>c. ws ! v = ws ! u @ [c])"
    and "i < length ns \<Longrightarrow> strict_prefix (ws ! u) (ws ! i) \<Longrightarrow>
      i \<in> snd ` set es \<or> (\<exists>v \<in> snd ` set es. strict_prefix (ws ! v) (ws ! i))"
proof -
  note d = word_treeD [OF t]
  have m: "(c, v) \<in> set es \<longleftrightarrow> v < length ns \<and> ws ! v = ws ! u @ [c]" for c v
    using d(7,8) [OF u] es by (metis map_of_eq_Some_iff)
  show "children_of ns u es"
    unfolding children_of_def using m d(8) [OF u] by blast
  show "v \<in> snd ` set es \<longleftrightarrow> v < length ns \<and> (\<exists>c. ws ! v = ws ! u @ [c])"
    using m by force
  assume i: "i < length ns" "strict_prefix (ws ! u) (ws ! i)"
  then obtain c z where z: "ws ! i = ws ! u @ c # z"
    by (metis strict_prefixE')
  have "ws ! i \<in> set ws" using i(1) d(1) by simp
  then have "ws ! u @ [c] \<in> set ws"
    by (rule prefix_closedD [OF d(5), rotated]) (simp add: z)
  then obtain v where v: "v < length ns" "ws ! v = ws ! u @ [c]"
    using d(1) by (metis in_set_conv_nth)
  then have "v \<in> snd ` set es" using m by force
  moreover have "v = i \<or> strict_prefix (ws ! v) (ws ! i)"
    using v z i(1) d(1) nth_eq_iff_index_eq [OF d(4), of v i] by (cases z) (auto simp: strict_prefix_def)
  ultimately show "i \<in> snd ` set es \<or> (\<exists>v \<in> snd ` set es. strict_prefix (ws ! v) (ws ! i))"
    by blast
qed

lemma bfs_inv_pop:
  assumes inv: "bfs_inv R ws (u # q) ns" and es: "set es = set (transitions (ns ! u))"
  shows "\<exists>ns'. link_children u es ns q = Some (ns', q @ map snd es) \<and>
    length ns' = length ns \<and> bfs_inv R ws (q @ map snd es) ns' \<and> (\<forall>v \<in> set (map snd es). length (ws ! v) = Suc (length (ws ! u)))"
proof -
  have t: "ac_tree R ns ws" "word_tree ns ws" and u: "u < length ns" "ws ! u \<noteq> []"
    and q: "\<forall>v \<in> set q. v < length ns \<and> ws ! v \<noteq> []" "sorted (map (\<lambda>u. length (ws ! u)) q)"
      "\<forall>v \<in> set q. length (ws ! u) \<le> length (ws ! v) \<and> length (ws ! v) \<le> Suc (length (ws ! u))"
    and st: "\<And>i. i < length ns \<Longrightarrow> settled R ws ns i \<or> (\<exists>v \<in> set (u # q). strict_prefix (ws ! v) (ws ! i))"
    using inv unfolding bfs_inv_def ac_tree_def by auto
  note ch = word_tree_children [OF t(2) u(1) es]
  have "settled R ws ns i" if "i < length ns" "length (ws ! i) \<le> length (ws ! u)" for i
    using st [OF that(1)] that(2) q(3) prefix_length_less by fastforce
  then obtain ns' where ns': "link_children u es ns q = Some (ns', q @ map snd es)" "ac_tree R ns' ws"
      "map transitions ns' = map transitions ns"
      "\<forall>i < length ns. i \<in> snd ` set es \<or> settled R ws ns i \<longrightarrow> settled R ws ns' i"
    using link_children_ok [OF t(1) u ch(1), of q] by blast
  have len: "length ns' = length ns" using ns'(3) by (metis length_map)
  have k: "\<forall>v \<in> set (map snd es). v < length ns \<and> ws ! v \<noteq> [] \<and> length (ws ! v) = Suc (length (ws ! u))"
    by (simp only: set_map Ball_def ch(2)) auto
  have "\<forall>i < length ns. settled R ws ns' i \<or> (\<exists>v \<in> set (q @ map snd es). strict_prefix (ws ! v) (ws ! i))"
    using st ns'(4) ch(3) by (auto, blast)
  moreover have "map (\<lambda>v. length (ws ! v)) (map snd es) = replicate (length es) (Suc (length (ws ! u)))"
    using k by (intro replicate_eqI) auto
  then have "sorted (map (\<lambda>u. length (ws ! u)) (q @ map snd es))"
    unfolding map_append sorted_append using q(2,3) by auto
  moreover have "length (ws ! v) \<le> Suc (length (ws ! hd (q @ map snd es)))" if v: "v \<in> set (q @ map snd es)" for v
  proof -
    have lo: "length (ws ! u) \<le> length (ws ! v) \<and> length (ws ! v) \<le> Suc (length (ws ! u))"
      if "v \<in> set (q @ map snd es)" for v
    proof (cases "v \<in> set q")
      case True
      with q(3) show ?thesis by blast
    next
      case False
      with that k show ?thesis by auto
    qed
    have "hd (q @ map snd es) \<in> set (q @ map snd es)" using v by (intro hd_in_set) auto
    from lo [OF this] lo [OF v] show ?thesis by linarith
  qed
  ultimately have "bfs_inv R ws (q @ map snd es) ns'"
    using ns'(2) q(1) k by (auto simp: bfs_inv_def len)
  with ns'(1) len k show ?thesis by blast
qed

text \<open>Every pop replaces a node by deeper ones, and depth is bounded: the loop ends.\<close>

lemma bfs_loop_settles:
  assumes "bfs_inv R ws q ns" "\<And>es. mset (visit es) = mset es"
  shows "\<exists>ns'. bfs_loop visit q ns = Some ns' \<and> length ns' = length ns \<and> ac_tree R ns' ws \<and>
    (\<forall>i < length ns. settled R ws ns' i)"
proof -
  define depth where "depth v = Max (length ` set ws) - length (ws ! v)" for v
  show ?thesis
    using assms(1)
  proof (induction "mset (map depth q)" arbitrary: q ns rule: wf_induct_rule [OF wf_mult1 [OF wf_less_than]])
    case (1 q ns)
    show ?case
    proof (cases q)
      case Nil
      with 1(2) show ?thesis by (subst bfs_loop.simps) (auto simp: bfs_inv_def)
    next
      case (Cons u q')
      have u: "u < length ns" using 1(2) Cons by (simp add: bfs_inv_def)
      let ?es = "visit (transitions (ns ! u))"
      have "set ?es = set (transitions (ns ! u))" using assms(2) by (metis set_mset_mset)
      from bfs_inv_pop [OF 1(2) [unfolded Cons] this] obtain ns1 where ns1:
          "link_children u ?es ns q' = Some (ns1, q' @ map snd ?es)" "length ns1 = length ns"
          "bfs_inv R ws (q' @ map snd ?es) ns1"
          "\<forall>v \<in> set (map snd ?es). length (ws ! v) = Suc (length (ws ! u))"
        by blast
      have "depth v < depth u" if v: "v \<in> set (map snd ?es)" for v
      proof -
        have "v \<in> set (q' @ map snd ?es)" using v by simp
        then have "v < length ns1" "ac_tree R ns1 ws" using ns1(3) unfolding bfs_inv_def by blast+
        then have "v < length ws" using word_treeD(1) [of ns1 ws] by (simp add: ac_tree_def)
        then have "length (ws ! v) \<le> Max (length ` set ws)" by (intro Max_ge) auto
        moreover have "length (ws ! v) = Suc (length (ws ! u))" using ns1(4) v by blast
        ultimately show ?thesis by (simp add: depth_def)
      qed
      then have "(mset (map depth (q' @ map snd ?es)), mset (map depth q)) \<in> mult1 less_than"
        unfolding mult1_def Cons
        by (intro CollectI case_prodI exI [of _ "depth u"] exI [of _ "mset (map depth q')"]
              exI [of _ "mset (map depth (map snd ?es))"]) auto
      from 1(1) [OF this ns1(3)] ns1(1,2) u Cons show ?thesis
        by (subst bfs_loop.simps) (auto simp: mem_simps)
    qed
  qed
qed

lemma ac_build_inv:
  assumes "ac_inv R a" "\<And>es. mset (visit es) = mset es"
  shows "\<exists>a'. ac_build visit a = Some a' \<and> ac_inv R a' \<and> built a' \<and> node_count a' = node_count a"
proof -
  obtain ws where t: "ac_tree R (ac_nodes a) ws" using assms(1) by (auto simp: ac_inv_def)
  let ?ns = "ac_nodes a"
  have w: "word_tree ?ns ws" using t by (simp add: ac_tree_def)
  note d = word_treeD [OF w]
  let ?es = "visit (transitions (?ns ! 0))"
  have es: "set ?es = set (transitions (?ns ! 0))" using assms(2) by (metis set_mset_mset)
  note ch = word_tree_children [OF w d(2) es]
  obtain ns where ns: "link_root_children ?es ?ns [] = Some (ns, map snd ?es)" "ac_tree R ns ws"
      "map transitions ns = map transitions ?ns"
      "\<forall>i < length ?ns. i \<in> snd ` set ?es \<or> settled R ws ?ns i \<longrightarrow> settled R ws ns i"
    using link_root_children_ok [OF t ch(1), of "[]"] by auto
  have len: "length ns = length ?ns" using ns(3) by (metis length_map)
  have k: "\<forall>v \<in> set (map snd ?es). v < length ns \<and> length (ws ! v) = Suc 0"
    by (simp only: set_map Ball_def ch(2) len) (auto simp: d(3))
  have "settled R ws ns i \<or> (\<exists>v \<in> set (map snd ?es). strict_prefix (ws ! v) (ws ! i))" if i: "i < length ns" for i
  proof (cases "i = 0")
    case True
    with links_ok_root [OF ns(2)] show ?thesis by (simp add: settled_def)
  next
    case False
    then have "strict_prefix (ws ! 0) (ws ! i)"
      using i d(1,2,3) len nth_eq_iff_index_eq [OF d(4), of i 0] by (auto simp: strict_prefix_def)
    from ch(3) [OF _ this] i len ns(4) show ?thesis by auto
  qed
  moreover have "map (\<lambda>v. length (ws ! v)) (map snd ?es) = replicate (length ?es) (Suc 0)"
    using k by (intro replicate_eqI) auto
  ultimately have "bfs_inv R ws (map snd ?es) ns"
    using ns(2) k unfolding bfs_inv_def by (auto simp del: map_map)
  from bfs_loop_settles [OF this assms(2)] obtain ns' where
    "bfs_loop visit (map snd ?es) ns = Some ns'" "length ns' = length ns" "ac_tree R ns' ws"
    "\<forall>i < length ns. settled R ws ns' i"
    by blast
  with ns(1) len d(1,2) show ?thesis
    by (auto simp: ac_build_def mem_simps ac_inv_def settled_def node_count_def)
qed

section \<open>Searching\<close>

text \<open>The reference: at every position from the left, look at every suffix of the text read so far, the
  shortest first.\<close>

fun naive_scan :: "(string \<Rightarrow> u32 option) \<Rightarrow> string \<Rightarrow> string \<Rightarrow> u32 option" where
  "naive_scan R t [] = None"
| "naive_scan R t (c # cs) =
     (case shortest_rule R (t @ [c]) of Some r \<Rightarrow> Some r | None \<Rightarrow> naive_scan R (t @ [c]) cs)"

lemma naive_scan_None_iff:
  "naive_scan R t s = None \<longleftrightarrow> (\<forall>u. prefix u s \<and> u \<noteq> [] \<longrightarrow> shortest_rule R (t @ u) = None)"
proof (induction s arbitrary: t)
  case (Cons c cs)
  have "(\<forall>u. prefix u (c # cs) \<and> u \<noteq> [] \<longrightarrow> P u) \<longleftrightarrow> P [c] \<and> (\<forall>u. prefix u cs \<and> u \<noteq> [] \<longrightarrow> P (c # u))"
    for P :: "string \<Rightarrow> bool"
    by (auto simp: prefix_Cons)
  with Cons.IH [of "t @ [c]"] show ?case by (auto split: option.splits)
qed simp

lemma naive_scan_sublist: "naive_scan R [] s \<noteq> None \<longleftrightarrow> (\<exists>p \<in> dom R. p \<noteq> [] \<and> sublist p s)"
proof
  assume "naive_scan R [] s \<noteq> None"
  then show "\<exists>p \<in> dom R. p \<noteq> [] \<and> sublist p s"
    unfolding naive_scan_None_iff shortest_rule_None_iff
    by (auto simp: sublist_altdef)
next
  assume "\<exists>p \<in> dom R. p \<noteq> [] \<and> sublist p s"
  then obtain p u v where p: "R p \<noteq> None" "p \<noteq> []" "s = u @ p @ v" by (auto simp: sublist_def)
  then have "prefix (u @ p) s" "suffix p (u @ p)" "u @ p \<noteq> []" by (auto simp: suffix_def)
  with p(1,2) show "naive_scan R [] s \<noteq> None"
    unfolding naive_scan_None_iff shortest_rule_None_iff by (metis append_Nil)
qed

lemma ac_search_loop_naive:
  assumes t: "ac_tree R ns ws" and st: "\<forall>i < length ns. settled R ws ns i"
    and cur: "cur < length ns" "ws ! cur = longest_in (set ws) w"
  shows "ac_search_loop ns input cur = Some (naive_scan R w (map tolower input))"
  using cur
proof (induction input arbitrary: cur w)
  case (Cons c cs)
  have wt: "word_tree ns ws" and R: "dom R \<subseteq> set ws"
    using t dom_subset_words [of R] by (auto simp: ac_tree_def)
  note d = word_treeD [OF wt]
  let ?c = "tolower c"
  obtain k where k: "k < length ns" "fail_walk ns ?c cur = Some k" "goto ns k ?c < length ns"
      "ws ! goto ns k ?c = longest_in (set ws) (ws ! cur @ [?c])"
    using fail_walk_longest [OF wt Cons.prems(1), of R ?c] st by (auto simp: settled_def)
  let ?n = "goto ns k ?c"
  have n: "ws ! ?n = longest_in (set ws) (w @ [?c])"
    using k(4) longest_in_snoc_longest [OF d(6,5)] Cons.prems(2) by simp
  have m: "shortest_rule R (w @ [?c]) = (if is_match (ns ! ?n) then Some (ac_rule_id (ns ! ?n)) else None)"
    using st [rule_format, OF k(3)] shortest_rule_longest_in [OF R, of "w @ [?c]"]
    by (simp only: settled_def links_ok_def n)
  have "ac_search_loop ns (c # cs) cur =
      (if is_match (ns ! ?n) then Some (Some (ac_rule_id (ns ! ?n))) else ac_search_loop ns cs ?n)"
    using k(1,2,3) by (simp add: mem_simps goto_def Let_def)
  with m Cons.IH [OF k(3) n] show ?case by simp
qed simp

lemma ac_search_naive:
  assumes "ac_inv R a"
  shows "ac_search input a = Some (if built a then naive_scan R [] (map tolower input) else None)"
proof (cases "built a")
  case True
  with assms obtain ws where t: "ac_tree R (ac_nodes a) ws"
      "\<forall>i < length ws. links_ok R ws (ac_nodes a ! i) (ws ! i)"
    by (auto simp: ac_inv_def)
  then have w: "word_tree (ac_nodes a) ws" by (simp add: ac_tree_def)
  have "\<forall>i < length (ac_nodes a). settled R ws (ac_nodes a) i"
    using t(2) word_treeD(1) [OF w] by (simp add: settled_def)
  from ac_search_loop_naive [OF t(1) this word_treeD(2) [OF w], of "[]"] True show ?thesis
    by (simp add: ac_search_def word_treeD(3) [OF w])
qed (simp add: ac_search_def)

section \<open>Any sequence of insertions and builds\<close>

datatype ac_op = AddPattern string u32 | Build

fun run_ac :: "((char \<times> nat) list \<Rightarrow> (char \<times> nat) list) \<Rightarrow> ac_op list \<Rightarrow> aho_corasick \<Rightarrow> aho_corasick option" where
  "run_ac visit [] a = Some a"
| "run_ac visit (AddPattern p r # ops) a = do { a' \<leftarrow> ac_insert p r a; run_ac visit ops a' }"
| "run_ac visit (Build # ops) a = do { a' \<leftarrow> ac_build visit a; run_ac visit ops a' }"

text \<open>The rules inserted, the last insertion of a pattern winning, and whether the last effective
  operation was \<open>build\<close>.\<close>

fun rules_after :: "ac_op list \<Rightarrow> (string \<Rightarrow> u32 option) \<Rightarrow> string \<Rightarrow> u32 option" where
  "rules_after [] R = R"
| "rules_after (AddPattern p r # ops) R = rules_after ops (if p = [] then R else R(map tolower p \<mapsto> r))"
| "rules_after (Build # ops) R = rules_after ops R"

fun built_after :: "ac_op list \<Rightarrow> bool \<Rightarrow> bool" where
  "built_after [] b = b"
| "built_after (AddPattern p r # ops) b = built_after ops (if p = [] then b else False)"
| "built_after (Build # ops) b = built_after ops True"

lemma run_ac_inv:
  assumes "ac_inv R a" "\<And>es. mset (visit es) = mset es"
  shows "\<exists>a'. run_ac visit ops a = Some a' \<and> ac_inv (rules_after ops R) a' \<and> built a' = built_after ops (built a)"
  using assms(1)
proof (induction ops arbitrary: R a)
  case (Cons e ops)
  show ?case
  proof (cases e)
    case (AddPattern p r)
    show ?thesis
    proof (cases "p = []")
      case True
      with AddPattern Cons show ?thesis by (simp add: ac_insert_def)
    next
      case False
      from ac_insert_inv [OF Cons.prems False, of r] obtain a' where
        "ac_insert p r a = Some a'" "ac_inv (R(map tolower p \<mapsto> r)) a'" "\<not> built a'" by blast
      with AddPattern False Cons.IH [of "R(map tolower p \<mapsto> r)" a'] show ?thesis by (simp del: fun_upd_apply add: fun_upd_def)
    qed
  next
    case Build
    from ac_build_inv [OF Cons.prems assms(2)] obtain a' where
      "ac_build visit a = Some a'" "ac_inv R a'" "built a'" by blast
    with Build Cons.IH [of R a'] show ?thesis by simp
  qed
qed simp

lemma run_ac_search:
  assumes "\<And>es. mset (visit es) = mset es"
  shows "\<exists>a. run_ac visit ops new_automaton = Some a \<and> ac_inv (rules_after ops Map.empty) a \<and>
    built a = built_after ops False \<and>
    (\<forall>input. ac_search input a = Some (if built_after ops False
       then naive_scan (rules_after ops Map.empty) [] (map tolower input) else None))"
  using run_ac_inv [where visit = visit and ops = ops, OF new_automaton_inv assms] ac_search_naive
  by (auto simp: new_automaton_def)

lemma dom_rules_after:
  "dom (rules_after ops R) = dom R \<union> {map tolower p | p r. AddPattern p r \<in> set ops \<and> p \<noteq> []}"
  by (induction ops R rule: rules_after.induct) auto

text \<open>The words of the nodes are prefixes of the patterns, so the vector stays small.\<close>

lemma node_count_words: "ac_inv R a \<Longrightarrow> node_count a = card (words_of R)"
  by (metis ac_inv_def ac_tree_def distinct_card node_count_def word_treeD(1) word_treeD(4))

fun pattern_length :: "ac_op \<Rightarrow> nat" where
  "pattern_length (AddPattern p _) = length p"
| "pattern_length Build = 0"

lemma words_of_insert: "words_of (R(p \<mapsto> r)) = words_of R \<union> set (prefixes p)"
  by (auto simp: words_of_def)

lemma card_words_of_rules_after:
  "card (words_of (rules_after ops R)) \<le> card (words_of R) + sum_list (map pattern_length ops)"
proof (induction ops R rule: rules_after.induct)
  case (2 p r ops R)
  have "words_of (R(map tolower p \<mapsto> r)) = words_of R \<union> set (tl (prefixes (map tolower p)))"
  proof -
    have "set (prefixes q) = insert [] (set (tl (prefixes q)))" for q :: string by (cases q) auto
    then show ?thesis unfolding words_of_insert by (auto simp: words_of_def)
  qed
  moreover have "card (set (tl (prefixes (map tolower p)))) \<le> length p"
    using card_length [of "tl (prefixes (map tolower p))"] by simp
  ultimately have "card (words_of (R(map tolower p \<mapsto> r))) \<le> card (words_of R) + length p"
    using card_Un_le [of "words_of R" "set (tl (prefixes (map tolower p)))"] by simp
  with 2 show ?case by (cases "p = []") (simp_all del: fun_upd_apply add: fun_upd_def [symmetric])
qed simp_all

section \<open>Properties\<close>

text \<open>
  Property C25 (the automaton computes the naive search).  After any sequence of insertions and builds,
  visiting the transitions of a node in any order, no access leaves the vector, every loop ends, and if
  \<open>build\<close> came after the last insertion then \<open>search\<close> stops at the first position of the text where a
  pattern ends and reports the id of the shortest pattern ending there (the last id inserted with it);
  letter case does not count.  Without that \<open>build\<close> it finds nothing.
\<close>

theorem automaton_computes_naive_search:
  assumes "\<And>es. mset (visit es) = mset es"
  shows "\<exists>a. run_ac visit ops new_automaton = Some a \<and>
    ac_search input a = Some (if built_after ops False
      then naive_scan (rules_after ops Map.empty) [] (map tolower input) else None)"
  using run_ac_search [OF assms] by blast

theorem automaton_computes_naive_search_witness:
  "\<exists>a. run_ac rev [AddPattern ''evil.com'' 1, AddPattern ''com'' 2, Build] new_automaton = Some a \<and>
    ac_search ''bad-EVIL.com-site'' a = Some (Some 2)"
  using automaton_computes_naive_search [of rev "[AddPattern ''evil.com'' 1, AddPattern ''com'' 2, Build]" "''bad-EVIL.com-site''"]
  by (simp add: tolower_Char)

text \<open>
  Further fact (substrings).  Once built, the automaton finds a text exactly when some nonempty
  pattern inserted at any time is a substring of it, up to letter case.
\<close>

theorem automaton_finds_substrings:
  assumes "\<And>es. mset (visit es) = mset es"
  shows "\<exists>a r. run_ac visit (ops @ [Build]) new_automaton = Some a \<and> ac_search input a = Some r \<and>
    (r \<noteq> None \<longleftrightarrow> (\<exists>p i. AddPattern p i \<in> set ops \<and> p \<noteq> [] \<and> sublist (map tolower p) (map tolower input)))"
proof -
  obtain a where a: "run_ac visit (ops @ [Build]) new_automaton = Some a"
      "ac_search input a = Some (if built_after (ops @ [Build]) False
        then naive_scan (rules_after (ops @ [Build]) Map.empty) [] (map tolower input) else None)"
    using run_ac_search [where visit = visit and ops = "ops @ [Build]", OF assms] by blast
  have b: "built_after (ops @ [Build]) b" for b
    by (induction ops b rule: built_after.induct) auto
  have "naive_scan (rules_after (ops @ [Build]) Map.empty) [] (map tolower input) \<noteq> None \<longleftrightarrow>
      (\<exists>p i. AddPattern p i \<in> set ops \<and> p \<noteq> [] \<and> sublist (map tolower p) (map tolower input))"
    unfolding naive_scan_sublist dom_rules_after by auto
  with a b show ?thesis by simp
qed

theorem automaton_finds_substrings_witness:
  "\<exists>a r. run_ac rev ([AddPattern ''example.com'' 1] @ [Build]) new_automaton = Some a \<and>
    ac_search ''notexample.com'' a = Some r \<and> r \<noteq> None"
proof -
  have "mset (rev es) = mset es" for es :: "(char \<times> nat) list" by simp
  moreover have "sublist (map tolower ''example.com'') (map tolower ''notexample.com'')" by code_simp
  ultimately show ?thesis
    using automaton_finds_substrings [of rev "[AddPattern ''example.com'' 1]" "''notexample.com''"] by fastforce
qed

text \<open>
  Further fact (size).  The automaton has at most one node per character inserted, and the root.
\<close>

theorem automaton_size:
  assumes "\<And>es. mset (visit es) = mset es"
  shows "\<exists>a. run_ac visit ops new_automaton = Some a \<and> node_count a \<le> 1 + sum_list (map pattern_length ops)"
proof -
  obtain a where a: "run_ac visit ops new_automaton = Some a" "ac_inv (rules_after ops Map.empty) a"
    using run_ac_search [OF assms] by blast
  have "card (words_of Map.empty) = 1" by (simp add: words_of_def)
  with card_words_of_rules_after [of ops Map.empty] node_count_words [OF a(2)] a(1) show ?thesis by auto
qed

theorem automaton_size_witness:
  "\<exists>a. run_ac rev [AddPattern ''ab'' 1, Build, AddPattern ''ac'' 2] new_automaton = Some a \<and> node_count a \<le> 5"
  using automaton_size [of rev "[AddPattern ''ab'' 1, Build, AddPattern ''ac'' 2]"]
  by (simp del: run_ac.simps add: eval_nat_numeral)

end
