(* ===== verification/Matcher_Comparison.thy ===== *)
theory Matcher_Comparison
  imports Parser Suffix_Trie Pattern_Automaton
begin

text \<open>
  The suffix trie and the Aho-Corasick automaton built from the same rules, the comparison that
  \<open>docs/decisions/ADR-003-suffix-trie-vs-ahocorasick.md\<close> rests on: the automaton finds every name
  the trie matches, and blocks names across label boundaries that the trie does not.
\<close>

section \<open>Names and substrings\<close>

text \<open>A domain without stray dots: the labels joined again are the domain.\<close>

definition dotted :: "string \<Rightarrow> bool" where
  "dotted d \<longleftrightarrow> join_dots (labels_of d) = map tolower d"

lemma join_dots_Cons: "ls \<noteq> [] \<Longrightarrow> join_dots (l # ls) = l @ ''.'' @ join_dots ls"
  by (cases ls) auto

lemma join_dots_suffix: "suffix ls ls' \<Longrightarrow> ls \<noteq> [] \<Longrightarrow> suffix (join_dots ls) (join_dots ls')"
proof (induction ls')
  case (Cons l ls')
  then consider "ls = l # ls'" | "suffix ls ls'" by (auto simp: suffix_Cons)
  then show ?case
  proof cases
    case 2
    with Cons.prems(2) have "ls' \<noteq> []" by auto
    with Cons.IH [OF 2 Cons.prems(2)] show ?thesis
      by (simp add: join_dots_Cons suffix_append suffix_Cons)
  qed simp
qed simp

lemma naive_scan_rule: "naive_scan R t s = Some r \<Longrightarrow> \<exists>p. R p = Some r"
proof -
  have short: "shortest_rule R w = Some r \<Longrightarrow> \<exists>p. R p = Some r" for w
    by (induction w) (auto split: option.splits)
  show "naive_scan R t s = Some r \<Longrightarrow> \<exists>p. R p = Some r"
    by (induction s arbitrary: t) (auto split: option.splits dest: short)
qed

definition add_all :: "(string \<times> u32) list \<Rightarrow> ac_op list" where
  "add_all rs = map (\<lambda>(d, i). AddPattern d i) rs @ [Build]"

lemma built_after_add_all: "built_after (add_all rs) b"
  by (induction rs arbitrary: b) (auto simp: add_all_def)

lemma dom_add_all: "dom (rules_after (add_all rs) Map.empty) = {map tolower d | d i. (d, i) \<in> set rs \<and> d \<noteq> []}"
  unfolding dom_rules_after by (force simp: add_all_def)

lemma add_all_search:
  assumes "\<And>es. mset (visit es) = mset es"
  shows "\<exists>a. run_ac visit (add_all rs) new_automaton = Some a \<and>
    (\<forall>q. ac_search q a = Some (naive_scan (rules_after (add_all rs) Map.empty) [] (map tolower q)))"
  using run_ac_search [where visit = visit and ops = "add_all rs", OF assms] built_after_add_all by auto

section \<open>Properties\<close>

text \<open>
  Property C27 (the automaton misses nothing the trie matches).  For rules and a query without stray
  dots, such as names from the wire, a name that the suffix trie matches is also found by the automaton
  built from the same rules.
\<close>

theorem automaton_covers_trie:
  assumes "\<And>es. mset (visit es) = mset es"
    and "\<forall>(d, i) \<in> set rs. dotted d" "dotted q" "fst (trie_matches (build_trie rs) q)"
  shows "\<exists>a i. run_ac visit (add_all rs) new_automaton = Some a \<and> ac_search q a = Some (Some i)"
proof -
  obtain d i where d: "(d, i) \<in> set rs" "labels_of d \<noteq> []" "suffix (labels_of d) (labels_of q)"
    using assms(4) by (auto simp: matches_build_iff)
  then have "d \<noteq> []" by auto
  have "dotted d" using assms(2) d(1) by blast
  then have "sublist (map tolower d) (map tolower q)"
    using join_dots_suffix [OF d(3,2)] assms(3) by (simp add: dotted_def)
  moreover have "map tolower d \<in> dom (rules_after (add_all rs) Map.empty)"
    using d(1) \<open>d \<noteq> []\<close> unfolding dom_add_all by blast
  ultimately have "naive_scan (rules_after (add_all rs) Map.empty) [] (map tolower q) \<noteq> None"
    unfolding naive_scan_sublist using \<open>d \<noteq> []\<close> by blast
  with add_all_search [of visit rs, OF assms(1)] show ?thesis by fastforce
qed

theorem automaton_covers_trie_witness:
  "\<exists>a i. run_ac rev (add_all [(''example.com'', 7)]) new_automaton = Some a \<and>
     ac_search ''www.example.com'' a = Some (Some i)"
proof (rule automaton_covers_trie)
  show "mset (rev es) = mset es" for es :: "(char \<times> nat) list" by simp
  have "labels_of ''example.com'' = [''example'', ''com'']" "labels_of ''www.example.com'' = [''www'', ''example'', ''com'']"
    by code_simp+
  then show "\<forall>(d, i) \<in> set [(''example.com'', 7 :: u32)]. dotted d" "dotted ''www.example.com''"
    "fst (trie_matches (build_trie [(''example.com'', 7)]) ''www.example.com'')"
    by (simp_all add: dotted_def tolower_Char matches_build_iff suffix_Cons)
qed

text \<open>
  Further fact (boundary flaw of the automaton).  A rule makes the automaton report every name that
  continues its first label to the left, and every name that continues it to the right; the suffix
  trie with the same rule matches none of the former.
\<close>

theorem automaton_crosses_label_boundaries:
  assumes "\<And>es. mset (visit es) = mset es"
    and "d \<noteq> []" "hd d \<noteq> CHR ''.''" "CHR ''.'' \<notin> set x" "x \<noteq> []"
  shows "\<exists>a. run_ac visit (add_all [(d, i)]) new_automaton = Some a \<and>
    ac_search (x @ d) a = Some (Some i) \<and> ac_search (d @ y) a = Some (Some i) \<and>
    \<not> fst (trie_matches (build_trie [(d, i)]) (x @ d))"
proof -
  obtain l l' ls where "labels_of d = l # ls" "labels_of (x @ d) = l' # ls" "l \<noteq> l'"
    using labels_of_extended_label assms(2-5) by blast
  then have "\<not> suffix (labels_of d) (labels_of (x @ d))"
    by (auto simp: suffix_Cons dest: suffix_length_le)
  then have t: "\<not> fst (trie_matches (build_trie [(d, i)]) (x @ d))" by (simp add: matches_build_iff)
  have R: "rules_after (add_all [(d, i)]) Map.empty = [map tolower d \<mapsto> i]"
    using assms(2) by (simp add: add_all_def)
  have "naive_scan [map tolower d \<mapsto> i] [] (map tolower (u @ d @ v)) = Some i" for u v
  proof -
    have "sublist (map tolower d) (map tolower (u @ d @ v))" by simp
    then have "naive_scan [map tolower d \<mapsto> i] [] (map tolower (u @ d @ v)) \<noteq> None"
      unfolding naive_scan_sublist using assms(2) by auto
    then obtain r where r: "naive_scan [map tolower d \<mapsto> i] [] (map tolower (u @ d @ v)) = Some r" by blast
    from naive_scan_rule [OF r] have "r = i" by (auto split: if_splits)
    with r show ?thesis by simp
  qed
  from this [of x "[]"] this [of "[]" y] add_all_search [of visit "[(d, i)]", OF assms(1)] t R show ?thesis
    by auto
qed

theorem automaton_crosses_label_boundaries_witness:
  "\<exists>a. run_ac rev (add_all [(''example.com'', 7)]) new_automaton = Some a \<and>
    ac_search ''fakeexample.com'' a = Some (Some 7) \<and>
    ac_search ''example.com.attacker.org'' a = Some (Some 7) \<and>
    \<not> fst (trie_matches (build_trie [(''example.com'', 7)]) ''fakeexample.com'')"
  using automaton_crosses_label_boundaries [of rev "''example.com''" "''fake''" 7 "''.attacker.org''"] by simp

end
