(* ===== verification/Control_Shutdown.thy ===== *)
theory Control_Shutdown
  imports Control_Server
begin

text \<open>
  Two threads at \<open>IpcServer::stop\<close> (\<open>dataplane/src/runtime/ipc_server.cpp\<close>): the main thread runs \<open>stop\<close>
  while the worker is anywhere in \<open>listen_loop\<close>.  Every access to \<open>running_\<close> and \<open>server_fd_\<close> and every
  call is one step; the steps of the two interleave in any order, and the state keeps the calls in the
  order in which they happen, with the passes of the loop the worker has finished.  What the operating
  system contributes is in three rules: an \<open>accept\<close> may fail at any time; it can only return a
  connection, under a descriptor that is not open, while the listening socket is open and not shut down;
  and the one \<open>read\<close> on the connection, which has no time-out, returns only if the client ever sends a byte or
  closes.  A connection carries that bit, and a \<open>read\<close> from a silent client has no step.
  That a blocked \<open>accept\<close> does fail once the socket is shut down is documented of the kernel and is what
  \<open>accept_fails\<close> being enabled stands for.

  The lemmas show that \<open>stop\<close> ends unless a silent client holds the worker, that such a client does hold it
  forever, and that the interleaved threads do together what the sequential definitions \<open>ipc_stop\<close> and
  \<open>listen_loop\<close> of theory \<open>Control_Server\<close> do one after the other.
\<close>

section \<open>The two threads\<close>

text \<open>Where \<open>stop\<close> is: before it, after the exchange, after \<open>shutdown\<close>, after \<open>close\<close>, after the store to
  \<open>server_fd_\<close>, after \<open>join\<close> and at the end.\<close>

datatype stop_pc = NotStopping | Exchanged | Shut | ClosedFd | Stored | JoinedWorker | Finished

text \<open>Where the worker is: at the head of the loop, about to read \<open>server_fd_\<close>, in \<open>accept\<close> on the
  descriptor it read, in \<open>read\<close> on a connection (whose client ever sends or closes, or not), about to close it, about to look at \<open>running_\<close> after a failure, or
  gone.\<close>

datatype worker_pc =
    Head | Checked | Accepting int | Serving int (live: bool) | Answered int string | Failed | Exited

record shutdown_state =
  sh_running :: bool
  sh_server_fd :: int
  sh_stop :: stop_pc
  sh_worker :: worker_pc
  sh_manager :: snapshot_manager
  sh_calls :: "sys_call list"
  sh_passes :: "pass list"

definition shut_down_socket :: "shutdown_state \<Rightarrow> bool" where
  "shut_down_socket w \<longleftrightarrow> sh_stop w \<noteq> NotStopping \<and> sh_stop w \<noteq> Exchanged"

definition socket_closed :: "shutdown_state \<Rightarrow> bool" where
  "socket_closed w \<longleftrightarrow> shut_down_socket w \<and> sh_stop w \<noteq> Shut"

definition written :: "int \<Rightarrow> string option \<Rightarrow> sys_call list" where
  "written c resp = (case resp of Some r \<Rightarrow> [Wrote c r] | None \<Rightarrow> [])"

text \<open>The first seven rules are \<open>stop\<close>, the others the worker's loop; \<open>srv\<close> is the server as \<open>start\<close> left it.\<close>

inductive shutdown_step :: "ipc_server \<Rightarrow> shutdown_state \<Rightarrow> shutdown_state \<Rightarrow> bool" for srv :: ipc_server where
  exchange: "sh_stop w = NotStopping \<Longrightarrow> sh_running w
    \<Longrightarrow> shutdown_step srv w (w\<lparr>sh_running := False, sh_stop := Exchanged\<rparr>)"
| shut: "sh_stop w = Exchanged \<Longrightarrow> 0 \<le> sh_server_fd w
    \<Longrightarrow> shutdown_step srv w (w\<lparr>sh_stop := Shut, sh_calls := sh_calls w @ [ShutDown (sh_server_fd w)]\<rparr>)"
| close: "sh_stop w = Shut
    \<Longrightarrow> shutdown_step srv w (w\<lparr>sh_stop := ClosedFd, sh_calls := sh_calls w @ [Closed (sh_server_fd w)]\<rparr>)"
| store: "sh_stop w = ClosedFd \<Longrightarrow> shutdown_step srv w (w\<lparr>sh_server_fd := -1, sh_stop := Stored\<rparr>)"
| no_socket: "sh_stop w = Exchanged \<Longrightarrow> sh_server_fd w < 0 \<Longrightarrow> shutdown_step srv w (w\<lparr>sh_stop := Stored\<rparr>)"
| join: "sh_stop w = Stored \<Longrightarrow> worker_joinable srv \<Longrightarrow> sh_worker w = Exited
    \<Longrightarrow> shutdown_step srv w (w\<lparr>sh_stop := JoinedWorker, sh_calls := sh_calls w @ [Joined]\<rparr>)"
| no_worker: "sh_stop w = Stored \<Longrightarrow> \<not> worker_joinable srv
    \<Longrightarrow> shutdown_step srv w (w\<lparr>sh_stop := JoinedWorker\<rparr>)"
| unlink: "sh_stop w = JoinedWorker \<Longrightarrow> shutdown_step srv w
    (w\<lparr>sh_stop := Finished, sh_calls := sh_calls w @ [Unlinked (c_str (socket_path srv))]\<rparr>)"
| head: "sh_worker w = Head \<Longrightarrow> sh_running w \<Longrightarrow> shutdown_step srv w (w\<lparr>sh_worker := Checked\<rparr>)"
| leave: "sh_worker w = Head \<Longrightarrow> \<not> sh_running w
    \<Longrightarrow> shutdown_step srv w (w\<lparr>sh_worker := Exited, sh_passes := sh_passes w @ [Stopped]\<rparr>)"
| read_fd: "sh_worker w = Checked \<Longrightarrow> shutdown_step srv w (w\<lparr>sh_worker := Accepting (sh_server_fd w)\<rparr>)"
| accept: "sh_worker w = Accepting (server_fd srv) \<Longrightarrow> \<not> shut_down_socket w
    \<Longrightarrow> descriptors {server_fd srv} (sh_calls w) = Some D \<Longrightarrow> c \<notin> D
    \<Longrightarrow> shutdown_step srv w (w\<lparr>sh_worker := Serving c client_live, sh_calls := sh_calls w @ [Opened c]\<rparr>)"
| accept_fails: "sh_worker w = Accepting f \<Longrightarrow> shutdown_step srv w (w\<lparr>sh_worker := Failed\<rparr>)"
| serve: "sh_worker w = Serving c True \<Longrightarrow> serve_connection data (sh_manager w) = (resp, m)
    \<Longrightarrow> shutdown_step srv w (w\<lparr>sh_worker := Answered c data, sh_manager := m,
      sh_calls := sh_calls w @ written c resp\<rparr>)"
| hang_up: "sh_worker w = Answered c data \<Longrightarrow> shutdown_step srv w
    (w\<lparr>sh_worker := Head, sh_calls := sh_calls w @ [Closed c], sh_passes := sh_passes w @ [Connection c data]\<rparr>)"
| recheck: "sh_worker w = Failed \<Longrightarrow> shutdown_step srv w
    (w\<lparr>sh_worker := (if sh_running w then Head else Exited), sh_passes := sh_passes w @ [AcceptFailed (sh_running w)]\<rparr>)"

definition running_server :: "ipc_server \<Rightarrow> snapshot_manager \<Rightarrow> shutdown_state" where
  "running_server srv m =
     \<lparr>sh_running = running srv, sh_server_fd = server_fd srv, sh_stop = NotStopping, sh_worker = Head,
      sh_manager = m, sh_calls = [], sh_passes = []\<rparr>"

inductive shutdown_reachable :: "ipc_server \<Rightarrow> snapshot_manager \<Rightarrow> shutdown_state \<Rightarrow> bool"
  for srv :: ipc_server and m :: snapshot_manager where
  start: "shutdown_reachable srv m (running_server srv m)"
| step: "shutdown_reachable srv m w \<Longrightarrow> shutdown_step srv w w' \<Longrightarrow> shutdown_reachable srv m w'"

inductive_cases shutdown_stepE: "shutdown_step srv w w'"

text \<open>The server that \<open>start\<close> leaves when it succeeds.\<close>

definition started :: "ipc_server \<Rightarrow> bool" where
  "started srv \<longleftrightarrow> server_inv srv \<and> running srv"

section \<open>Invariant and measure\<close>

text \<open>\<open>running_\<close> is set exactly until \<open>stop\<close> begins, \<open>server_fd_\<close> holds the descriptor until it is
  overwritten, the worker only leaves once \<open>stop\<close> has begun, and it is gone when it has been joined.\<close>

definition shutdown_inv :: "ipc_server \<Rightarrow> shutdown_state \<Rightarrow> bool" where
  "shutdown_inv srv w \<longleftrightarrow>
     (sh_running w \<longleftrightarrow> sh_stop w = NotStopping) \<and>
     (sh_server_fd w = (if sh_stop w \<in> {NotStopping, Exchanged, Shut, ClosedFd} then server_fd srv else -1)) \<and>
     (sh_worker w = Exited \<longrightarrow> \<not> sh_running w) \<and>
     (sh_stop w \<in> {JoinedWorker, Finished} \<longrightarrow> sh_worker w = Exited)"

lemma started_iff: "started srv \<longleftrightarrow> running srv \<and> 0 \<le> server_fd srv \<and> worker_joinable srv"
  by (auto simp: started_def server_inv_def)

lemma started_joinable: "started srv \<Longrightarrow> worker_joinable srv" "started srv \<Longrightarrow> \<not> server_fd srv < 0"
  by (simp_all add: started_iff)

lemma shutdown_inv_step:
  assumes "started srv"
  shows "shutdown_step srv w w' \<Longrightarrow> shutdown_inv srv w \<Longrightarrow> shutdown_inv srv w'"
  using assms by (elim shutdown_stepE) (auto simp: shutdown_inv_def started_iff)

lemma shutdown_inv_start: "started srv \<Longrightarrow> shutdown_inv srv (running_server srv m)"
  by (simp add: running_server_def shutdown_inv_def started_def)

lemma shutdown_inv_reachable: "shutdown_reachable srv m w \<Longrightarrow> started srv \<Longrightarrow> shutdown_inv srv w"
  by (induction rule: shutdown_reachable.induct) (simp_all add: shutdown_inv_start shutdown_inv_step)

fun stop_left :: "stop_pc \<Rightarrow> nat" where
  "stop_left NotStopping = 6"
| "stop_left Exchanged = 5"
| "stop_left Shut = 4"
| "stop_left ClosedFd = 3"
| "stop_left Stored = 2"
| "stop_left JoinedWorker = 1"
| "stop_left Finished = 0"

fun worker_left :: "worker_pc \<Rightarrow> nat" where
  "worker_left Checked = 5"
| "worker_left (Accepting f) = 4"
| "worker_left (Serving c l) = 3"
| "worker_left (Answered c data) = 2"
| "worker_left Head = 1"
| "worker_left Failed = 1"
| "worker_left Exited = 0"

definition steps_left :: "shutdown_state \<Rightarrow> nat" where
  "steps_left w = stop_left (sh_stop w) + worker_left (sh_worker w)"

lemma step_decreases:
  "shutdown_step srv w w' \<Longrightarrow> \<not> sh_running w \<Longrightarrow> steps_left w' < steps_left w \<and> \<not> sh_running w'"
  by (erule shutdown_stepE) (auto simp: steps_left_def)

lemma step_enabled:
  assumes "started srv" "shutdown_inv srv w" "\<not> sh_running w" "sh_stop w \<noteq> Finished \<or> sh_worker w \<noteq> Exited"
    and "\<not> (sh_stop w = Stored \<and> (\<exists>c. sh_worker w = Serving c False))"
  shows "\<exists>w'. shutdown_step srv w w'"
proof (cases "sh_worker w")
  case Exited
  with assms show ?thesis
    by (cases "sh_stop w") (fastforce simp: shutdown_inv_def started_iff intro: shutdown_step.intros)+
next
  case (Serving c l)
  show ?thesis
  proof (cases l)
    case True
    then show ?thesis using Serving serve [of w c "[]"] by (metis surj_pair)
  next
    case False
    with assms Serving show ?thesis
      by (cases "sh_stop w") (fastforce simp: shutdown_inv_def started_iff intro: shutdown_step.intros)+
  qed
qed (use assms(3) in \<open>auto intro: shutdown_step.intros\<close>)

section \<open>What the threads have done\<close>

text \<open>The calls of the thread that runs \<open>stop\<close>, and how many of them it has made.\<close>

definition stop_call :: "ipc_server \<Rightarrow> sys_call \<Rightarrow> bool" where
  "stop_call srv c = (case c of ShutDown _ \<Rightarrow> True | Joined \<Rightarrow> True | Unlinked _ \<Rightarrow> True
     | Closed fd \<Rightarrow> fd = server_fd srv | _ \<Rightarrow> False)"

fun calls_made :: "stop_pc \<Rightarrow> nat" where
  "calls_made NotStopping = 0"
| "calls_made Exchanged = 0"
| "calls_made Shut = 1"
| "calls_made ClosedFd = 2"
| "calls_made Stored = 2"
| "calls_made JoinedWorker = 3"
| "calls_made Finished = 4"

text \<open>The connection the worker has open, with the calls it has made for it and what it has read.\<close>

fun connection :: "worker_pc \<Rightarrow> int option" where
  "connection (Serving c l) = Some c"
| "connection (Answered c data) = Some c"
| "connection _ = None"

text \<open>The loop on passes after which it goes on.\<close>

fun goes_on :: "pass \<Rightarrow> bool" where
  "goes_on Stopped = False"
| "goes_on (AcceptFailed r) = r"
| "goes_on (Connection c data) = True"

lemma listen_loop_append:
  "\<forall>p \<in> set ps. goes_on p \<Longrightarrow> listen_loop (ps @ qs) m =
     (fst (listen_loop ps m) @ fst (listen_loop qs (snd (listen_loop ps m))), snd (listen_loop qs (snd (listen_loop ps m))))"
  by (induction ps m rule: listen_loop.induct) (auto simp: Let_def split: prod.splits)

text \<open>
  The worker's calls are those of \<open>listen_loop\<close> on the passes it has finished, and those of the connection
  it serves; \<open>stop\<close> has made the first calls of \<open>ipc_stop\<close>; and the descriptors that are open are the
  listening socket until \<open>stop\<close> closes it and that connection.
\<close>

fun worker_progress :: "snapshot_manager \<Rightarrow> worker_pc \<Rightarrow> sys_call list \<Rightarrow> snapshot_manager \<Rightarrow> bool" where
  "worker_progress m0 (Serving c l) cs m \<longleftrightarrow> cs = [Opened c] \<and> m = m0"
| "worker_progress m0 (Answered c data) cs m \<longleftrightarrow>
     cs = Opened c # written c (fst (serve_connection data m0)) \<and> m = snd (serve_connection data m0)"
| "worker_progress m0 _ cs m \<longleftrightarrow> cs = [] \<and> m = m0"

definition history_inv :: "ipc_server \<Rightarrow> snapshot_manager \<Rightarrow> shutdown_state \<Rightarrow> bool" where
  "history_inv srv m w \<longleftrightarrow>
     filter (stop_call srv) (sh_calls w) = take (calls_made (sh_stop w)) (fst (ipc_stop srv)) \<and>
     (\<exists>cs. filter (\<lambda>c. \<not> stop_call srv c) (sh_calls w) = fst (listen_loop (sh_passes w) m) @ cs \<and>
        worker_progress (snd (listen_loop (sh_passes w) m)) (sh_worker w) cs (sh_manager w)) \<and>
     (sh_worker w \<noteq> Exited \<longrightarrow> (\<forall>p \<in> set (sh_passes w). goes_on p)) \<and>
     descriptors {server_fd srv} (sh_calls w) =
       Some ((if socket_closed w then {} else {server_fd srv}) \<union> set_option (connection (sh_worker w))) \<and>
     server_fd srv \<notin> set_option (connection (sh_worker w))"

lemma ipc_stop_calls:
  "started srv \<Longrightarrow> fst (ipc_stop srv) =
     [ShutDown (server_fd srv), Closed (server_fd srv), Joined, Unlinked (c_str (socket_path srv))]"
  by (simp add: started_iff ipc_stop_def)

lemma stop_call_simps [simp]:
  "stop_call srv (ShutDown fd)" "stop_call srv Joined" "stop_call srv (Unlinked p)"
  "\<not> stop_call srv (Opened fd)" "\<not> stop_call srv (Wrote fd r)"
  "stop_call srv (Closed fd) \<longleftrightarrow> fd = server_fd srv"
  by (simp_all add: stop_call_def)

lemma written_simps [simp]:
  "filter (stop_call srv) (written c r) = []" "filter (\<lambda>c. \<not> stop_call srv c) (written c r) = written c r"
  "descriptors D (written c r) = Some D"
  by (simp_all add: written_def split: option.split)

lemma listen_loop_one:
  "listen_loop [Connection c data] m =
     (Opened c # written c (fst (serve_connection data m)) @ [Closed c], snd (serve_connection data m))"
  by (simp add: written_def case_prod_beta Let_def split: option.split)

lemmas socket_defs = socket_closed_def shut_down_socket_def

lemma history_inv_start: "started srv \<Longrightarrow> history_inv srv m (running_server srv m)"
  by (simp add: history_inv_def running_server_def socket_defs)

lemma history_inv_step:
  assumes "started srv" "shutdown_inv srv w" "shutdown_step srv w w'" "history_inv srv m w"
  shows "history_inv srv m w'"
  using assms(3)
proof (cases rule: shutdown_step.cases)
  case (accept D c)
  then show ?thesis using assms(4) by (simp add: history_inv_def socket_defs descriptors_append) auto
next
  case (hang_up c data)
  then show ?thesis using assms(4)
    by (simp add: history_inv_def socket_defs descriptors_append listen_loop_append listen_loop_one del: listen_loop.simps)
qed (use assms in \<open>simp_all add: history_inv_def socket_defs shutdown_inv_def ipc_stop_calls started_joinable
    descriptors_append listen_loop_append\<close>)

lemma history_inv_reachable:
  assumes "shutdown_reachable srv m w" "started srv"
  shows "history_inv srv m w"
  using assms
proof (induction rule: shutdown_reachable.induct)
  case (step w w')
  then show ?case using history_inv_step shutdown_inv_reachable by blast
qed (simp add: history_inv_start)

section \<open>Properties\<close>

text \<open>
  Property C35 (\<open>stop\<close> waits for nothing but a silent client).  Once \<open>stop\<close> has begun, in whatever state the
  worker is and however the two threads interleave, at most ten more steps happen.  When no further step
  is possible, either \<open>stop\<close> has finished and the worker has left its loop, or the worker is in \<open>read\<close> on a
  connection whose client never sends or closes and \<open>stop\<close> is at the \<open>join\<close>; and while the worker is in such
  a \<open>read\<close>, \<open>stop\<close> has not finished.
\<close>

theorem stop_waits_only_for_silent_client:
  assumes "started srv" "shutdown_reachable srv m (w 0)" "\<not> sh_running (w 0)"
    and "\<forall>i < n. shutdown_step srv (w i) (w (Suc i))"
  shows "n \<le> 10 \<and>
    ((\<nexists>w'. shutdown_step srv (w n) w') \<longrightarrow>
      (if \<exists>c. sh_worker (w n) = Serving c False then sh_stop (w n) = Stored
       else sh_stop (w n) = Finished \<and> sh_worker (w n) = Exited)) \<and>
    ((\<exists>c. sh_worker (w n) = Serving c False) \<longrightarrow> sh_stop (w n) \<noteq> Finished)"
proof -
  have run: "steps_left (w i) + i \<le> steps_left (w 0) \<and> \<not> sh_running (w i) \<and> shutdown_inv srv (w i)" if "i \<le> n" for i
    using that
  proof (induction i)
    case (Suc i)
    then have "shutdown_step srv (w i) (w (Suc i))" using assms(4) by simp
    with Suc show ?case using step_decreases shutdown_inv_step [OF assms(1)] by fastforce
  qed (use assms(1-3) shutdown_inv_reachable in simp)
  have "stop_left (sh_stop (w 0)) \<le> 5"
    using run [of 0] by (cases "sh_stop (w 0)") (auto simp: shutdown_inv_def)
  moreover have "worker_left (sh_worker (w 0)) \<le> 5" by (cases "sh_worker (w 0)") auto
  ultimately have "n \<le> 10" using run [of n] by (simp add: steps_left_def)
  moreover have "sh_stop (w n) \<noteq> Finished" if "sh_worker (w n) = Serving c False" for c
    using run [of n] that by (auto simp: shutdown_inv_def)
  ultimately show ?thesis using run [of n] step_enabled [OF assms(1), of "w n"] by auto
qed

text \<open>A server under way, and a run in which \<open>stop\<close> closes the socket between the worker's two reads.\<close>

definition sample_server :: ipc_server where
  "sample_server = \<lparr>socket_path = ''/s'', server_fd = 5, running = True, worker_joinable = True\<rparr>"

lemma sample_server_started: "started sample_server"
  by (simp add: started_iff sample_server_def)

definition race_state :: "int \<Rightarrow> stop_pc \<Rightarrow> worker_pc \<Rightarrow> sys_call list \<Rightarrow> pass list \<Rightarrow> shutdown_state" where
  "race_state fd s p cs ps = \<lparr>sh_running = False, sh_server_fd = fd, sh_stop = s, sh_worker = p,
     sh_manager = init_manager, sh_calls = cs, sh_passes = ps\<rparr>"

definition race_states :: "shutdown_state list" where
  "race_states =
     [race_state 5 Exchanged Checked [] [],
      race_state 5 Shut Checked [ShutDown 5] [],
      race_state 5 ClosedFd Checked [ShutDown 5, Closed 5] [],
      race_state 5 ClosedFd (Accepting 5) [ShutDown 5, Closed 5] [],
      race_state 5 ClosedFd Failed [ShutDown 5, Closed 5] [],
      race_state (-1) Stored Failed [ShutDown 5, Closed 5] [],
      race_state (-1) Stored Exited [ShutDown 5, Closed 5] [AcceptFailed False],
      race_state (-1) JoinedWorker Exited [ShutDown 5, Closed 5, Joined] [AcceptFailed False],
      race_state (-1) Finished Exited [ShutDown 5, Closed 5, Joined, Unlinked ''/s''] [AcceptFailed False]]"

lemma race_steps: "\<forall>i < 8. shutdown_step sample_server (race_states ! i) (race_states ! Suc i)"
proof -
  note defs = race_states_def race_state_def sample_server_def c_str_def
  have "shutdown_step sample_server (race_states ! 0) (race_states ! 1)" using shut [of "race_states ! 0"] by (simp add: defs)
  moreover have "shutdown_step sample_server (race_states ! 1) (race_states ! 2)" using close [of "race_states ! 1"] by (simp add: defs)
  moreover have "shutdown_step sample_server (race_states ! 2) (race_states ! 3)" using read_fd [of "race_states ! 2"] by (simp add: defs)
  moreover have "shutdown_step sample_server (race_states ! 3) (race_states ! 4)" using accept_fails [of "race_states ! 3" 5] by (simp add: defs)
  moreover have "shutdown_step sample_server (race_states ! 4) (race_states ! 5)" using store [of "race_states ! 4"] by (simp add: defs)
  moreover have "shutdown_step sample_server (race_states ! 5) (race_states ! 6)" using recheck [of "race_states ! 5"] by (simp add: defs)
  moreover have "shutdown_step sample_server (race_states ! 6) (race_states ! 7)" using join [of "race_states ! 6"] by (simp add: defs)
  moreover have "shutdown_step sample_server (race_states ! 7) (race_states ! 8)"
    using unlink [of "race_states ! 7" sample_server] by (simp add: defs)
  ultimately show ?thesis by (simp add: eval_nat_numeral All_less_Suc)
qed

lemma race_start: "shutdown_reachable sample_server init_manager (race_states ! 0)"
proof -
  let ?w = "running_server sample_server init_manager"
  note defs = running_server_def sample_server_def race_states_def race_state_def
  have "shutdown_reachable sample_server init_manager (?w\<lparr>sh_worker := Checked\<rparr>)"
    by (rule step [OF start head]) (simp_all add: defs)
  from step [OF this exchange] show ?thesis by (simp add: defs)
qed

lemma race_reachable: "i \<le> 8 \<Longrightarrow> shutdown_reachable sample_server init_manager (race_states ! i)"
proof (induction i)
  case (Suc i)
  then show ?case using race_steps by (auto intro: step)
qed (rule race_start)

theorem stop_waits_only_for_silent_client_witness:
  "shutdown_reachable sample_server init_manager (race_states ! 0) \<and>
   (\<nexists>w'. shutdown_step sample_server (race_states ! 8) w') \<and>
   sh_stop (race_states ! 8) = Finished \<and> sh_worker (race_states ! 8) = Exited"
proof -
  have "\<not> sh_running (race_states ! 0)" by (simp add: race_states_def race_state_def)
  moreover have "\<nexists>w'. shutdown_step sample_server (race_states ! 8) w'"
    by (auto simp: race_states_def race_state_def elim: shutdown_stepE)
  ultimately show ?thesis
    using stop_waits_only_for_silent_client [where w = "(!) race_states", OF sample_server_started race_start _ race_steps]
      race_start by (simp add: race_states_def race_state_def)
qed

text \<open>The states of a \<open>stop\<close> while a silent client has the worker.\<close>

definition held_state :: "stop_pc \<Rightarrow> int \<Rightarrow> sys_call list \<Rightarrow> shutdown_state" where
  "held_state s fd cs = (race_state fd s (Serving 7 False) (Opened 7 # cs) [])\<lparr>sh_running := s = NotStopping\<rparr>"

text \<open>
  Further fact (a silent client holds \<open>stop\<close> forever).  A client that connects and neither sends nor closes
  keeps the worker in \<open>read\<close>, which neither \<open>shutdown\<close> nor \<open>close\<close> of the listening socket ends: \<open>stop\<close> can reach
  the \<open>join\<close> and no thread can go on.
\<close>

theorem silent_client_holds_stop:
  "\<exists>w. shutdown_reachable sample_server init_manager w \<and> sh_stop w = Stored \<and> (\<nexists>w'. shutdown_step sample_server w w')"
proof -
  let ?w = "running_server sample_server init_manager"
  note defs = running_server_def sample_server_def held_state_def race_state_def
  let ?reachable = "shutdown_reachable sample_server init_manager"
  have 1: "?reachable (?w\<lparr>sh_worker := Checked\<rparr>)" by (rule step [OF start head]) (simp_all add: defs)
  have 2: "?reachable (?w\<lparr>sh_worker := Accepting 5\<rparr>)" using step [OF 1 read_fd] by (simp add: defs)
  have 3: "?reachable (held_state NotStopping 5 [])"
    using step [OF 2 accept [where c = 7 and client_live = False]] by (simp add: defs socket_defs)
  have 4: "?reachable (held_state Exchanged 5 [])" using step [OF 3 exchange] by (simp add: defs)
  have 5: "?reachable (held_state Shut 5 [ShutDown 5])" using step [OF 4 shut] by (simp add: defs)
  have 6: "?reachable (held_state ClosedFd 5 [ShutDown 5, Closed 5])" using step [OF 5 close] by (simp add: defs)
  have 7: "?reachable (held_state Stored (-1) [ShutDown 5, Closed 5])" using step [OF 6 store] by (simp add: defs)
  moreover have "\<nexists>w'. shutdown_step sample_server (held_state Stored (-1) [ShutDown 5, Closed 5]) w'"
    by (auto simp: defs elim: shutdown_stepE)
  ultimately show ?thesis by (auto simp: defs)
qed

text \<open>
  Property C36 (the threads do what the sequential model does).  Whatever the interleaving, no descriptor is
  ever closed that is not open.  When \<open>stop\<close> has finished, its own calls are those of \<open>ipc_stop\<close> in order, the
  worker's are those of \<open>listen_loop\<close> on the passes it made, the manager is the one this loop leaves, and
  every descriptor that was opened is closed.
\<close>

theorem interleaved_stop_is_sequential:
  assumes "started srv" "shutdown_reachable srv m w"
  shows "descriptors {server_fd srv} (sh_calls w) \<noteq> None \<and>
    (sh_stop w = Finished \<longrightarrow>
       filter (stop_call srv) (sh_calls w) = fst (ipc_stop srv) \<and>
       filter (\<lambda>c. \<not> stop_call srv c) (sh_calls w) = fst (listen_loop (sh_passes w) m) \<and>
       sh_manager w = snd (listen_loop (sh_passes w) m) \<and>
       sh_running w = running (snd (ipc_stop srv)) \<and> sh_server_fd w = server_fd (snd (ipc_stop srv)) \<and>
       descriptors {server_fd srv} (sh_calls w) = Some {})"
proof -
  have h: "history_inv srv m w" "shutdown_inv srv w"
    using history_inv_reachable shutdown_inv_reachable assms by blast+
  moreover have "running (snd (ipc_stop srv)) = False" "server_fd (snd (ipc_stop srv)) = -1"
    using assms(1) by (simp_all add: ipc_stop_def started_iff)
  ultimately show ?thesis
    using ipc_stop_calls [OF assms(1)] by (auto simp: history_inv_def shutdown_inv_def socket_defs)
qed

theorem interleaved_stop_is_sequential_witness:
  "sh_calls (race_states ! 8) = fst (ipc_stop sample_server) \<and> descriptors {5} (sh_calls (race_states ! 8)) = Some {}"
  using interleaved_stop_is_sequential [OF sample_server_started race_reachable [of 8]]
  by (simp add: race_states_def race_state_def sample_server_def ipc_stop_def c_str_def)

text \<open>
  Further fact (a race on the descriptor).  The worker can read \<open>server_fd_\<close> and call \<open>accept\<close> on it
  after \<open>stop\<close> has closed it: the number may by then name another file of the process.  (The read
  is also unordered with the store to the plain \<open>int\<close> member.)
\<close>

theorem accept_on_closed_descriptor:
  "\<exists>w w'. shutdown_reachable sample_server init_manager w \<and> socket_closed w \<and> sh_worker w = Checked \<and>
     shutdown_step sample_server w w' \<and> sh_worker w' = Accepting (server_fd sample_server) \<and> socket_closed w'"
proof -
  have "shutdown_step sample_server (race_states ! 2) (race_states ! 3)" using race_steps by (simp add: eval_nat_numeral All_less_Suc)
  with race_reachable [of 2] show ?thesis
    by (intro exI [of _ "race_states ! 2"] exI [of _ "race_states ! 3"])
      (simp add: race_states_def race_state_def socket_defs sample_server_def)
qed

end
