(* ===== verification/Concurrent_Dataplane.thy ===== *)
theory Concurrent_Dataplane
  imports Dataplane
begin

text \<open>
  The two threads of the program together: the loop of \<open>main.cpp\<close>, which reads the policy, and the worker of
  \<open>runtime/ipc_server.cpp\<close>, which replaces it.  The threads share only the members of \<open>SnapshotManager\<close>, so
  a step is one atomic access to one of them, with the code of the thread up to the next access; the steps
  interleave in any order.  Theory \<open>Dataplane\<close> has the same handlers with each update atomic.
\<close>

section \<open>Threads\<close>

text \<open>
  Where the main thread is: before the seed policy, between the accesses of its \<open>apply_candidate\<close>, in
  \<open>poll\<close>, before the load of the snapshot, before the load of the generation, before \<open>sendto\<close>.  \<open>PFailed\<close>
  is undefined behaviour, or an endless loop, of a handler.
\<close>

datatype packet_pc =
    PStarting
  | PSeed u64
  | PSeedStored
  | PWaiting
  | PReceived bytes sockaddr_in
  | PLoaded bytes sockaddr_in policy_snapshot
  | PReady "effect list"
  | PFailed

text \<open>
  Where the worker is, with the bytes it read: in \<open>accept\<close>, at the start of \<open>handle_command\<close>, between the
  two loads of \<open>GET_STATUS\<close>; in \<open>apply_candidate\<close> after the load of the generation, after the store of the
  snapshot, after the store of the generation or after a refusal; and before \<open>write\<close>.
\<close>

datatype control_pc =
    KAccepting
  | KRequested string
  | KStatus string policy_snapshot
  | KChecking string u64
  | KSwapped string
  | KPublished string
  | KRefused string string
  | KReplying string string

record concurrent =
  cs_dp :: dataplane
  cs_packet :: packet_pc
  cs_worker :: control_pc

abbreviation manager :: "concurrent \<Rightarrow> snapshot_manager" where
  "manager s \<equiv> dp_manager (cs_dp s)"

definition candidate :: "string \<Rightarrow> policy_snapshot" where
  "candidate data = build_candidate (ipc_request data)"

definition command_of :: "string \<Rightarrow> string" where
  "command_of data = extract_json_string (ipc_request data) ''command''"

text \<open>What an observer sees of a step.\<close>

datatype observed =
    Internal
  | Receive bytes sockaddr_in
  | Decide policy_snapshot u64 "effect list"
  | Upstream bytes sockaddr_in
  | Send "effect list"
  | Request string
  | Reply string string

text \<open>
  The answers of the operating system and of the random generator are new in every step; the generator
  is \<open>recurring\<close>, as in theory \<open>Forwarder\<close>.
\<close>

inductive packet_step :: "bool \<Rightarrow> concurrent \<Rightarrow> observed \<Rightarrow> concurrent \<Rightarrow> bool" for quiet :: bool where
  load_seed: "cs_packet s = PStarting
    \<Longrightarrow> packet_step quiet s Internal (s\<lparr>cs_packet := PSeed (global_generation (manager s))\<rparr>)"
| refuse_seed: "cs_packet s = PSeed g \<Longrightarrow> \<not> acceptable g seed_policy
    \<Longrightarrow> packet_step quiet s Internal (s\<lparr>cs_packet := PWaiting\<rparr>)"
| store_seed: "cs_packet s = PSeed g \<Longrightarrow> acceptable g seed_policy
    \<Longrightarrow> packet_step quiet s Internal
      (s\<lparr>cs_packet := PSeedStored, cs_dp := (cs_dp s)\<lparr>dp_manager := (manager s)\<lparr>active_snapshot := seed_policy\<rparr>\<rparr>\<rparr>)"
| publish_seed: "cs_packet s = PSeedStored
    \<Longrightarrow> packet_step quiet s Internal
      (s\<lparr>cs_packet := PWaiting,
         cs_dp := (cs_dp s)\<lparr>dp_manager := (manager s)\<lparr>global_generation := generation seed_policy\<rparr>\<rparr>\<rparr>)"
| receive_client: "cs_packet s = PWaiting \<Longrightarrow> receive d \<noteq> []
    \<Longrightarrow> packet_step quiet s (Receive (receive d) a) (s\<lparr>cs_packet := PReceived (receive d) a\<rparr>)"
| drop_malformed: "cs_packet s = PReceived buf a \<Longrightarrow> parse buf = Some (Err x)
    \<Longrightarrow> packet_step quiet s Internal (s\<lparr>cs_packet := PWaiting\<rparr>)"
| parse_fails: "cs_packet s = PReceived buf a \<Longrightarrow> parse buf = None
    \<Longrightarrow> packet_step quiet s Internal (s\<lparr>cs_packet := PFailed\<rparr>)"
| load_snapshot: "cs_packet s = PReceived buf a \<Longrightarrow> parse buf = Some (Ok q)
    \<Longrightarrow> packet_step quiet s Internal (s\<lparr>cs_packet := PLoaded buf a (active_snapshot (manager s))\<rparr>)"
| decide: "cs_packet s = PLoaded buf a snap \<Longrightarrow> recurring draws
    \<Longrightarrow> handle_client draws quiet e snap (global_generation (manager s)) buf a (cs_dp s) = Some (out, d)
    \<Longrightarrow> packet_step quiet s (Decide snap (global_generation (manager s)) out) (s\<lparr>cs_packet := PReady out, cs_dp := d\<rparr>)"
| decide_fails: "cs_packet s = PLoaded buf a snap \<Longrightarrow> recurring draws
    \<Longrightarrow> handle_client draws quiet e snap (global_generation (manager s)) buf a (cs_dp s) = None
    \<Longrightarrow> packet_step quiet s Internal (s\<lparr>cs_packet := PFailed\<rparr>)"
| receive_upstream: "cs_packet s = PWaiting \<Longrightarrow> receive b \<noteq> []
    \<Longrightarrow> handle_upstream e (global_generation (manager s)) (receive b) a (cs_dp s) = Some (out, d)
    \<Longrightarrow> packet_step quiet s (Upstream (receive b) a) (s\<lparr>cs_packet := PReady out, cs_dp := d\<rparr>)"
| upstream_fails: "cs_packet s = PWaiting \<Longrightarrow> receive b \<noteq> []
    \<Longrightarrow> handle_upstream e (global_generation (manager s)) (receive b) a (cs_dp s) = None
    \<Longrightarrow> packet_step quiet s (Upstream (receive b) a) (s\<lparr>cs_packet := PFailed\<rparr>)"
| send_out: "cs_packet s = PReady out \<Longrightarrow> packet_step quiet s (Send out) (s\<lparr>cs_packet := PWaiting\<rparr>)"

inductive worker_step :: "concurrent \<Rightarrow> observed \<Rightarrow> concurrent \<Rightarrow> bool" where
  read_request: "cs_worker s = KAccepting \<Longrightarrow> take 8191 data \<noteq> []
    \<Longrightarrow> worker_step s (Request data) (s\<lparr>cs_worker := KRequested data\<rparr>)"
| unknown_command: "cs_worker s = KRequested data \<Longrightarrow> command_of data \<notin> {''GET_STATUS'', ''APPLY_POLICY''}
    \<Longrightarrow> worker_step s Internal (s\<lparr>cs_worker := KReplying data unknown_text\<rparr>)"
| status_snapshot: "cs_worker s = KRequested data \<Longrightarrow> command_of data = ''GET_STATUS''
    \<Longrightarrow> worker_step s Internal (s\<lparr>cs_worker := KStatus data (active_snapshot (manager s))\<rparr>)"
| status_generation: "cs_worker s = KStatus data snap
    \<Longrightarrow> worker_step s Internal
      (s\<lparr>cs_worker := KReplying data
         (status_text \<lparr>active_snapshot = snap, global_generation = global_generation (manager s)\<rparr>)\<rparr>)"
| load_generation: "cs_worker s = KRequested data \<Longrightarrow> command_of data = ''APPLY_POLICY''
    \<Longrightarrow> worker_step s Internal (s\<lparr>cs_worker := KChecking data (global_generation (manager s))\<rparr>)"
| refuse: "cs_worker s = KChecking data g \<Longrightarrow> \<not> acceptable g (candidate data)
    \<Longrightarrow> worker_step s Internal
      (s\<lparr>cs_worker := KRefused data
         (if generation (candidate data) \<le> g then ''Candidate generation must be > active generation''
          else ''Candidate missing cryptographic version hash'')\<rparr>)"
| store_snapshot: "cs_worker s = KChecking data g \<Longrightarrow> acceptable g (candidate data)
    \<Longrightarrow> worker_step s Internal
      (s\<lparr>cs_worker := KSwapped data,
         cs_dp := (cs_dp s)\<lparr>dp_manager := (manager s)\<lparr>active_snapshot := candidate data\<rparr>\<rparr>\<rparr>)"
| store_generation: "cs_worker s = KSwapped data
    \<Longrightarrow> worker_step s Internal
      (s\<lparr>cs_worker := KPublished data,
         cs_dp := (cs_dp s)\<lparr>dp_manager := (manager s)\<lparr>global_generation := generation (candidate data)\<rparr>\<rparr>\<rparr>)"
| accepted_reply: "cs_worker s = KPublished data
    \<Longrightarrow> worker_step s Internal
      (s\<lparr>cs_worker := KReplying data (accepted_text (manager s) (version_hash (candidate data)))\<rparr>)"
| rejected_reply: "cs_worker s = KRefused data err
    \<Longrightarrow> worker_step s Internal (s\<lparr>cs_worker := KReplying data (rejected_text (manager s) err)\<rparr>)"
| write_reply: "cs_worker s = KReplying data resp
    \<Longrightarrow> worker_step s (Reply data resp) (s\<lparr>cs_worker := KAccepting\<rparr>)"

definition conc_step :: "bool \<Rightarrow> concurrent \<Rightarrow> observed \<Rightarrow> concurrent \<Rightarrow> bool" where
  "conc_step quiet s x s' \<longleftrightarrow> packet_step quiet s x s' \<or> worker_step s x s'"

inductive conc_run :: "bool \<Rightarrow> concurrent \<Rightarrow> observed list \<Rightarrow> concurrent \<Rightarrow> bool" for quiet :: bool where
  run_Nil: "conc_run quiet s [] s"
| run_snoc: "conc_run quiet s xs s' \<Longrightarrow> conc_step quiet s' x s'' \<Longrightarrow> conc_run quiet s (xs @ [x]) s''"

text \<open>The two threads start after \<open>ipc_server.start\<close>, which comes before the seed policy.\<close>

definition start_state :: "forwarder \<Rightarrow> concurrent" where
  "start_state f =
     \<lparr>cs_dp = \<lparr>dp_manager = init_manager, dp_cache = new_cache 10000, dp_forwarder = f\<rparr>,
      cs_packet = PStarting, cs_worker = KAccepting\<rparr>"

text \<open>The thread of each observable step, and its effect.\<close>

inductive_simps packet_labels [simp]:
  "packet_step quiet s (Request data) s'" "packet_step quiet s (Reply data resp) s'"
inductive_simps worker_labels [simp]:
  "worker_step s (Receive buf a) s'" "worker_step s (Decide snap g out) s'"
  "worker_step s (Upstream buf a) s'" "worker_step s (Send out) s'"

inductive_simps reply_step: "worker_step s (Reply data resp) s'"
inductive_simps receive_step: "packet_step quiet s (Receive buf a) s'"
inductive_simps decide_step: "packet_step quiet s (Decide snap g out) s'"
inductive_simps send_step: "packet_step quiet s (Send out) s'"

lemmas observed_steps = conc_step_def reply_step receive_step decide_step send_step

section \<open>Runs\<close>

inductive_cases run_NilE: "conc_run quiet s [] s'"
inductive_cases run_snocE: "conc_run quiet s (xs @ [x]) s'"

lemma run_nothing [simp]: "conc_run quiet s [] s' \<longleftrightarrow> s' = s"
  by (auto intro: run_Nil elim: run_NilE)

lemma run_snoc_iff: "conc_run quiet s (xs @ [x]) s'' \<longleftrightarrow> (\<exists>s'. conc_run quiet s xs s' \<and> conc_step quiet s' x s'')"
  by (blast intro: run_snoc elim: run_snocE)

lemma conc_run_append:
  "conc_run quiet s (xs @ ys) s'' \<longleftrightarrow> (\<exists>s'. conc_run quiet s xs s' \<and> conc_run quiet s' ys s'')"
proof (induction ys arbitrary: s'' rule: rev_induct)
  case (snoc y ys)
  then show ?case by (simp add: run_snoc_iff append_assoc [symmetric] del: append_assoc) blast
qed simp

lemma run_single: "conc_run quiet s [x] s' \<longleftrightarrow> conc_step quiet s x s'"
  using run_snoc_iff [of quiet s "[]" x s'] by simp

lemma run_Cons: "conc_run quiet s (x # xs) s'' \<longleftrightarrow> (\<exists>s'. conc_step quiet s x s' \<and> conc_run quiet s' xs s'')"
  using conc_run_append [of quiet s "[x]" xs s''] by (simp add: run_single)

section \<open>The invariant\<close>

text \<open>
  The worker against the sequential \<open>handle_command\<close>: \<open>m\<close> is the manager after the requests that have been
  answered.
\<close>

definition worker_ok :: "snapshot_manager \<Rightarrow> concurrent \<Rightarrow> bool" where
  "worker_ok m s \<longleftrightarrow>
     (case cs_worker s of
        KAccepting \<Rightarrow> manager s = m
      | KRequested data \<Rightarrow> manager s = m
      | KStatus data snap \<Rightarrow> manager s = m \<and> snap = active_snapshot m \<and> command_of data = ''GET_STATUS''
      | KChecking data g \<Rightarrow> manager s = m \<and> g = global_generation m \<and> command_of data = ''APPLY_POLICY''
      | KSwapped data \<Rightarrow> command_of data = ''APPLY_POLICY'' \<and> acceptable (global_generation m) (candidate data) \<and>
          manager s = m\<lparr>active_snapshot := candidate data\<rparr>
      | KPublished data \<Rightarrow> command_of data = ''APPLY_POLICY'' \<and> acceptable (global_generation m) (candidate data) \<and>
          manager s = m\<lparr>active_snapshot := candidate data, global_generation := generation (candidate data)\<rparr>
      | KRefused data err \<Rightarrow> command_of data = ''APPLY_POLICY'' \<and> manager s = m \<and>
          \<not> acceptable (global_generation m) (candidate data) \<and>
          err = (if generation (candidate data) \<le> global_generation m
                 then ''Candidate generation must be > active generation''
                 else ''Candidate missing cryptographic version hash'')
      | KReplying data resp \<Rightarrow> handle_command (ipc_request data) m = (resp, manager s))"

text \<open>The main thread; \<open>C\<close> and \<open>U\<close> are the datagrams received from clients and upstream.\<close>

definition packet_ok :: "received \<Rightarrow> received \<Rightarrow> sockaddr_in \<Rightarrow> concurrent \<Rightarrow> bool" where
  "packet_ok C U up s \<longleftrightarrow>
     (case cs_packet s of
        PSeed g \<Rightarrow> 1 \<le> g
      | PSeedStored \<Rightarrow> False
      | PReceived buf a \<Rightarrow> (buf, a) \<in> C
      | PLoaded buf a snap \<Rightarrow> (buf, a) \<in> C \<and> (\<exists>q. parse buf = Some (Ok q))
      | PReady out \<Rightarrow> \<forall>x \<in> set out. justified C U up x
      | PFailed \<Rightarrow> False
      | _ \<Rightarrow> True)"

definition conc_inv :: "received \<Rightarrow> received \<Rightarrow> sockaddr_in \<Rightarrow> snapshot_manager \<Rightarrow> concurrent \<Rightarrow> bool" where
  "conc_inv C U up m s \<longleftrightarrow>
     manager_inv m \<and> worker_ok m s \<and> packet_inv C U up (cs_dp s) \<and> packet_ok C U up s"

fun seen_clients :: "observed \<Rightarrow> received" where
  "seen_clients (Receive buf a) = {(buf, a)}"
| "seen_clients _ = {}"

fun seen_upstream :: "observed \<Rightarrow> received" where
  "seen_upstream (Upstream buf a) = {(buf, a)}"
| "seen_upstream _ = {}"

fun answered :: "observed \<Rightarrow> snapshot_manager \<Rightarrow> snapshot_manager" where
  "answered (Reply data resp) m = snd (handle_command (ipc_request data) m)"
| "answered _ m = m"

lemma handle_command_commands:
  "command_of data \<notin> {''GET_STATUS'', ''APPLY_POLICY''} \<Longrightarrow> handle_command (ipc_request data) m = (unknown_text, m)"
  "command_of data = ''GET_STATUS'' \<Longrightarrow> handle_command (ipc_request data) m = (status_text m, m)"
  "command_of data = ''APPLY_POLICY'' \<Longrightarrow> acceptable (global_generation m) (candidate data) \<Longrightarrow>
     handle_command (ipc_request data) m =
       (accepted_text (m\<lparr>active_snapshot := candidate data, global_generation := generation (candidate data)\<rparr>)
          (version_hash (candidate data)),
        m\<lparr>active_snapshot := candidate data, global_generation := generation (candidate data)\<rparr>)"
  "command_of data = ''APPLY_POLICY'' \<Longrightarrow> \<not> acceptable (global_generation m) (candidate data) \<Longrightarrow>
     handle_command (ipc_request data) m =
       (rejected_text m (if generation (candidate data) \<le> global_generation m
                         then ''Candidate generation must be > active generation''
                         else ''Candidate missing cryptographic version hash''), m)"
  by (simp_all add: handle_command_def command_of_def candidate_def apply_candidate_Some Let_def)

lemma worker_okD:
  assumes "worker_ok m s" "manager_inv m"
  shows "1 \<le> global_generation (manager s)" "version_hash (active_snapshot (manager s)) \<noteq> []"
    "global_generation m \<le> global_generation (manager s)"
    "global_generation (manager s) \<le> generation (active_snapshot (manager s))"
proof -
  have reply: "manager_inv (manager s)" "global_generation m \<le> global_generation (manager s)"
    if "cs_worker s = KReplying data resp" for data resp
  proof -
    have "handle_command (ipc_request data) m = (resp, manager s)" using assms(1) that by (simp add: worker_ok_def)
    then show "manager_inv (manager s)" "global_generation m \<le> global_generation (manager s)"
      using handle_command_inv [OF assms(2), of "ipc_request data"] handle_command_manager [of "ipc_request data" m]
        apply_candidate_generation_mono [of m]
      by (auto split: if_splits)
  qed
  then show "1 \<le> global_generation (manager s)" "version_hash (active_snapshot (manager s)) \<noteq> []"
    "global_generation m \<le> global_generation (manager s)"
    "global_generation (manager s) \<le> generation (active_snapshot (manager s))"
    using assms unfolding worker_ok_def
    by (cases "cs_worker s"; force simp: manager_inv_def acceptable_def)+
qed

lemma worker_ok_cong:
  assumes "manager s' = manager s" "cs_worker s' = cs_worker s"
  shows "worker_ok m s' = worker_ok m s"
  unfolding worker_ok_def assms ..

lemma worker_step_ok:
  assumes "worker_step s x s'" "worker_ok m s"
  shows "worker_ok (answered x m) s'"
  using assms
  by (induction rule: worker_step.induct) (auto simp: worker_ok_def handle_command_commands status_text_def)

lemma worker_step_packet_inv:
  assumes "worker_step s x s'" "worker_ok m s" "packet_inv C U up (cs_dp s)"
  shows "packet_inv C U up (cs_dp s')"
  using assms
proof (induction rule: worker_step.induct)
  case (store_generation s data)
  then have "global_generation (manager s) \<le> generation (candidate data)"
    by (simp add: worker_ok_def acceptable_def less_imp_le)
  then have "entry_ok U up (global_generation (manager s)) y v \<Longrightarrow>
      entry_ok U up (generation (candidate data)) y v" for y v
    by (auto simp: entry_ok_def intro: order_trans)
  with store_generation show ?case by (simp add: packet_inv_def)
qed (simp_all add: packet_inv_def)

lemma worker_step_packet: "worker_step s x s' \<Longrightarrow> cs_packet s' = cs_packet s"
  by (induction rule: worker_step.induct) simp_all

lemma worker_step_conc_inv:
  assumes "worker_step s x s'" "conc_inv C U up m s"
  shows "conc_inv C U up (answered x m) s'"
proof -
  have "manager_inv (answered x m)" using assms(2) handle_command_inv by (cases x) (auto simp: conc_inv_def)
  moreover have "worker_ok (answered x m) s'" "packet_inv C U up (cs_dp s')"
    using assms worker_step_ok worker_step_packet_inv by (auto simp: conc_inv_def)
  ultimately show ?thesis
    using assms(2) worker_step_packet [OF assms(1)] by (simp add: conc_inv_def packet_ok_def)
qed

lemma seed_not_acceptable: "1 \<le> g \<Longrightarrow> \<not> acceptable g seed_policy"
  by (auto simp: acceptable_def seed_policy_def)

text \<open>The main thread only reads the manager.\<close>

lemma packet_step_conc_inv:
  assumes "packet_step quiet s x s'" "conc_inv C U up m s" "seen_clients x \<subseteq> C" "seen_upstream x \<subseteq> U"
  shows "conc_inv C U up m s' \<and> manager s' = manager s \<and> cs_worker s' = cs_worker s"
proof -
  have inv: "packet_inv C U up (cs_dp s)" "worker_ok m s" "manager_inv m" "packet_ok C U up s"
    using assms(2) by (simp_all add: conc_inv_def)
  note pok = inv(4) [unfolded packet_ok_def]
  have keep: "packet_inv C U up (cs_dp s') \<and> packet_ok C U up s' \<and> manager s' = manager s \<and> cs_worker s' = cs_worker s"
    using assms(1)
  proof (cases rule: packet_step.cases)
    case load_seed
    then show ?thesis using inv worker_okD(1) [OF inv(2,3)] by (simp add: packet_ok_def)
  next
    case (store_seed g)
    then show ?thesis using pok seed_not_acceptable by simp
  next
    case (decide buf a snap draws e out d)
    have "(buf, a) \<in> C" using pok decide by simp
    from handle_client_step [OF inv(1) this decide(4), of quiet e snap "global_generation (manager s)"] decide
    show ?thesis by (auto simp: packet_ok_def)
  next
    case (decide_fails buf a snap draws e)
    have "(buf, a) \<in> C" using pok decide_fails by simp
    from handle_client_step [OF inv(1) this decide_fails(4), of quiet e snap "global_generation (manager s)"] decide_fails
    show ?thesis by auto
  next
    case (receive_upstream b e a out d)
    then have "(receive b, a) \<in> U" using assms(4) by simp
    from handle_upstream_step [OF inv(1) this refl, of e] receive_upstream
    show ?thesis by (auto simp: packet_ok_def)
  next
    case (upstream_fails b e a)
    then have "(receive b, a) \<in> U" using assms(4) by simp
    from handle_upstream_step [OF inv(1) this refl, of e] upstream_fails show ?thesis by auto
  next
    case (parse_fails buf a)
    then show ?thesis using parse_not_None by blast
  qed (use inv assms(3) pok in \<open>auto simp: packet_ok_def\<close>)
  then have "worker_ok m s'" using worker_ok_cong inv(2) by blast
  with keep inv(3) show ?thesis unfolding conc_inv_def by blast
qed

lemma step_conc_inv:
  assumes "conc_step quiet s x s'" "conc_inv C U up m s" "seen_clients x \<subseteq> C" "seen_upstream x \<subseteq> U"
  shows "conc_inv C U up (answered x m) s'"
proof -
  have "answered x m = m" if "packet_step quiet s x s'" using that by (cases rule: packet_step.cases) auto
  with assms worker_step_conc_inv packet_step_conc_inv show ?thesis unfolding conc_step_def by metis
qed

text \<open>What the answered requests of a trace made of the manager.\<close>

definition answered_all :: "observed list \<Rightarrow> snapshot_manager \<Rightarrow> snapshot_manager" where
  "answered_all xs m = fold answered xs m"

lemma answered_all_simps [simp]:
  "answered_all [] m = m"
  "answered_all (xs @ [x]) m = answered x (answered_all xs m)"
  by (simp_all add: answered_all_def)

definition clients_of :: "observed list \<Rightarrow> received" where
  "clients_of xs = \<Union> (seen_clients ` set xs)"

definition upstream_of :: "observed list \<Rightarrow> received" where
  "upstream_of xs = \<Union> (seen_upstream ` set xs)"

lemma run_conc_inv:
  assumes "conc_run quiet s xs s'" "conc_inv C U up m s" "clients_of xs \<subseteq> C" "upstream_of xs \<subseteq> U"
  shows "conc_inv C U up (answered_all xs m) s'"
  using assms
  by (induction rule: conc_run.induct) (auto simp: clients_of_def upstream_of_def dest: step_conc_inv)

lemma start_conc_inv:
  assumes "pending_tx f = []"
  shows "conc_inv C U (upstream_addr f) init_manager (start_state f)"
  using startup_inv [OF assms, of C U] startup_manager [of f] manager_inv_init
  by (simp add: conc_inv_def start_state_def worker_ok_def packet_ok_def dp_inv_def packet_inv_def startup_def)

lemma reachable_conc_inv:
  assumes "conc_run quiet (start_state f) xs s" "pending_tx f = []"
  shows "conc_inv (clients_of xs) (upstream_of xs) (upstream_addr f) (answered_all xs init_manager) s"
  using run_conc_inv [OF assms(1) start_conc_inv [OF assms(2)] order_refl order_refl] .

section \<open>Undisturbed stretches\<close>

lemma run_packet: "packet_step quiet s x s1 \<Longrightarrow> conc_run quiet s1 xs s2 \<Longrightarrow> conc_run quiet s (x # xs) s2"
  by (auto simp: run_Cons conc_step_def)

lemma run_worker: "worker_step s x s1 \<Longrightarrow> conc_run quiet s1 xs s2 \<Longrightarrow> conc_run quiet s (x # xs) s2"
  by (auto simp: run_Cons conc_step_def)

lemma conc_eqI: "cs_dp s = cs_dp s' \<Longrightarrow> cs_packet s = cs_packet s' \<Longrightarrow> cs_worker s = cs_worker s' \<Longrightarrow> s = (s' :: concurrent)"
  by simp

text \<open>A request that is served without interruption is served as in theory \<open>Ipc\<close>.\<close>

lemma worker_finishes:
  assumes "cs_worker s = KRequested data"
  shows "\<exists>k. conc_run quiet s (replicate k Internal @ [Reply data (fst (handle_command (ipc_request data) (manager s)))])
    (s\<lparr>cs_worker := KAccepting,
       cs_dp := (cs_dp s)\<lparr>dp_manager := snd (handle_command (ipc_request data) (manager s))\<rparr>\<rparr>)"
proof -
  let ?replying = "\<lambda>r m. s\<lparr>cs_worker := KReplying data r, cs_dp := (cs_dp s)\<lparr>dp_manager := m\<rparr>\<rparr>"
  have reply: "conc_run quiet (?replying r m) [Reply data r]
      (s\<lparr>cs_worker := KAccepting, cs_dp := (cs_dp s)\<lparr>dp_manager := m\<rparr>\<rparr>)" for r m
    by (rule run_worker [OF write_reply [of _ data r]]) (auto intro: conc_eqI)
  have internal: "replicate 4 Internal = [Internal, Internal, Internal, Internal]"
    "replicate 3 Internal = [Internal, Internal, Internal]"
    by (simp_all add: numeral_eq_Suc)
  consider "command_of data \<notin> {''GET_STATUS'', ''APPLY_POLICY''}" | "command_of data = ''GET_STATUS''"
    | "command_of data = ''APPLY_POLICY''" "acceptable (global_generation (manager s)) (candidate data)"
    | "command_of data = ''APPLY_POLICY''" "\<not> acceptable (global_generation (manager s)) (candidate data)"
    by blast
  then show ?thesis
  proof cases
    case 1
    have "worker_step s Internal (?replying unknown_text (manager s))"
      using unknown_command [OF assms 1] by simp
    from run_worker [OF this reply] show ?thesis
      using handle_command_commands(1) [OF 1] by (intro exI [of _ 1]) simp
  next
    case 2
    let ?s1 = "s\<lparr>cs_worker := KStatus data (active_snapshot (manager s))\<rparr>"
    have a: "worker_step s Internal ?s1" by (rule status_snapshot [OF assms 2])
    have b: "worker_step ?s1 Internal (?replying (status_text (manager s)) (manager s))"
      using status_generation [of ?s1 data "active_snapshot (manager s)"] by (simp add: status_text_def)
    from run_worker [OF a run_worker [OF b reply]] show ?thesis
      using handle_command_commands(2) [OF 2] by (intro exI [of _ 2]) (simp add: numeral_2_eq_2)
  next
    case 3
    let ?c = "candidate data"
    let ?s1 = "s\<lparr>cs_worker := KChecking data (global_generation (manager s))\<rparr>"
    let ?s2 = "?s1\<lparr>cs_worker := KSwapped data,
        cs_dp := (cs_dp ?s1)\<lparr>dp_manager := (manager ?s1)\<lparr>active_snapshot := ?c\<rparr>\<rparr>\<rparr>"
    let ?s3 = "?s2\<lparr>cs_worker := KPublished data,
        cs_dp := (cs_dp ?s2)\<lparr>dp_manager := (manager ?s2)\<lparr>global_generation := generation ?c\<rparr>\<rparr>\<rparr>"
    let ?m = "(manager s)\<lparr>active_snapshot := ?c, global_generation := generation ?c\<rparr>"
    let ?s4 = "?s3\<lparr>cs_worker := KReplying data (accepted_text (manager ?s3) (version_hash ?c))\<rparr>"
    have s4: "?s4 = ?replying (accepted_text ?m (version_hash ?c)) ?m" by simp
    have "worker_step s Internal ?s1" by (rule load_generation [OF assms 3(1)])
    moreover have "worker_step ?s1 Internal ?s2" using 3(2) by (intro store_snapshot) auto
    moreover have "worker_step ?s2 Internal ?s3" by (rule store_generation) simp
    moreover have "worker_step ?s3 Internal ?s4" by (rule accepted_reply) simp
    ultimately have "conc_run quiet s (replicate 4 Internal @ [Reply data (accepted_text ?m (version_hash ?c))])
        (s\<lparr>cs_worker := KAccepting, cs_dp := (cs_dp s)\<lparr>dp_manager := ?m\<rparr>\<rparr>)"
      using reply [where r = "accepted_text ?m (version_hash ?c)" and m = ?m] unfolding s4
      by (simp only: internal append.simps) (rule run_worker, assumption)+
    then show ?thesis using handle_command_commands(3) [OF 3] by (intro exI [of _ 4]) simp
  next
    case 4
    let ?err = "if generation (candidate data) \<le> global_generation (manager s)
      then ''Candidate generation must be > active generation'' else ''Candidate missing cryptographic version hash''"
    let ?s1 = "s\<lparr>cs_worker := KChecking data (global_generation (manager s))\<rparr>"
    let ?s2 = "?s1\<lparr>cs_worker := KRefused data ?err\<rparr>"
    let ?s3 = "?s2\<lparr>cs_worker := KReplying data (rejected_text (manager ?s2) ?err)\<rparr>"
    have s3: "?s3 = ?replying (rejected_text (manager s) ?err) (manager s)" by simp
    have "worker_step s Internal ?s1" by (rule load_generation [OF assms 4(1)])
    moreover have "worker_step ?s1 Internal ?s2" using 4(2) by (intro refuse) auto
    moreover have "worker_step ?s2 Internal ?s3" by (rule rejected_reply) simp
    ultimately have "conc_run quiet s (replicate 3 Internal @ [Reply data (rejected_text (manager s) ?err)])
        (s\<lparr>cs_worker := KAccepting, cs_dp := (cs_dp s)\<lparr>dp_manager := manager s\<rparr>\<rparr>)"
      using reply [where r = "rejected_text (manager s) ?err" and m = "manager s"] unfolding s3
      by (simp only: internal append.simps) (rule run_worker, assumption)+
    then show ?thesis using handle_command_commands(4) [OF 4] by (intro exI [of _ 3]) simp
  qed
qed

lemma request_served:
  assumes "cs_worker s = KAccepting" "take 8191 data \<noteq> []"
  shows "\<exists>k. conc_run quiet s
    (Request data # replicate k Internal @ [Reply data (fst (handle_command (ipc_request data) (manager s)))])
    (s\<lparr>cs_dp := (cs_dp s)\<lparr>dp_manager := snd (handle_command (ipc_request data) (manager s))\<rparr>\<rparr>)"
proof -
  let ?m = "snd (handle_command (ipc_request data) (manager s))"
  let ?s1 = "s\<lparr>cs_worker := KRequested data\<rparr>"
  have restored: "?s1\<lparr>cs_worker := KAccepting, cs_dp := (cs_dp ?s1)\<lparr>dp_manager := ?m\<rparr>\<rparr> =
      s\<lparr>cs_dp := (cs_dp s)\<lparr>dp_manager := ?m\<rparr>\<rparr>"
    using assms(1) by (intro conc_eqI) simp_all
  have "cs_worker ?s1 = KRequested data" "manager ?s1 = manager s" by simp_all
  from worker_finishes [OF this(1), of quiet] this(2) restored
  have "\<exists>k. conc_run quiet ?s1 (replicate k Internal @ [Reply data (fst (handle_command (ipc_request data) (manager s)))])
      (s\<lparr>cs_dp := (cs_dp s)\<lparr>dp_manager := ?m\<rparr>\<rparr>)"
    by simp
  then show ?thesis using run_worker [OF read_request [OF assms]] by blast
qed

text \<open>So is a datagram, by the handlers of theory \<open>Dataplane\<close>.\<close>

lemma query_served:
  assumes "cs_packet s = PWaiting" "receive b \<noteq> []" "parse (receive b) = Some (Ok q)" "recurring draws"
    and "handle_client draws quiet e (active_snapshot (manager s)) (global_generation (manager s)) (receive b) a (cs_dp s) =
      Some (out, d)"
  shows "conc_run quiet s [Receive (receive b) a, Internal,
      Decide (active_snapshot (manager s)) (global_generation (manager s)) out, Send out] (s\<lparr>cs_dp := d\<rparr>)"
proof -
  let ?s1 = "s\<lparr>cs_packet := PReceived (receive b) a\<rparr>"
  let ?s2 = "?s1\<lparr>cs_packet := PLoaded (receive b) a (active_snapshot (manager s))\<rparr>"
  let ?s3 = "?s2\<lparr>cs_packet := PReady out, cs_dp := d\<rparr>"
  have a: "packet_step quiet s (Receive (receive b) a) ?s1" using assms(1,2) by (rule receive_client)
  have b: "packet_step quiet ?s1 Internal ?s2" using load_snapshot [OF _ assms(3), of ?s1 a] by simp
  have c: "packet_step quiet ?s2 (Decide (active_snapshot (manager s)) (global_generation (manager s)) out) ?s3"
    using decide [OF _ assms(4), of ?s2 "receive b" a "active_snapshot (manager s)" quiet e out d] assms(5) by simp
  have d: "packet_step quiet ?s3 (Send out) (?s3\<lparr>cs_packet := PWaiting\<rparr>)" by (rule send_out) simp
  have "?s3\<lparr>cs_packet := PWaiting\<rparr> = s\<lparr>cs_dp := d\<rparr>" using assms(1) by (intro conc_eqI) simp_all
  with d have "conc_run quiet ?s3 [Send out] (s\<lparr>cs_dp := d\<rparr>)" by (simp add: run_single conc_step_def)
  then show ?thesis using run_packet [OF a run_packet [OF b run_packet [OF c]]] by blast
qed

lemma malformed_served:
  assumes "cs_packet s = PWaiting" "receive b \<noteq> []" "parse (receive b) = Some (Err x)"
  shows "conc_run quiet s [Receive (receive b) a, Internal] s"
proof -
  let ?s1 = "s\<lparr>cs_packet := PReceived (receive b) a\<rparr>"
  have a: "packet_step quiet s (Receive (receive b) a) ?s1" using assms(1,2) by (rule receive_client)
  have "packet_step quiet ?s1 Internal (?s1\<lparr>cs_packet := PWaiting\<rparr>)"
    using drop_malformed [OF _ assms(3), of ?s1 a] by simp
  moreover have "?s1\<lparr>cs_packet := PWaiting\<rparr> = s" using assms(1) by (intro conc_eqI) simp_all
  ultimately have "conc_run quiet ?s1 [Internal] s" by (simp add: run_single conc_step_def)
  then show ?thesis using run_packet [OF a] by blast
qed

lemma response_served:
  assumes "cs_packet s = PWaiting" "receive b \<noteq> []"
    and "handle_upstream e (global_generation (manager s)) (receive b) a (cs_dp s) = Some (out, d)"
  shows "conc_run quiet s [Upstream (receive b) a, Send out] (s\<lparr>cs_dp := d\<rparr>)"
proof -
  let ?s1 = "s\<lparr>cs_packet := PReady out, cs_dp := d\<rparr>"
  have a: "packet_step quiet s (Upstream (receive b) a) ?s1" using assms by (rule receive_upstream)
  have "packet_step quiet ?s1 (Send out) (?s1\<lparr>cs_packet := PWaiting\<rparr>)" by (rule send_out) simp
  moreover have "?s1\<lparr>cs_packet := PWaiting\<rparr> = s\<lparr>cs_dp := d\<rparr>" using assms(1) by (intro conc_eqI) simp_all
  ultimately have "conc_run quiet ?s1 [Send out] (s\<lparr>cs_dp := d\<rparr>)" by (simp add: run_single conc_step_def)
  then show ?thesis using run_packet [OF a] by blast
qed

lemma seed_refused:
  assumes "cs_packet s = PStarting" "1 \<le> global_generation (manager s)"
  shows "conc_run quiet s [Internal, Internal] (s\<lparr>cs_packet := PWaiting\<rparr>)"
proof -
  let ?s1 = "s\<lparr>cs_packet := PSeed (global_generation (manager s))\<rparr>"
  have a: "packet_step quiet s Internal ?s1" using assms(1) by (rule load_seed)
  have "packet_step quiet ?s1 Internal (?s1\<lparr>cs_packet := PWaiting\<rparr>)"
    using refuse_seed [OF _ seed_not_acceptable [OF assms(2)], of ?s1] by simp
  then have "conc_run quiet ?s1 [Internal] (s\<lparr>cs_packet := PWaiting\<rparr>)" by (simp add: run_single conc_step_def)
  then show ?thesis using run_packet [OF a] by blast
qed

section \<open>What a trace sends\<close>

fun sends :: "observed \<Rightarrow> effect list" where
  "sends (Send out) = out"
| "sends _ = []"

definition sent_by :: "observed list \<Rightarrow> effect list" where
  "sent_by xs = concat (map sends xs)"

lemma sent_by_simps [simp]:
  "sent_by [] = []" "sent_by (x # xs) = sends x @ sent_by xs" "sent_by (xs @ ys) = sent_by xs @ sent_by ys"
  "sent_by (replicate k Internal) = []"
  by (simp_all add: sent_by_def)

definition idle :: "concurrent \<Rightarrow> bool" where
  "idle s \<longleftrightarrow> cs_packet s = PWaiting \<and> cs_worker s = KAccepting"

lemma client_event_run:
  assumes "idle s" "recurring draws" "client_event draws quiet e d (cs_dp s) = Some (out, t)"
  shows "\<exists>xs. conc_run quiet s xs (s\<lparr>cs_dp := t\<rparr>) \<and> sent_by xs = out"
proof (cases "receive (fst d) = []")
  case True
  then show ?thesis using assms(3) by (intro exI [of _ "[]"]) (simp add: client_event_def)
next
  case False
  then have h: "handle_client draws quiet e (active_snapshot (manager s)) (global_generation (manager s))
      (receive (fst d)) (snd d) (cs_dp s) = Some (out, t)"
    using assms(3) by (simp add: client_event_def)
  obtain r where r: "parse (receive (fst d)) = Some r" using parse_not_None by blast
  have pc: "cs_packet s = PWaiting" using assms(1) by (simp add: idle_def)
  show ?thesis
  proof (cases r)
    case (Ok q)
    then show ?thesis using query_served [OF pc False _ assms(2) h] r by fastforce
  next
    case (Err x)
    then have "out = []" "t = cs_dp s" using h handle_client_Err r by auto
    with malformed_served [OF pc False] r Err show ?thesis by fastforce
  qed
qed

lemma upstream_event_run:
  assumes "idle s" "upstream_event e d (cs_dp s) = Some (out, t)"
  shows "\<exists>xs. conc_run quiet s xs (s\<lparr>cs_dp := t\<rparr>) \<and> sent_by xs = out"
proof (cases "receive (fst d) = []")
  case True
  then show ?thesis using assms(2) by (intro exI [of _ "[]"]) (simp add: upstream_event_def)
next
  case False
  then show ?thesis
    using response_served [of s "fst d" e "snd d" out t quiet] assms
    by (intro exI [of _ "[Upstream (receive (fst d)) (snd d), Send out]"]) (simp add: upstream_event_def idle_def)
qed

lemma dp_run_interleaved:
  assumes "dp_run draws quiet evs (cs_dp s) = Some (out, t)" "recurring draws" "idle s"
  shows "\<exists>xs. conc_run quiet s xs (s\<lparr>cs_dp := t\<rparr>) \<and> sent_by xs = out"
  using assms(1,3)
proof (induction evs arbitrary: s out)
  case Nil
  then show ?case by (intro exI [of _ "[]"]) simp
next
  case (Cons ev evs)
  obtain out1 d1 out2 where 1: "dp_step draws quiet ev (cs_dp s) = Some (out1, d1)"
      "dp_run draws quiet evs d1 = Some (out2, t)" "out = out1 @ out2"
    using Cons.prems(1) by (auto simp: bind_eq_Some_conv)
  have "\<exists>xs. conc_run quiet s xs (s\<lparr>cs_dp := d1\<rparr>) \<and> sent_by xs = out1"
  proof (cases ev)
    case (Control data)
    then have d1: "d1 = (cs_dp s)\<lparr>dp_manager := snd (serve_connection data (manager s))\<rparr>" "out1 = []"
      using 1(1) by (auto simp: control_event_def)
    show ?thesis
    proof (cases "take 8191 data = []")
      case True
      then show ?thesis using d1 by (intro exI [of _ "[]"]) (simp add: serve_connection_def)
    next
      case False
      then have "serve_connection data (manager s) =
          (Some (fst (handle_command (ipc_request data) (manager s))), snd (handle_command (ipc_request data) (manager s)))"
        by (simp add: serve_connection_def case_prod_beta)
      with d1 request_served [of s data quiet] Cons.prems(2) False show ?thesis
        by (fastforce simp: idle_def)
    qed
  next
    case (Turn e c u)
    then obtain o1 d0 o2 where t: "when_ready (client_event draws quiet e) c (cs_dp s) = Some (o1, d0)"
        "when_ready (upstream_event e) u d0 = Some (o2, d1)" "out1 = o1 @ o2"
      using 1(1) by (auto simp: loop_turn_def bind_eq_Some_conv)
    have "\<exists>xs. conc_run quiet s xs (s\<lparr>cs_dp := d0\<rparr>) \<and> sent_by xs = o1"
      using t(1) client_event_run [OF Cons.prems(2) assms(2)]
      by (cases c) (auto simp: when_ready_def intro!: exI [of _ "[]"])
    then obtain xs where xs: "conc_run quiet s xs (s\<lparr>cs_dp := d0\<rparr>)" "sent_by xs = o1" by blast
    have "idle (s\<lparr>cs_dp := d0\<rparr>)" using Cons.prems(2) by (simp add: idle_def)
    then have "\<exists>ys. conc_run quiet (s\<lparr>cs_dp := d0\<rparr>) ys (s\<lparr>cs_dp := d1\<rparr>) \<and> sent_by ys = o2"
      using t(2) upstream_event_run [of "s\<lparr>cs_dp := d0\<rparr>"]
      by (cases u) (auto simp: when_ready_def intro!: exI [of _ "[]"])
    then obtain ys where ys: "conc_run quiet (s\<lparr>cs_dp := d0\<rparr>) ys (s\<lparr>cs_dp := d1\<rparr>)" "sent_by ys = o2" by blast
    with xs t(3) show ?thesis
      by (intro exI [of _ "xs @ ys"]) (auto simp: conc_run_append)
  qed
  then obtain xs where xs: "conc_run quiet s xs (s\<lparr>cs_dp := d1\<rparr>)" "sent_by xs = out1" by blast
  have "idle (s\<lparr>cs_dp := d1\<rparr>)" using Cons.prems(2) by (simp add: idle_def)
  from Cons.IH [OF _ this, of out2] 1(2) obtain ys where
      "conc_run quiet (s\<lparr>cs_dp := d1\<rparr>) ys (s\<lparr>cs_dp := t\<rparr>)" "sent_by ys = out2"
    by auto
  with xs 1(3) show ?case by (intro exI [of _ "xs @ ys"]) (auto simp: conc_run_append)
qed

lemma sequential_interleaving:
  assumes "dp_run draws quiet evs (startup f) = Some (out, d)" "recurring draws"
  shows "\<exists>xs s. conc_run quiet (start_state f) xs s \<and> idle s \<and> cs_dp s = d \<and> sent_by xs = out"
proof -
  let ?s = "(start_state f)\<lparr>cs_packet := PWaiting\<rparr>"
  have "cs_packet (start_state f) = PStarting" "1 \<le> global_generation (manager (start_state f))"
    by (simp_all add: start_state_def init_manager_def)
  note r1 = seed_refused [OF this]
  have "idle ?s" "cs_dp ?s = startup f"
    by (simp_all add: idle_def start_state_def startup_def seed_rejected)
  with dp_run_interleaved [of draws quiet evs ?s out d] assms obtain xs where
      r2: "conc_run quiet ?s xs (?s\<lparr>cs_dp := d\<rparr>)" "sent_by xs = out" by auto
  with r1 have "conc_run quiet (start_state f) ([Internal, Internal] @ xs) (?s\<lparr>cs_dp := d\<rparr>)"
    unfolding conc_run_append by blast
  moreover have "sent_by ([Internal, Internal] @ xs) = out" using r2(2) by simp
  ultimately show ?thesis
    by (intro exI [of _ "[Internal, Internal] @ xs"] exI [of _ "?s\<lparr>cs_dp := d\<rparr>"]) (simp add: idle_def start_state_def)
qed

section \<open>Requests and replies in order\<close>

fun request_of :: "observed \<Rightarrow> string list" where
  "request_of (Request data) = [data]"
| "request_of _ = []"

fun reply_of :: "observed \<Rightarrow> (string \<times> string) list" where
  "reply_of (Reply data resp) = [(data, resp)]"
| "reply_of _ = []"

definition requests :: "observed list \<Rightarrow> string list" where
  "requests xs = concat (map request_of xs)"

definition replies :: "observed list \<Rightarrow> (string \<times> string) list" where
  "replies xs = concat (map reply_of xs)"

text \<open>The sequential server: the answer to each request, and the manager in the end.\<close>

fun serve_all :: "snapshot_manager \<Rightarrow> string list \<Rightarrow> (string \<times> string) list \<times> snapshot_manager" where
  "serve_all m [] = ([], m)"
| "serve_all m (d # ds) =
     (let (r, m') = handle_command (ipc_request d) m; (rs, m'') = serve_all m' ds in ((d, r) # rs, m''))"

lemma serve_all_snoc:
  "serve_all m (ds @ [d]) =
     (let (rs, m') = serve_all m ds; (r, m'') = handle_command (ipc_request d) m' in (rs @ [(d, r)], m''))"
  by (induction ds arbitrary: m) (auto simp: Let_def split: prod.split)

definition in_progress :: "control_pc \<Rightarrow> string list" where
  "in_progress pc =
     (case pc of
        KAccepting \<Rightarrow> []
      | KRequested data \<Rightarrow> [data]
      | KStatus data snap \<Rightarrow> [data]
      | KChecking data g \<Rightarrow> [data]
      | KSwapped data \<Rightarrow> [data]
      | KPublished data \<Rightarrow> [data]
      | KRefused data err \<Rightarrow> [data]
      | KReplying data resp \<Rightarrow> [data])"

lemma worker_step_progress:
  "worker_step s x s' \<Longrightarrow> map fst (reply_of x) @ in_progress (cs_worker s') = in_progress (cs_worker s) @ request_of x"
  by (induction rule: worker_step.induct) (simp_all add: in_progress_def)

lemma packet_step_silent: "packet_step quiet s x s' \<Longrightarrow> reply_of x = [] \<and> request_of x = [] \<and> cs_worker s' = cs_worker s"
  by (induction rule: packet_step.induct) simp_all

lemma run_requests:
  "conc_run quiet s xs s' \<Longrightarrow> in_progress (cs_worker s) = [] \<Longrightarrow>
     requests xs = map fst (replies xs) @ in_progress (cs_worker s')"
proof (induction rule: conc_run.induct)
  case (run_snoc s xs s' x s'')
  from run_snoc.hyps(2) have "map fst (reply_of x) @ in_progress (cs_worker s'') = in_progress (cs_worker s') @ request_of x"
    unfolding conc_step_def using worker_step_progress packet_step_silent by fastforce
  with run_snoc.IH run_snoc.prems show ?case by (simp add: requests_def replies_def)
qed (simp add: requests_def replies_def)

lemma run_replies:
  assumes "conc_run quiet s xs s'" "conc_inv UNIV UNIV up m s"
  shows "serve_all m (map fst (replies xs)) = (replies xs, answered_all xs m)"
  using assms
proof (induction rule: conc_run.induct)
  case (run_snoc s xs s' x s'')
  have inv: "conc_inv UNIV UNIV up (answered_all xs m) s'"
    by (rule run_conc_inv [OF run_snoc.hyps(1) run_snoc.prems]) simp_all
  show ?case
  proof (cases x)
    case (Reply data resp)
    then have "cs_worker s' = KReplying data resp"
      using run_snoc.hyps(2) by (simp add: observed_steps)
    then have "handle_command (ipc_request data) (answered_all xs m) = (resp, manager s')"
      using inv by (simp add: conc_inv_def worker_ok_def)
    with Reply run_snoc.IH [OF run_snoc.prems] show ?thesis
      by (simp add: replies_def serve_all_snoc)
  qed (use run_snoc.IH [OF run_snoc.prems] in \<open>simp_all add: replies_def\<close>)
qed (simp add: replies_def)

section \<open>From a confirmation on\<close>

definition sound :: "sockaddr_in \<Rightarrow> concurrent \<Rightarrow> bool" where
  "sound up s \<longleftrightarrow> (\<exists>m. conc_inv UNIV UNIV up m s)"

lemma sound_step: "conc_step quiet s x s' \<Longrightarrow> sound up s \<Longrightarrow> sound up s'"
  unfolding sound_def using step_conc_inv [where C = UNIV and U = UNIV] by blast

lemma sound_start: "pending_tx f = [] \<Longrightarrow> sound (upstream_addr f) (start_state f)"
  unfolding sound_def using start_conc_inv by blast

lemma run_preserves:
  assumes "conc_run quiet s xs s'" "P s"
    and "\<And>t x t'. conc_step quiet t x t' \<Longrightarrow> x \<in> set xs \<Longrightarrow> P t \<Longrightarrow> P t'"
  shows "P s'"
  using assms by (induction rule: conc_run.induct) auto

lemma run_sound: "conc_run quiet s xs s' \<Longrightarrow> sound up s \<Longrightarrow> sound up s'"
  by (rule run_preserves) (auto intro: sound_step)

lemma sound_counter:
  "sound up s \<Longrightarrow> global_generation (manager s) \<le> generation (active_snapshot (manager s))"
  unfolding sound_def conc_inv_def using worker_okD(4) by blast

lemma worker_step_counter:
  assumes "worker_step s x s'" "sound up s"
  shows "global_generation (manager s) \<le> global_generation (manager s')"
proof -
  obtain m where "worker_ok m s" using assms(2) by (auto simp: sound_def conc_inv_def)
  with assms(1) show ?thesis
    by (induction rule: worker_step.induct) (auto simp: worker_ok_def acceptable_def less_imp_le)
qed

lemma packet_step_sound:
  assumes "packet_step quiet s x s'" "sound up s"
  shows "manager s' = manager s" "cs_worker s' = cs_worker s"
  using assms packet_step_conc_inv [where C = UNIV and U = UNIV] unfolding sound_def by blast+

lemma step_counter:
  assumes "conc_step quiet s x s'" "sound up s"
  shows "global_generation (manager s) \<le> global_generation (manager s')"
  using assms worker_step_counter packet_step_sound unfolding conc_step_def by fastforce

text \<open>The reply that confirms a policy.\<close>

definition confirms :: "string \<Rightarrow> string \<Rightarrow> bool" where
  "confirms data resp \<longleftrightarrow> command_of data = ''APPLY_POLICY'' \<and> prefix ''{\"status\":\"OK\"'' resp"

lemma apply_reply_cases:
  assumes "conc_step quiet s (Reply data resp) s'" "sound up s" "command_of data = ''APPLY_POLICY''"
  obtains (accepted) "resp = accepted_text (manager s') (version_hash (candidate data))"
      "active_snapshot (manager s') = candidate data" "global_generation (manager s') = generation (candidate data)"
    | (rejected) err where "resp = rejected_text (manager s') err"
      "err \<in> {''Candidate generation must be > active generation'', ''Candidate missing cryptographic version hash''}"
proof -
  obtain m where m: "worker_ok m s" using assms(2) by (auto simp: sound_def conc_inv_def)
  have s: "cs_worker s = KReplying data resp" "s' = s\<lparr>cs_worker := KAccepting\<rparr>"
    using assms(1) by (simp_all add: observed_steps)
  then have h: "handle_command (ipc_request data) m = (resp, manager s')" using m by (simp add: worker_ok_def)
  show ?thesis
  proof (cases "acceptable (global_generation m) (candidate data)")
    case True
    from h handle_command_commands(3) [OF assms(3) True]
    have "manager s' = m\<lparr>active_snapshot := candidate data, global_generation := generation (candidate data)\<rparr>"
      "resp = accepted_text (manager s') (version_hash (candidate data))" by auto
    then show ?thesis by (intro accepted) simp_all
  next
    case False
    from h handle_command_commands(4) [OF assms(3) False]
    have "resp = rejected_text (manager s')
      (if generation (candidate data) \<le> global_generation m then ''Candidate generation must be > active generation''
       else ''Candidate missing cryptographic version hash'')" by auto
    then show ?thesis by (rule rejected) simp
  qed
qed

lemma confirmed_is_active:
  assumes "conc_step quiet s (Reply data resp) s'" "sound up s" "confirms data resp"
  shows "active_snapshot (manager s') = candidate data" "global_generation (manager s') = generation (candidate data)"
    "cs_worker s' = KAccepting"
proof -
  have "command_of data = ''APPLY_POLICY''" using assms(3) by (simp add: confirms_def)
  from assms(1,2) this show "active_snapshot (manager s') = candidate data" "global_generation (manager s') = generation (candidate data)"
    by (cases rule: apply_reply_cases; use assms(3) in \<open>simp add: confirms_def rejected_text_def\<close>)+
  show "cs_worker s' = KAccepting" using assms(1) by (auto simp: observed_steps)
qed

text \<open>The loads after a confirmation.\<close>

definition loads_from :: "u64 \<Rightarrow> concurrent \<Rightarrow> bool" where
  "loads_from g s \<longleftrightarrow> g \<le> global_generation (manager s) \<and>
     (case cs_packet s of PLoaded buf a snap \<Rightarrow> g \<le> generation snap | _ \<Rightarrow> True)"

lemma loads_from_step:
  assumes "conc_step quiet s x s'" "sound up s" "loads_from g s"
  shows "loads_from g s'"
proof -
  have g: "g \<le> global_generation (manager s')"
    using assms step_counter by (auto simp: loads_from_def intro: order_trans)
  show ?thesis
  proof (cases "worker_step s x s'")
    case True
    with g assms(3) worker_step_packet [OF True] show ?thesis by (simp add: loads_from_def)
  next
    case False
    then have p: "packet_step quiet s x s'" using assms(1) by (simp add: conc_step_def)
    have "g \<le> generation (active_snapshot (manager s))"
      using assms(3) sound_counter [OF assms(2)] by (auto simp: loads_from_def intro: order_trans)
    with p g assms(3) show ?thesis
      by (cases rule: packet_step.cases) (auto simp: loads_from_def)
  qed
qed

text \<open>A name that the active policy blocks, and the one a request may put in its place.\<close>

definition blocks_next :: "string \<Rightarrow> control_pc \<Rightarrow> bool" where
  "blocks_next n pc \<longleftrightarrow>
     (case pc of
        KRequested data \<Rightarrow> command_of data = ''APPLY_POLICY'' \<longrightarrow> policy_blocks (candidate data) n
      | KChecking data g \<Rightarrow> policy_blocks (candidate data) n
      | _ \<Rightarrow> True)"

definition enforced :: "string \<Rightarrow> concurrent \<Rightarrow> bool" where
  "enforced n s \<longleftrightarrow> policy_blocks (active_snapshot (manager s)) n \<and> blocks_next n (cs_worker s)"

text \<open>A trace in which every policy that is asked for blocks the name.\<close>

definition requests_block :: "string \<Rightarrow> observed list \<Rightarrow> bool" where
  "requests_block n xs \<longleftrightarrow>
     (\<forall>data. Request data \<in> set xs \<longrightarrow> command_of data = ''APPLY_POLICY'' \<longrightarrow> policy_blocks (candidate data) n)"

lemma enforced_step:
  assumes "conc_step quiet s x s'" "sound up s" "enforced n s"
    and "\<And>data. x = Request data \<Longrightarrow> command_of data = ''APPLY_POLICY'' \<Longrightarrow> policy_blocks (candidate data) n"
  shows "enforced n s'"
proof (cases "worker_step s x s'")
  case True
  then show ?thesis using assms(3,4)
    by (cases rule: worker_step.cases) (auto simp: enforced_def blocks_next_def)
next
  case False
  then show ?thesis using assms(1-3) packet_step_sound unfolding conc_step_def enforced_def by metis
qed

text \<open>A received query for such a name, up to its answer.\<close>

definition on_the_way :: "bytes \<Rightarrow> sockaddr_in \<Rightarrow> parsed_packet \<Rightarrow> concurrent \<Rightarrow> bool" where
  "on_the_way buf a q s \<longleftrightarrow>
     (case cs_packet s of
        PReceived b c \<Rightarrow> b = buf \<and> c = a
      | PLoaded b c snap \<Rightarrow> b = buf \<and> c = a \<and> policy_blocks snap (qname (question q))
      | PReady out \<Rightarrow> filter is_send out = [ToClient a (error_bytes q NXDOMAIN)]
      | _ \<Rightarrow> False)"

lemma on_the_way_step:
  assumes "conc_step quiet s x s'" "\<nexists>out. x = Send out" "on_the_way buf a q s" "parse buf = Some (Ok q)"
    and "enforced (qname (question q)) s"
  shows "on_the_way buf a q s'"
proof (cases "worker_step s x s'")
  case True
  with assms(3) worker_step_packet show ?thesis by (simp add: on_the_way_def)
next
  case False
  then have "packet_step quiet s x s'" using assms(1) by (simp add: conc_step_def)
  then show ?thesis using assms(2-5)
    by (cases rule: packet_step.cases) (auto simp: on_the_way_def enforced_def handle_client_Ok)
qed

lemma confirmed_block:
  assumes "conc_run quiet (start_state f) (xs @ Reply data resp # ys @ Receive buf a # zs @ [Send out]) s"
    and "pending_tx f = []" "confirms data resp" "\<forall>o'. Send o' \<notin> set zs"
    and "parse buf = Some (Ok q)" "policy_blocks (candidate data) (qname (question q))"
    and "requests_block (qname (question q)) (ys @ zs)"
  shows "\<exists>b. build_error_response q NXDOMAIN = Some b \<and> filter is_send out = [ToClient a b]"
proof -
  let ?n = "qname (question q)" and ?up = "upstream_addr f"
  obtain s1 s2 s3 s4 s5 where r: "conc_run quiet (start_state f) xs s1" "conc_step quiet s1 (Reply data resp) s2"
      "conc_run quiet s2 ys s3" "conc_step quiet s3 (Receive buf a) s4" "conc_run quiet s4 zs s5"
      "conc_step quiet s5 (Send out) s"
    using assms(1) by (auto simp: conc_run_append run_Cons run_single)
  have s1: "sound ?up s1" using run_sound [OF r(1)] sound_start [OF assms(2)] by blast
  then have s2: "sound ?up s2" using sound_step r(2) by blast
  have "enforced ?n s2"
    using confirmed_is_active [OF r(2) s1 assms(3)] assms(6) by (simp add: enforced_def blocks_next_def)
  with s2 have s3: "sound ?up s3 \<and> enforced ?n s3"
    using r(3) by (rule_tac run_preserves [where P = "\<lambda>t. sound ?up t \<and> enforced ?n t"])
      (use assms(7) in \<open>auto intro: sound_step enforced_step simp: requests_block_def\<close>)
  then have s4: "sound ?up s4 \<and> enforced ?n s4" using sound_step enforced_step r(4) by blast
  have "on_the_way buf a q s4" using r(4) by (auto simp: observed_steps on_the_way_def)
  with s4 have "sound ?up s5 \<and> enforced ?n s5 \<and> on_the_way buf a q s5"
    using r(5) by (rule_tac run_preserves [where P = "\<lambda>t. sound ?up t \<and> enforced ?n t \<and> on_the_way buf a q t"])
      (use assms(4,5,7) in \<open>auto intro: sound_step enforced_step on_the_way_step simp: requests_block_def\<close>)
  then show ?thesis using r(6) builders [OF assms(5)] by (auto simp: observed_steps on_the_way_def)
qed

text \<open>A run in which a policy is confirmed and then a query for a name it blocks arrives.\<close>

definition sample_policy :: string where
  "sample_policy = policy_request 2 ''v2'' [] [''sinkhole.test''] []"

definition sample_query :: bytes where
  "sample_query = query_bytes sample_header sinkhole_labels 1 1"

lemma sample_candidate:
  "candidate sample_policy = \<lparr>generation = 2, version_hash = ''v2'', ps_suffix_trie = build_trie [],
     exact_blocks = {''sinkhole.test''}, allowlist = {}\<rparr>"
  "command_of sample_policy = ''APPLY_POLICY''" "take 8191 sample_policy \<noteq> []"
proof -
  have "length sample_policy \<le> 8191" "CHR 0x00 \<notin> set sample_policy" by code_simp+
  then have data: "ipc_request sample_policy = sample_policy"
    by (auto simp: ipc_request_def takeWhile_eq_all_conv)
  have "plain_request 2 ''v2'' [] [''sinkhole.test''] []"
    by (simp add: plain_request_def plain_def request_keys_def)
  from build_candidate_request [OF this]
  show "candidate sample_policy = \<lparr>generation = 2, version_hash = ''v2'', ps_suffix_trie = build_trie [],
     exact_blocks = {''sinkhole.test''}, allowlist = {}\<rparr>"
    unfolding candidate_def data by (simp add: sample_policy_def)
  show "command_of sample_policy = ''APPLY_POLICY''"
    unfolding command_of_def data using request_command by (simp add: sample_policy_def)
  show "take 8191 sample_policy \<noteq> []" by (simp add: sample_policy_def policy_request_def)
qed

lemma sample_conc_run:
  obtains k resp g out s q where
    "conc_run quiet (start_state f) (([Internal, Internal] @ Request sample_policy # replicate k Internal) @
       Reply sample_policy resp # [] @ Receive sample_query sample_client #
       [Internal, Decide (candidate sample_policy) 2 out] @ [Send out]) s"
    "confirms sample_policy resp" "parse sample_query = Some (Ok q)" "qname (question q) = ''sinkhole.test''"
proof -
  let ?c = "candidate sample_policy"
  let ?s1 = "(start_state f)\<lparr>cs_packet := PWaiting\<rparr>"
  have init: "cs_packet (start_state f) = PStarting" "manager (start_state f) = init_manager"
    "cs_worker (start_state f) = KAccepting"
    by (simp_all add: start_state_def)
  have r1: "conc_run quiet (start_state f) [Internal, Internal] ?s1"
    by (rule seed_refused) (simp_all add: init, simp add: init_manager_def)
  have "acceptable (global_generation init_manager) ?c"
    by (simp add: sample_candidate acceptable_def init_manager_def)
  note h = handle_command_commands(3) [OF sample_candidate(2) this]
  let ?resp = "accepted_text (init_manager\<lparr>active_snapshot := ?c, global_generation := generation ?c\<rparr>) (version_hash ?c)"
  have "cs_worker ?s1 = KAccepting" "manager ?s1 = init_manager" by (simp_all add: init)
  from request_served [OF this(1) sample_candidate(3), of quiet] this(2) h
  obtain k m where r2: "conc_run quiet ?s1 (Request sample_policy # replicate k Internal @ [Reply sample_policy ?resp])
      (?s1\<lparr>cs_dp := (cs_dp ?s1)\<lparr>dp_manager := m\<rparr>\<rparr>)" "active_snapshot m = ?c" "global_generation m = 2"
    by (auto simp: sample_candidate(1))
  let ?s2 = "?s1\<lparr>cs_dp := (cs_dp ?s1)\<lparr>dp_manager := m\<rparr>\<rparr>"
  obtain q where q: "parse sample_query = Some (Ok q)" "qname (question q) = ''sinkhole.test''"
    using sinkhole_query_parses by (auto simp: sample_query_def)
  have "policy_blocks ?c ''sinkhole.test''" by (simp add: sample_candidate(1) policy_blocks_def)
  then obtain out where h2: "handle_client word_of_nat quiet sample_env (active_snapshot (manager ?s2))
      (global_generation (manager ?s2)) sample_query sample_client (cs_dp ?s2) = Some (out, cs_dp ?s2)"
    using handle_client_Ok [OF q(1)] q(2) r2(2) by simp
  have rec: "receive sample_query = sample_query" "sample_query \<noteq> []"
  proof -
    have "length sample_query \<le> 4096" "sample_query \<noteq> []" unfolding sample_query_def by code_simp+
    then show "receive sample_query = sample_query" "sample_query \<noteq> []" by (simp_all add: receive_def)
  qed
  have "cs_packet ?s2 = PWaiting" by simp
  from query_served [OF this, of sample_query q word_of_nat quiet sample_env sample_client out "cs_dp ?s2"] rec q(1) h2
    recurring_word_of_nat r2(2,3)
  have r3: "conc_run quiet ?s2 [Receive sample_query sample_client, Internal, Decide ?c 2 out, Send out]
      (?s2\<lparr>cs_dp := cs_dp ?s2\<rparr>)" by simp
  have "confirms sample_policy ?resp" by (simp add: confirms_def sample_candidate(2) accepted_text_def)
  moreover have "conc_run quiet (start_state f) (([Internal, Internal] @ Request sample_policy # replicate k Internal) @
       Reply sample_policy ?resp # [] @ Receive sample_query sample_client #
       [Internal, Decide ?c 2 out] @ [Send out]) (?s2\<lparr>cs_dp := cs_dp ?s2\<rparr>)"
    using conc_run_append [THEN iffD2, OF exI, OF conjI, OF r1 conc_run_append [THEN iffD2, OF exI, OF conjI, OF r2(1) r3]]
    by simp
  ultimately show thesis using q by (intro that)
qed

section \<open>Properties\<close>

text \<open>
  Property C7 (a confirmed policy is enforced).  In every interleaving of the two threads: once the reply that
  confirms a policy has been written, a query received afterwards for a name the policy blocks gets the
  NXDOMAIN response to it and nothing else, as long as every policy requested since blocks the name too.
  The packet path needs no lock for this: no step of an update lets it fall back to an older policy.
\<close>

theorem confirmed_policy_is_enforced:
  assumes "conc_run quiet (start_state f) (xs @ Reply data resp # ys @ Receive buf a # zs @ [Send out]) s"
    and "pending_tx f = []" "confirms data resp" "\<forall>o'. Send o' \<notin> set zs"
    and "parse buf = Some (Ok q)" "policy_blocks (candidate data) (qname (question q))"
    and "requests_block (qname (question q)) (ys @ zs)"
  shows "\<exists>b. build_error_response q NXDOMAIN = Some b \<and> filter is_send out = [ToClient a b]"
  using assms by (rule confirmed_block)

theorem confirmed_policy_is_enforced_witness:
  "\<exists>xs zs resp out s q. conc_run True (start_state open_forwarder)
      (xs @ Reply sample_policy resp # [] @ Receive sample_query sample_client # zs @ [Send out]) s \<and>
     parse sample_query = Some (Ok q) \<and> confirms sample_policy resp \<and>
     (\<exists>b. build_error_response q NXDOMAIN = Some b \<and> filter is_send out = [ToClient sample_client b])"
proof -
  obtain k resp g out s q where r: "conc_run True (start_state open_forwarder)
      (([Internal, Internal] @ Request sample_policy # replicate k Internal) @
       Reply sample_policy resp # [] @ Receive sample_query sample_client #
       [Internal, Decide (candidate sample_policy) 2 out] @ [Send out]) s"
    "confirms sample_policy resp" and q: "parse sample_query = Some (Ok q)" "qname (question q) = ''sinkhole.test''"
    by (rule sample_conc_run)
  have "policy_blocks (candidate sample_policy) (qname (question q))"
    by (simp add: q(2) sample_candidate(1) policy_blocks_def)
  from confirmed_policy_is_enforced [OF r(1) open_forwarder_idle r(2) _ q(1) this] r q
  show ?thesis by (fastforce simp: requests_block_def)
qed

text \<open>
  Property C8 (no load is older than a confirmation).  Whatever updates follow, a query received after the
  confirmation of a policy is decided on a snapshot, and looked up in the cache under a generation, that
  are at least as new as the confirmed policy: no answer cached under an older policy is served.
\<close>

theorem loads_not_older_than_confirmed:
  assumes "conc_run quiet (start_state f) (xs @ Reply data resp # ys @ Receive buf a # zs @ [Decide snap g out]) s"
    and "pending_tx f = []" "confirms data resp"
  shows "generation (candidate data) \<le> generation snap \<and> generation (candidate data) \<le> g"
proof -
  let ?up = "upstream_addr f" and ?g = "generation (candidate data)"
  obtain s1 s2 s3 s4 s5 where r: "conc_run quiet (start_state f) xs s1" "conc_step quiet s1 (Reply data resp) s2"
      "conc_run quiet s2 ys s3" "conc_step quiet s3 (Receive buf a) s4" "conc_run quiet s4 zs s5"
      "conc_step quiet s5 (Decide snap g out) s"
    using assms(1) by (auto simp: conc_run_append run_Cons run_single)
  have s1: "sound ?up s1" using run_sound [OF r(1)] sound_start [OF assms(2)] by blast
  then have s2: "sound ?up s2" using sound_step r(2) by blast
  have "?g \<le> global_generation (manager s2)" using confirmed_is_active [OF r(2) s1 assms(3)] by simp
  with s2 have s3: "sound ?up s3 \<and> ?g \<le> global_generation (manager s3)"
    using r(3) by (rule_tac run_preserves [where P = "\<lambda>t. sound ?up t \<and> ?g \<le> global_generation (manager t)"])
      (auto intro: sound_step order_trans step_counter)
  then have "sound ?up s4" using sound_step [OF r(4)] by blast
  moreover have "loads_from ?g s4" using r(4) s3 by (auto simp: loads_from_def observed_steps)
  ultimately have "sound ?up s5 \<and> loads_from ?g s5"
    using r(5) by (rule_tac run_preserves [where P = "\<lambda>t. sound ?up t \<and> loads_from ?g t"])
      (auto intro: sound_step loads_from_step)
  then show ?thesis using r(6) by (auto simp: observed_steps loads_from_def)
qed

theorem loads_not_older_than_confirmed_witness:
  "\<exists>xs zs resp snap g out s. conc_run True (start_state open_forwarder)
      (xs @ Reply sample_policy resp # [] @ Receive sample_query sample_client # zs @ [Decide snap g out]) s \<and>
     confirms sample_policy resp \<and> generation (candidate sample_policy) \<le> generation snap \<and>
     generation (candidate sample_policy) \<le> g"
proof -
  obtain k resp g out s q where r: "conc_run True (start_state open_forwarder)
      (([Internal, Internal] @ Request sample_policy # replicate k Internal) @
       Reply sample_policy resp # [] @ Receive sample_query sample_client #
       [Internal, Decide (candidate sample_policy) 2 out] @ [Send out]) s" "confirms sample_policy resp"
    by (rule sample_conc_run)
  let ?xs = "([Internal, Internal] @ Request sample_policy # replicate k Internal) @
       Reply sample_policy resp # [] @ Receive sample_query sample_client #
       [Internal] @ [Decide (candidate sample_policy) 2 out]"
  have "conc_run True (start_state open_forwarder) (?xs @ [Send out]) s" using r(1) by simp
  then obtain t where t: "conc_run True (start_state open_forwarder) ?xs t" unfolding conc_run_append by blast
  from loads_not_older_than_confirmed [OF t open_forwarder_idle r(2)] t r(2) show ?thesis by blast
qed

text \<open>
  Property C2 (replies under concurrent updates).  In every interleaving each datagram sent to a client answers
  a datagram received from that address under its id, and is an error response, the sinkhole answer, or,
  but for the id, a response from the upstream address to the same name and type.
\<close>

theorem concurrent_replies_are_justified:
  assumes "conc_run quiet (start_state f) xs s" "pending_tx f = []" "ToClient a b \<in> set (sent_by xs)"
  shows "\<exists>buf q. (buf, a) \<in> clients_of xs \<and> parse buf = Some (Ok q) \<and>
    take 2 b = [hi8 (wh_id (pp_header q)), lo8 (wh_id (pp_header q))] \<and>
    ((\<exists>rc. build_error_response q rc = Some b) \<or> build_sinkhole_response q loopback_be 60 = Some b \<or>
     (\<exists>r p. (r, upstream_addr f) \<in> upstream_of xs \<and> drop 2 b = drop 2 r \<and>
        parse r = Some (Ok p) \<and> is_response (pp_header p) \<and>
        qname (question p) = qname (question q) \<and> qtype (question p) = qtype (question q)))"
proof -
  let ?C = "clients_of xs" and ?U = "upstream_of xs" and ?up = "upstream_addr f"
  obtain x where x: "x \<in> set xs" "ToClient a b \<in> set (sends x)"
    using assms(3) by (auto simp: sent_by_def)
  from x(2) obtain out where out: "x = Send out" "ToClient a b \<in> set out" by (cases x) simp_all
  with x(1) obtain ys zs where xs: "xs = ys @ Send out # zs" by (auto simp: in_set_conv_decomp)
  with assms(1) obtain s1 s2 where r: "conc_run quiet (start_state f) ys s1" "conc_step quiet s1 (Send out) s2"
    by (auto simp: conc_run_append run_Cons)
  have "clients_of ys \<subseteq> ?C" "upstream_of ys \<subseteq> ?U" by (auto simp: xs clients_of_def upstream_of_def)
  from run_conc_inv [OF r(1) start_conc_inv [OF assms(2)] this] r(2)
  have "\<forall>x \<in> set out. justified ?C ?U ?up x" by (auto simp: conc_inv_def packet_ok_def observed_steps)
  with out(2) justified_reply show ?thesis by blast
qed

theorem concurrent_replies_are_justified_witness:
  "\<exists>xs s b buf q. conc_run True (start_state open_forwarder) xs s \<and> ToClient sample_client b \<in> set (sent_by xs) \<and>
     (buf, sample_client) \<in> clients_of xs \<and> parse buf = Some (Ok q) \<and>
     take 2 b = [hi8 (wh_id (pp_header q)), lo8 (wh_id (pp_header q))]"
proof -
  obtain out d b where d: "dp_run word_of_nat True sinkhole_turns (startup open_forwarder) = Some (out, d)"
      "ToClient sample_client b \<in> set out"
    using sinkhole_run by blast
  from sequential_interleaving [OF d(1) recurring_word_of_nat] obtain xs s where
      "conc_run True (start_state open_forwarder) xs s" "sent_by xs = out" by blast
  with concurrent_replies_are_justified [OF this(1) open_forwarder_idle, of sample_client b] d(2)
  show ?thesis by blast
qed

lemma sound_not_failed: "sound up s \<Longrightarrow> cs_packet s \<noteq> PFailed"
  by (auto simp: sound_def conc_inv_def packet_ok_def)

text \<open>A thread that is not waiting for input has a next step.\<close>

lemma packet_enabled:
  assumes "sound up s" "cs_packet s \<noteq> PWaiting"
  shows "\<exists>x s'. packet_step quiet s x s'"
proof -
  obtain m where inv: "conc_inv UNIV UNIV up m s" using assms(1) by (auto simp: sound_def)
  have not_failed: "cs_packet s \<noteq> PFailed" using sound_not_failed [OF assms(1)] .
  show ?thesis
  proof (cases "cs_packet s")
    case PStarting
    then show ?thesis by (blast intro: load_seed)
  next
    case (PSeed g)
    then show ?thesis by (cases "acceptable g seed_policy") (blast intro: refuse_seed store_seed)+
  next
    case PSeedStored
    then show ?thesis by (blast intro: publish_seed)
  next
    case (PReceived buf a)
    obtain r where "parse buf = Some r" using parse_not_None by blast
    with PReceived show ?thesis by (cases r) (blast intro: drop_malformed load_snapshot)+
  next
    case (PLoaded buf a snap)
    then have "(buf, a) \<in> UNIV" by simp
    have "packet_inv UNIV UNIV up (cs_dp s)" using inv by (simp add: conc_inv_def)
    from handle_client_step [OF this UNIV_I recurring_word_of_nat, of quiet sample_env snap
        "global_generation (manager s)" buf a]
    obtain out d where "handle_client word_of_nat quiet sample_env snap (global_generation (manager s)) buf a (cs_dp s) =
        Some (out, d)" .
    with PLoaded show ?thesis by (blast intro: decide recurring_word_of_nat)
  next
    case (PReady out)
    then show ?thesis by (blast intro: send_out)
  qed (use assms(2) not_failed in simp_all)
qed

lemma worker_enabled:
  assumes "cs_worker s \<noteq> KAccepting"
  shows "\<exists>x s'. worker_step s x s'"
proof (cases "cs_worker s")
  case (KRequested data)
  then show ?thesis by (blast intro: unknown_command status_snapshot load_generation)
next
  case (KChecking data g)
  then show ?thesis by (cases "acceptable g (candidate data)") (blast intro: refuse store_snapshot)+
qed (use assms in \<open>blast intro: status_generation store_generation accepted_reply rejected_reply write_reply\<close>)+

text \<open>
  Property C3 (no interleaving fails, no thread waits for the other).  Whatever the threads did, the main thread is
  not in undefined behaviour, the cache and the transactions stay within their bounds, and a thread that
  is inside a datagram or a request has a next step, wherever the other one is.
\<close>

theorem interleavings_never_fail:
  assumes "conc_run quiet (start_state f) xs s" "pending_tx f = []"
  shows "cs_packet s \<noteq> PFailed \<and>
    cache_size (dp_cache (cs_dp s)) \<le> 10000 \<and> length (pending_tx (dp_forwarder (cs_dp s))) \<le> 2048 \<and>
    (cs_packet s \<noteq> PWaiting \<longrightarrow> (\<exists>x s'. packet_step quiet s x s' \<and> cs_worker s' = cs_worker s)) \<and>
    (cs_worker s \<noteq> KAccepting \<longrightarrow> (\<exists>x s'. worker_step s x s' \<and> cs_packet s' = cs_packet s))"
proof -
  have snd: "sound (upstream_addr f) s" using run_sound [OF assms(1) sound_start [OF assms(2)]] .
  then obtain m where "conc_inv UNIV UNIV (upstream_addr f) m s" by (auto simp: sound_def)
  then have "cache_size (dp_cache (cs_dp s)) \<le> 10000" "length (pending_tx (dp_forwarder (cs_dp s))) \<le> 2048"
    using cache_invD(7) [of "dp_cache (cs_dp s)"]
    by (auto simp: conc_inv_def packet_inv_def cache_ok_def cache_size_def fw_inv_def)
  then show ?thesis
    using sound_not_failed [OF snd] packet_enabled [OF snd] worker_enabled packet_step_sound(2) [OF _ snd] worker_step_packet
    by blast
qed

theorem interleavings_never_fail_witness:
  "\<exists>xs s. conc_run True (start_state open_forwarder) xs s \<and> xs \<noteq> [] \<and>
     cs_packet s \<noteq> PFailed \<and> cache_size (dp_cache (cs_dp s)) \<le> 10000"
proof -
  obtain k resp g out s q where r: "conc_run True (start_state open_forwarder)
      (([Internal, Internal] @ Request sample_policy # replicate k Internal) @
       Reply sample_policy resp # [] @ Receive sample_query sample_client #
       [Internal, Decide (candidate sample_policy) 2 out] @ [Send out]) s"
    by (rule sample_conc_run)
  from interleavings_never_fail [OF r open_forwarder_idle] r show ?thesis by blast
qed

text \<open>
  Property C9 (requests take effect in order).  In every interleaving the worker answers the requests in the order
  they were read, each exactly as the sequential \<open>handle_command\<close> would after the ones before; when it is
  back in \<open>accept\<close> every request is answered and the shared manager is the one the sequential server
  has.  The main thread never changes it: the seed policy, tested after the socket is open, is refused
  whatever the worker does in between.
\<close>

theorem control_replies_are_sequential:
  assumes "conc_run quiet (start_state f) xs s" "pending_tx f = []"
  shows "replies xs = fst (serve_all init_manager (map fst (replies xs))) \<and>
    prefix (map fst (replies xs)) (requests xs) \<and>
    (cs_worker s = KAccepting \<longrightarrow> serve_all init_manager (requests xs) = (replies xs, manager s))"
proof -
  let ?up = "upstream_addr f"
  have start: "conc_inv UNIV UNIV ?up init_manager (start_state f)" by (rule start_conc_inv [OF assms(2)])
  note r = run_replies [OF assms(1) start]
  have "in_progress (cs_worker (start_state f)) = []" by (simp add: start_state_def in_progress_def)
  note q = run_requests [OF assms(1) this]
  have "conc_inv UNIV UNIV ?up (answered_all xs init_manager) s"
    by (rule run_conc_inv [OF assms(1) start]) simp_all
  then have "cs_worker s = KAccepting \<Longrightarrow> manager s = answered_all xs init_manager"
    by (simp add: conc_inv_def worker_ok_def)
  with r q show ?thesis by (auto simp: in_progress_def)
qed

theorem control_replies_are_sequential_witness:
  "\<exists>xs s. conc_run True (start_state open_forwarder) xs s \<and> requests xs = [sample_policy] \<and>
     replies xs = fst (serve_all init_manager [sample_policy])"
proof -
  obtain k resp g out s q where r: "conc_run True (start_state open_forwarder)
      (([Internal, Internal] @ Request sample_policy # replicate k Internal) @
       Reply sample_policy resp # [] @ Receive sample_query sample_client #
       [Internal, Decide (candidate sample_policy) 2 out] @ [Send out]) s"
    by (rule sample_conc_run)
  let ?xs = "([Internal, Internal] @ Request sample_policy # replicate k Internal) @
       Reply sample_policy resp # [] @ Receive sample_query sample_client #
       [Internal, Decide (candidate sample_policy) 2 out] @ [Send out]"
  have "concat (replicate k ([] :: string list)) = []" "concat (replicate k ([] :: (string \<times> string) list)) = []"
    by (induction k) simp_all
  then have "requests ?xs = [sample_policy]" "replies ?xs = [(sample_policy, resp)]"
    by (simp_all add: requests_def replies_def)
  moreover have "replies ?xs = fst (serve_all init_manager (map fst (replies ?xs)))"
    using control_replies_are_sequential [OF r open_forwarder_idle] by blast
  ultimately show ?thesis using r by (intro exI [of _ ?xs] exI [of _ s]) simp
qed

text \<open>
  Further fact (the sequential model is one schedule).  Every run of theory \<open>Dataplane\<close>, where an update is one
  step between two turns of the loop, is an interleaving of the two threads, with the same datagrams sent.
\<close>

theorem sequential_run_is_interleaving:
  assumes "dp_run draws quiet evs (startup f) = Some (out, d)" "recurring draws"
  shows "\<exists>xs s. conc_run quiet (start_state f) xs s \<and> cs_dp s = d \<and> sent_by xs = out"
  using sequential_interleaving [OF assms] by blast

theorem sequential_run_is_interleaving_witness:
  "\<exists>out d xs s. dp_run word_of_nat True sinkhole_turns (startup open_forwarder) = Some (out, d) \<and>
     conc_run True (start_state open_forwarder) xs s \<and> cs_dp s = d \<and> sent_by xs = out"
proof -
  obtain out d b where d: "dp_run word_of_nat True sinkhole_turns (startup open_forwarder) = Some (out, d)"
    using sinkhole_run by blast
  from sequential_run_is_interleaving [OF d recurring_word_of_nat] d show ?thesis by blast
qed

end
