(* ===== verification/Json_Text.thy ===== *)
theory Json_Text
  imports Decimal
begin

text \<open>
  JSON text as the package \<open>encoding/json\<close> of Go 1.22 writes and reads it: what \<open>controlplane/main.go\<close> uses to
  build a request and to take a response apart.  A Go string is the list of its bytes; strings are taken
  to be valid UTF-8, so that no byte is replaced.
\<close>

section \<open>Strings, written\<close>

abbreviation double_quote :: char where
  "double_quote \<equiv> CHR 0x22"

abbreviation backslash :: char where
  "backslash \<equiv> CHR 0x5C"

definition hex_digit :: "nat \<Rightarrow> char" where
  "hex_digit d = char_of (if d < 10 then 48 + d else 87 + d)"

definition escape_char :: "char \<Rightarrow> string" where
  "escape_char c =
     (if c = double_quote \<or> c = backslash then [backslash, c]
      else if c = CHR 0x08 then [backslash, CHR ''b'']
      else if c = CHR 0x0C then [backslash, CHR ''f'']
      else if c = CHR 0x0A then [backslash, CHR ''n'']
      else if c = CHR 0x0D then [backslash, CHR ''r'']
      else if c = CHR 0x09 then [backslash, CHR ''t'']
      else if (of_char c :: nat) < 0x20 \<or> c = CHR ''<'' \<or> c = CHR ''>'' \<or> c = CHR ''&'' then
        [backslash, CHR ''u'', CHR ''0'', CHR ''0'', hex_digit (of_char c div 16), hex_digit (of_char c mod 16)]
      else [c])"

text \<open>The line separators U+2028 and U+2029 in UTF-8; they are escaped too.\<close>

definition line_separator :: string where
  "line_separator = [CHR 0xE2, CHR 0x80, CHR 0xA8]"

definition paragraph_separator :: string where
  "paragraph_separator = [CHR 0xE2, CHR 0x80, CHR 0xA9]"

fun go_escape :: "string \<Rightarrow> string" where
  "go_escape [] = []"
| "go_escape (c # s) =
     (if prefix line_separator (c # s) then backslash # ''u2028'' @ go_escape (drop 2 s)
      else if prefix paragraph_separator (c # s) then backslash # ''u2029'' @ go_escape (drop 2 s)
      else escape_char c @ go_escape s)"

declare go_escape.simps [simp del]

section \<open>Strings, read\<close>

definition hex_value :: "char \<Rightarrow> nat option" where
  "hex_value c =
     (let n = of_char c :: nat in
      if 48 \<le> n \<and> n \<le> 57 then Some (n - 48)
      else if 97 \<le> n \<and> n \<le> 102 then Some (n - 87)
      else if 65 \<le> n \<and> n \<le> 70 then Some (n - 55)
      else None)"

definition hex4 :: "string \<Rightarrow> nat option" where
  "hex4 s =
     (case s of
        a # b # c # d # _ \<Rightarrow>
          (case (hex_value a, hex_value b, hex_value c, hex_value d) of
             (Some w, Some x, Some y, Some z) \<Rightarrow> Some (((w * 16 + x) * 16 + y) * 16 + z)
           | _ \<Rightarrow> None)
      | _ \<Rightarrow> None)"

definition utf8 :: "nat \<Rightarrow> string" where
  "utf8 r =
     (if r < 0x80 then [char_of r]
      else if r < 0x800 then [char_of (0xC0 + r div 64), char_of (0x80 + r mod 64)]
      else if r < 0x10000 then
        [char_of (0xE0 + r div 4096), char_of (0x80 + r div 64 mod 64), char_of (0x80 + r mod 64)]
      else
        [char_of (0xF0 + r div 262144), char_of (0x80 + r div 4096 mod 64),
         char_of (0x80 + r div 64 mod 64), char_of (0x80 + r mod 64)])"

definition unescape :: "char \<Rightarrow> char option" where
  "unescape c =
     (if c = double_quote \<or> c = backslash \<or> c = CHR ''/'' then Some c
      else if c = CHR ''b'' then Some (CHR 0x08)
      else if c = CHR ''f'' then Some (CHR 0x0C)
      else if c = CHR ''n'' then Some (CHR 0x0A)
      else if c = CHR ''r'' then Some (CHR 0x0D)
      else if c = CHR ''t'' then Some (CHR 0x09)
      else None)"

text \<open>The low half of a surrogate pair, when the text goes on with one; a lone half becomes U+FFFD.\<close>

definition low_half :: "nat \<Rightarrow> string \<Rightarrow> nat option" where
  "low_half r s =
     (if 0xD800 \<le> r \<and> r < 0xDC00 \<and> prefix [backslash, CHR ''u''] s then
        (case hex4 (drop 2 s) of
           Some l \<Rightarrow> if 0xDC00 \<le> l \<and> l < 0xE000 then Some l else None
         | None \<Rightarrow> None)
      else None)"

definition rune_bytes :: "nat \<Rightarrow> string" where
  "rune_bytes r = utf8 (if 0xD800 \<le> r \<and> r < 0xE000 then 0xFFFD else r)"

definition prepend :: "string \<Rightarrow> (string \<times> string) option \<Rightarrow> (string \<times> string) option" where
  "prepend t = map_option (apfst ((@) t))"

lemma prepend_simps [simp]: "prepend t None = None" "prepend t (Some (u, r)) = Some (t @ u, r)"
  by (simp_all add: prepend_def)

text \<open>The text after the opening quote: the contents and what follows the closing quote.\<close>

function lex_string :: "string \<Rightarrow> (string \<times> string) option" where
  "lex_string s =
     (case s of
        [] \<Rightarrow> None
      | c # s1 \<Rightarrow>
          if c = double_quote then Some ([], s1)
          else if c = backslash then
            (case s1 of
               [] \<Rightarrow> None
             | d # s2 \<Rightarrow>
                 if d = CHR ''u'' then
                   (case hex4 s2 of
                      None \<Rightarrow> None
                    | Some r \<Rightarrow>
                        (case low_half r (drop 4 s2) of
                           Some l \<Rightarrow> prepend (utf8 (0x10000 + (r - 0xD800) * 1024 + (l - 0xDC00))) (lex_string (drop 10 s2))
                         | None \<Rightarrow> prepend (rune_bytes r) (lex_string (drop 4 s2))))
                 else
                   (case unescape d of
                      None \<Rightarrow> None
                    | Some e \<Rightarrow> prepend [e] (lex_string s2)))
          else if (of_char c :: nat) < 0x20 then None
          else prepend [c] (lex_string s1))"
  by pat_completeness auto
termination by (relation "measure length") auto

declare lex_string.simps [simp del]

lemma lex_string_Nil [simp]: "lex_string [] = None"
  by (subst lex_string.simps) simp

lemma prepend_Some: "prepend t x = Some (u, r) \<longleftrightarrow> (\<exists>v. x = Some (v, r) \<and> u = t @ v)"
  by (cases x) (auto simp: prepend_def)

lemma lex_string_rest: "lex_string s = Some (t, r) \<Longrightarrow> length r < length s"
proof (induction "length s" arbitrary: s t rule: less_induct)
  case less
  have IH: "length r < n" if "lex_string s' = Some (v, r)" "length s' < length s" "length s' \<le> n" for s' v n
    using less.hyps [OF that(2,1)] that(3) by simp
  from less.prems show ?case
    by (subst (asm) lex_string.simps)
      (auto split: list.splits if_splits option.splits simp: prepend_Some intro: IH less_SucI)
qed

section \<open>Tokens\<close>

datatype token =
    TObjOpen | TObjClose | TArrOpen | TArrClose | TComma | TColon
  | TStr string | TNum string | TTrue | TFalse | TNull

definition json_space :: "char \<Rightarrow> bool" where
  "json_space c \<longleftrightarrow> c \<in> {CHR 0x20, CHR 0x09, CHR 0x0A, CHR 0x0D}"

definition number_char :: "char \<Rightarrow> bool" where
  "number_char c \<longleftrightarrow> is_digit c \<or> c \<in> {CHR ''-'', CHR ''+'', CHR ''.'', CHR ''e'', CHR ''E''}"

definition valid_exponent :: "string \<Rightarrow> bool" where
  "valid_exponent s \<longleftrightarrow>
     (case s of
        [] \<Rightarrow> True
      | c # t \<Rightarrow> (c = CHR ''e'' \<or> c = CHR ''E'') \<and>
          (let ds = (case t of d # u \<Rightarrow> if d = CHR ''+'' \<or> d = CHR ''-'' then u else t | [] \<Rightarrow> t)
           in ds \<noteq> [] \<and> list_all is_digit ds))"

definition valid_fraction :: "string \<Rightarrow> bool" where
  "valid_fraction s \<longleftrightarrow>
     (case s of
        [] \<Rightarrow> True
      | c # t \<Rightarrow>
          if c = CHR ''.'' then takeWhile is_digit t \<noteq> [] \<and> valid_exponent (dropWhile is_digit t)
          else valid_exponent s)"

text \<open>A minus sign, an integer without leading zeros, a fraction and an exponent.\<close>

definition valid_number :: "string \<Rightarrow> bool" where
  "valid_number lit \<longleftrightarrow>
     (let s = (case lit of c # t \<Rightarrow> if c = CHR ''-'' then t else lit | [] \<Rightarrow> lit);
          ds = takeWhile is_digit s
      in ds \<noteq> [] \<and> (hd ds = CHR ''0'' \<longrightarrow> length ds = 1) \<and> valid_fraction (dropWhile is_digit s))"

definition punctuation :: "char \<Rightarrow> token option" where
  "punctuation c =
     (if c = CHR ''{'' then Some TObjOpen
      else if c = CHR ''}'' then Some TObjClose
      else if c = CHR ''['' then Some TArrOpen
      else if c = CHR '']'' then Some TArrClose
      else if c = CHR '','' then Some TComma
      else if c = CHR '':'' then Some TColon
      else None)"

definition token_then :: "token \<Rightarrow> token list option \<Rightarrow> token list option" where
  "token_then t = map_option (Cons t)"

lemma token_then_simps [simp]: "token_then t None = None" "token_then t (Some ts) = Some (t # ts)"
  by (simp_all add: token_then_def)

function lex_json :: "string \<Rightarrow> token list option" where
  "lex_json s =
     (case s of
        [] \<Rightarrow> Some []
      | c # s1 \<Rightarrow>
          if json_space c then lex_json s1
          else if c = double_quote then
            (case lex_string s1 of None \<Rightarrow> None | Some (t, r) \<Rightarrow> token_then (TStr t) (lex_json r))
          else if c = CHR ''-'' \<or> is_digit c then
            (if valid_number (takeWhile number_char s)
             then token_then (TNum (takeWhile number_char s)) (lex_json (dropWhile number_char s1)) else None)
          else if prefix ''true'' s then token_then TTrue (lex_json (drop 3 s1))
          else if prefix ''false'' s then token_then TFalse (lex_json (drop 4 s1))
          else if prefix ''null'' s then token_then TNull (lex_json (drop 3 s1))
          else (case punctuation c of None \<Rightarrow> None | Some t \<Rightarrow> token_then t (lex_json s1)))"
  by pat_completeness auto
termination
proof (relation "measure length")
  show "(dropWhile number_char s1, s) \<in> measure length" if "s = c # s1" for s1 s c
    using that length_dropWhile_le [of number_char s1] by simp
qed (auto dest: lex_string_rest)

declare lex_json.simps [simp del]

section \<open>Values\<close>

datatype json =
    JNull
  | JBool bool
  | JNumber string
  | JString string
  | JArray "json list"
  | JObject "(string \<times> json) list"

text \<open>
  The scanner of the package is a machine with a stack: here the values that are open, with their parts
  so far, and what may come next.  An object is open with the key whose value is read.
\<close>

datatype frame =
    InArray "json list"
  | InObject "(string \<times> json) list" string

datatype scan =
    WantValue
  | FirstValue
  | FirstKey
  | WantKey
  | WantColon
  | Got json

fun scalar :: "token \<Rightarrow> json option" where
  "scalar (TStr t) = Some (JString t)"
| "scalar (TNum t) = Some (JNumber t)"
| "scalar TTrue = Some (JBool True)"
| "scalar TFalse = Some (JBool False)"
| "scalar TNull = Some JNull"
| "scalar _ = None"

definition start_value :: "frame list \<Rightarrow> token \<Rightarrow> (frame list \<times> scan) option" where
  "start_value fs t =
     (if t = TObjOpen then Some (InObject [] [] # fs, FirstKey)
      else if t = TArrOpen then Some (InArray [] # fs, FirstValue)
      else map_option (\<lambda>v. (fs, Got v)) (scalar t))"

definition start_key :: "frame list \<Rightarrow> token \<Rightarrow> (frame list \<times> scan) option" where
  "start_key fs t =
     (case (fs, t) of
        (InObject ms k # fs', TStr k') \<Rightarrow> Some (InObject ms k' # fs', WantColon)
      | _ \<Rightarrow> None)"

fun scan_token :: "frame list \<times> scan \<Rightarrow> token \<Rightarrow> (frame list \<times> scan) option" where
  "scan_token (fs, WantValue) t = start_value fs t"
| "scan_token (fs, FirstValue) t = (if t = TArrClose then Some (tl fs, Got (JArray [])) else start_value fs t)"
| "scan_token (fs, FirstKey) t = (if t = TObjClose then Some (tl fs, Got (JObject [])) else start_key fs t)"
| "scan_token (fs, WantKey) t = start_key fs t"
| "scan_token (fs, WantColon) t = (if t = TColon then Some (fs, WantValue) else None)"
| "scan_token (InArray vs # fs, Got v) t =
     (if t = TComma then Some (InArray (vs @ [v]) # fs, WantValue)
      else if t = TArrClose then Some (fs, Got (JArray (vs @ [v])))
      else None)"
| "scan_token (InObject ms k # fs, Got v) t =
     (if t = TComma then Some (InObject (ms @ [(k, v)]) k # fs, WantKey)
      else if t = TObjClose then Some (fs, Got (JObject (ms @ [(k, v)])))
      else None)"
| "scan_token ([], Got v) t = None"

fun scan_tokens :: "frame list \<times> scan \<Rightarrow> token list \<Rightarrow> json option" where
  "scan_tokens st [] = (case st of ([], Got v) \<Rightarrow> Some v | _ \<Rightarrow> None)"
| "scan_tokens st (t # ts) = (case scan_token st t of None \<Rightarrow> None | Some st' \<Rightarrow> scan_tokens st' ts)"

definition parse_json :: "string \<Rightarrow> json option" where
  "parse_json s = (case lex_json s of None \<Rightarrow> None | Some ts \<Rightarrow> scan_tokens ([], WantValue) ts)"

section \<open>Reading back a string\<close>

lemma lex_string_steps:
  "lex_string (double_quote # s) = Some ([], s)"
  "c \<noteq> double_quote \<Longrightarrow> c \<noteq> backslash \<Longrightarrow> 32 \<le> (of_char c :: nat) \<Longrightarrow> lex_string (c # s) = prepend [c] (lex_string s)"
  "d \<noteq> CHR ''u'' \<Longrightarrow> unescape d = Some e \<Longrightarrow> lex_string (backslash # d # s) = prepend [e] (lex_string s)"
  "hex4 s = Some r \<Longrightarrow> r < 0xD800 \<Longrightarrow> lex_string (backslash # CHR ''u'' # s) = prepend (utf8 r) (lex_string (drop 4 s))"
  by (subst lex_string.simps, simp add: low_half_def rune_bytes_def)+

lemma hex_value_hex_digit: "d < 16 \<Longrightarrow> hex_value (hex_digit d) = Some d"
  by (auto simp: hex_value_def hex_digit_def Let_def)

lemma hex4_control: "n < 256 \<Longrightarrow> hex4 (CHR ''0'' # CHR ''0'' # hex_digit (n div 16) # hex_digit (n mod 16) # s) = Some n"
proof -
  assume "n < 256"
  then have "n div 16 < 16" by simp
  moreover have "hex_value CHR ''0'' = Some 0" by (simp add: hex_value_def)
  ultimately show ?thesis by (simp add: hex4_def hex_value_hex_digit)
qed

lemma lex_escape_char: "lex_string (escape_char c @ s) = prepend [c] (lex_string s)"
proof -
  have short: "lex_string (backslash # d # s) = prepend [e] (lex_string s)"
    if "d \<noteq> CHR ''u''" "unescape d = Some e" for d e
    using that by (rule lex_string_steps(3))
  have ctl: "lex_string (backslash # CHR ''u'' # CHR ''0'' # CHR ''0'' # hex_digit (of_char c div 16) #
      hex_digit (of_char c mod 16) # s) = prepend [c] (lex_string s)" if "(of_char c :: nat) < 128"
    using lex_string_steps(4) [OF hex4_control [of "of_char c" s]] that by (simp add: utf8_def)
  show ?thesis
  proof (cases "c \<in> {double_quote, backslash, CHR 0x08, CHR 0x0C, CHR 0x0A, CHR 0x0D, CHR 0x09}")
    case True
    then show ?thesis by (elim insertE emptyE) (simp_all add: escape_char_def short unescape_def)
  next
    case False
    show ?thesis
    proof (cases "(of_char c :: nat) < 0x20 \<or> c \<in> {CHR ''<'', CHR ''>'', CHR ''&''}")
      case True
      then have "(of_char c :: nat) < 128" by auto
      with True False show ?thesis by (simp add: escape_char_def ctl)
    next
      case 3: False
      with False show ?thesis by (simp add: escape_char_def lex_string_steps(2))
    qed
  qed
qed

lemma lex_separators:
  "lex_string (backslash # ''u2028'' @ s) = prepend line_separator (lex_string s)"
  "lex_string (backslash # ''u2029'' @ s) = prepend paragraph_separator (lex_string s)"
proof -
  have v: "hex_value CHR ''2'' = Some 2" "hex_value CHR ''0'' = Some 0" "hex_value CHR ''8'' = Some 8"
    "hex_value CHR ''9'' = Some 9"
    by (simp_all add: hex_value_def)
  have h: "hex4 (''2028'' @ s) = Some 0x2028" "hex4 (''2029'' @ s) = Some 0x2029"
    by (simp_all add: hex4_def v)
  have u: "utf8 0x2028 = line_separator" "utf8 0x2029 = paragraph_separator"
    by (simp_all add: utf8_def line_separator_def paragraph_separator_def char_of_def bit_0)
  have d: "drop 4 (''2028'' @ s) = s" "drop 4 (''2029'' @ s) = s" by simp_all
  show "lex_string (backslash # ''u2028'' @ s) = prepend line_separator (lex_string s)"
    using lex_string_steps(4) [OF h(1)] unfolding u d by simp
  show "lex_string (backslash # ''u2029'' @ s) = prepend paragraph_separator (lex_string s)"
    using lex_string_steps(4) [OF h(2)] unfolding u d by simp
qed

text \<open>Further fact (strings round-trip). What \<open>json.Marshal\<close> writes for a string is read back as that string, and the
  text after its closing quote is left.\<close>

theorem lex_go_escape: "lex_string (go_escape s @ double_quote # r) = Some (s, r)"
proof (induction s rule: go_escape.induct)
  case (2 c s)
  have sep: "c # s = t @ drop 2 s" if pre: "prefix t (c # s)" and len: "length t = 3" for t
  proof -
    obtain u where u: "c # s = t @ u" using pre by (auto simp: prefix_def)
    then have "drop (length t) (c # s) = u" by (metis append_eq_conv_conj)
    then have "drop 2 s = u" by (simp add: len)
    with u show ?thesis by simp
  qed
  consider "prefix line_separator (c # s)"
    | "\<not> prefix line_separator (c # s)" "prefix paragraph_separator (c # s)"
    | "\<not> prefix line_separator (c # s)" "\<not> prefix paragraph_separator (c # s)" by blast
  then show ?case
  proof cases
    case 1
    with "2.IH"(1) sep [OF 1] lex_separators(1) [of "go_escape (drop 2 s) @ double_quote # r"] show ?thesis
      by (simp add: go_escape.simps line_separator_def)
  next
    case b: 2
    with "2.IH"(2) sep [OF b(2)] lex_separators(2) [of "go_escape (drop 2 s) @ double_quote # r"] show ?thesis
      by (simp add: go_escape.simps paragraph_separator_def)
  next
    case 3
    with "2.IH"(3) lex_escape_char [of c "go_escape s @ double_quote # r"] show ?thesis
      by (simp add: go_escape.simps)
  qed
qed (simp add: lex_string_steps go_escape.simps)

section \<open>Reading back a text\<close>

named_theorems lex_simps

lemma lex_Nil [lex_simps]: "lex_json [] = Some []"
  by (subst lex_json.simps) simp

lemma lex_space: "json_space c \<Longrightarrow> lex_json (c # s) = lex_json s"
  by (subst lex_json.simps) simp

lemma lex_punctuations [lex_simps]:
  "lex_json (CHR ''{'' # s) = token_then TObjOpen (lex_json s)" "lex_json (CHR ''}'' # s) = token_then TObjClose (lex_json s)"
  "lex_json (CHR '','' # s) = token_then TComma (lex_json s)" "lex_json (CHR '':'' # s) = token_then TColon (lex_json s)"
  by (subst lex_json.simps, simp add: punctuation_def json_space_def is_digit_def)+

lemma lex_newline [lex_simps]: "lex_json (CHR 0x0A # s) = lex_json s"
  by (rule lex_space) (simp add: json_space_def)

lemma lex_quoted: "lex_json (double_quote # go_escape t @ double_quote # s) = token_then (TStr t) (lex_json s)"
  by (subst lex_json.simps) (simp add: json_space_def lex_go_escape)

lemma dec_string_leading: "n \<noteq> 0 \<Longrightarrow> hd (dec_string n) \<noteq> CHR ''0''"
proof (induction n rule: dec_string.induct)
  case (1 n)
  show ?case
  proof (cases "n < 10")
    case True
    have "digit_char n \<noteq> CHR ''0''" using True "1.prems" of_char_digit [OF True] by (auto simp del: of_char_digit)
    with True show ?thesis by (subst dec_string.simps) simp
  next
    case False
    with "1.IH" show ?thesis by (subst dec_string.simps) (simp add: hd_append)
  qed
qed

lemma valid_number_dec_string: "valid_number (dec_string n)"
proof -
  have digits: "takeWhile is_digit (dec_string n) = dec_string n" "dropWhile is_digit (dec_string n) = []"
    using dec_string_digits [of n] by (simp_all add: takeWhile_eq_all_conv dropWhile_eq_Nil_conv)
  obtain c s where cs: "dec_string n = c # s" by (cases "dec_string n") auto
  have "c \<noteq> CHR ''-''" "is_digit c" using dec_string_digits [of n] cs by auto
  moreover have "length (c # s) = 1" if "c = CHR ''0''"
  proof -
    have "n = 0" using that dec_string_leading [of n] cs by auto
    then show ?thesis using cs by (subst (asm) dec_string.simps) simp
  qed
  moreover have "is_digit CHR ''0''" by (simp add: is_digit_def)
  moreover have "valid_fraction (dropWhile is_digit (dec_string n))"
    unfolding digits(2) by (simp add: valid_fraction_def)
  ultimately have "takeWhile is_digit (dec_string n) \<noteq> [] \<and>
      (hd (takeWhile is_digit (dec_string n)) = CHR ''0'' \<longrightarrow> length (takeWhile is_digit (dec_string n)) = 1) \<and>
      valid_fraction (dropWhile is_digit (dec_string n))"
    unfolding digits(1) cs by simp
  moreover have "(case dec_string n of [] \<Rightarrow> dec_string n | c # t \<Rightarrow> if c = CHR ''-'' then t else dec_string n) = dec_string n"
    using cs \<open>c \<noteq> CHR ''-''\<close> by simp
  ultimately show ?thesis unfolding valid_number_def Let_def by (simp only:) blast
qed

lemma lex_dec_string:
  assumes "s = [] \<or> \<not> number_char (hd s)"
  shows "lex_json (dec_string n @ s) = token_then (TNum (dec_string n)) (lex_json s)"
proof -
  obtain c t where ct: "dec_string n = c # t" by (cases "dec_string n") auto
  have num: "\<forall>x \<in> set (c # t). number_char x" using dec_string_digits [of n] ct by (auto simp: number_char_def)
  then have "takeWhile number_char (c # t @ s) = c # t" "dropWhile number_char (t @ s) = s"
    using assms by (cases s; simp add: takeWhile_append dropWhile_append)+
  moreover have "is_digit c" using dec_string_digits [of n] ct by simp
  moreover have "\<not> json_space c" "c \<noteq> double_quote" using \<open>is_digit c\<close> by (auto simp: json_space_def is_digit_def)
  ultimately show ?thesis using valid_number_dec_string [of n] ct by (subst ct, subst lex_json.simps) simp
qed

end
