(* ===== verification/Control_Plane.thy ===== *)
theory Control_Plane
  imports Json_Text Ipc
begin

text \<open>
  The control plane (\<open>controlplane/main.go\<close>): the request it sends over the control socket, what it makes of the
  response, its HTTP handlers and its two counters.  What the socket does with the bytes of a request is an
  argument of the handlers; \<open>dataplane_exchange\<close> is the data plane of theory \<open>Ipc\<close> behind it, with the size of
  the socket's buffer as a parameter, since a request can be longer than what the data plane reads.  The body of a
  POST comes decoded; a reply is its status code and the values in its body, not their JSON text.
\<close>

section \<open>Messages\<close>

record policy_body =
  pb_generation :: u64
  pb_version_hash :: string
  pb_suffix_blocks :: "string list"
  pb_exact_blocks :: "string list"
  pb_allowlist :: "string list"

record ipc_message =
  im_command :: string
  im_generation :: u64
  im_version_hash :: string
  im_suffix_blocks :: "string list"
  im_exact_blocks :: "string list"
  im_allowlist :: "string list"

record ipc_reply =
  ir_status :: string
  ir_active_generation :: u64
  ir_generation :: u64
  ir_version_hash :: string
  ir_rule_count :: int
  ir_error :: string

definition status_message :: ipc_message where
  "status_message = \<lparr>im_command = ''GET_STATUS'', im_generation = 0, im_version_hash = [], im_suffix_blocks = [],
     im_exact_blocks = [], im_allowlist = []\<rparr>"

definition apply_message :: "policy_body \<Rightarrow> ipc_message" where
  "apply_message p = \<lparr>im_command = ''APPLY_POLICY'', im_generation = pb_generation p,
     im_version_hash = pb_version_hash p, im_suffix_blocks = pb_suffix_blocks p,
     im_exact_blocks = pb_exact_blocks p, im_allowlist = pb_allowlist p\<rparr>"

definition empty_reply :: ipc_reply where
  "empty_reply = \<lparr>ir_status = [], ir_active_generation = 0, ir_generation = 0, ir_version_hash = [],
     ir_rule_count = 0, ir_error = []\<rparr>"

text \<open>\<open>json.Marshal\<close> of an \<open>IpcRequest\<close>: every field but the command is left out when it is empty.\<close>

definition marshal_message :: "ipc_message \<Rightarrow> string" where
  "marshal_message r =
     ''{'' @ quoted ''command'' @ '':'' @ quoted (go_escape (im_command r)) @
     number_field ''generation'' (unat (im_generation r)) @
     string_field ''version_hash'' (go_escape (im_version_hash r)) @
     array_field ''suffix_blocks'' (map go_escape (im_suffix_blocks r)) @
     array_field ''exact_blocks'' (map go_escape (im_exact_blocks r)) @
     array_field ''allowlist'' (map go_escape (im_allowlist r)) @ ''}''"

text \<open>\<open>json.Unmarshal\<close> into an \<open>IpcResponse\<close>; \<open>None\<close> is an error.  \<open>null\<close> leaves a field as it is, an unknown
  name is skipped, letter case of a name does not matter.\<close>

definition parse_uint :: "string \<Rightarrow> u64 option" where
  "parse_uint lit =
     (if list_all is_digit lit \<and> dec_value lit < 2 ^ 64 then Some (word_of_nat (dec_value lit)) else None)"

definition parse_int :: "string \<Rightarrow> int option" where
  "parse_int lit =
     (case lit of
        [] \<Rightarrow> None
      | c # ds \<Rightarrow>
          if c = CHR ''-'' then
            (if list_all is_digit ds \<and> dec_value ds \<le> 2 ^ 63 then Some (- int (dec_value ds)) else None)
          else (if list_all is_digit lit \<and> dec_value lit < 2 ^ 63 then Some (int (dec_value lit)) else None))"

definition decode_string :: "string \<Rightarrow> json \<Rightarrow> string option" where
  "decode_string old v = (case v of JString s \<Rightarrow> Some s | JNull \<Rightarrow> Some old | _ \<Rightarrow> None)"

definition decode_uint64 :: "u64 \<Rightarrow> json \<Rightarrow> u64 option" where
  "decode_uint64 old v = (case v of JNumber lit \<Rightarrow> parse_uint lit | JNull \<Rightarrow> Some old | _ \<Rightarrow> None)"

definition decode_int :: "int \<Rightarrow> json \<Rightarrow> int option" where
  "decode_int old v = (case v of JNumber lit \<Rightarrow> parse_int lit | JNull \<Rightarrow> Some old | _ \<Rightarrow> None)"

definition decode_field :: "ipc_reply \<Rightarrow> string \<times> json \<Rightarrow> ipc_reply option" where
  "decode_field r m =
     (let k = map tolower (fst m); v = snd m in
      if k = ''status'' then map_option (\<lambda>x. r\<lparr>ir_status := x\<rparr>) (decode_string (ir_status r) v)
      else if k = ''active_generation'' then
        map_option (\<lambda>x. r\<lparr>ir_active_generation := x\<rparr>) (decode_uint64 (ir_active_generation r) v)
      else if k = ''generation'' then map_option (\<lambda>x. r\<lparr>ir_generation := x\<rparr>) (decode_uint64 (ir_generation r) v)
      else if k = ''version_hash'' then
        map_option (\<lambda>x. r\<lparr>ir_version_hash := x\<rparr>) (decode_string (ir_version_hash r) v)
      else if k = ''rule_count'' then map_option (\<lambda>x. r\<lparr>ir_rule_count := x\<rparr>) (decode_int (ir_rule_count r) v)
      else if k = ''error'' then map_option (\<lambda>x. r\<lparr>ir_error := x\<rparr>) (decode_string (ir_error r) v)
      else Some r)"

fun decode_fields :: "ipc_reply \<Rightarrow> (string \<times> json) list \<Rightarrow> ipc_reply option" where
  "decode_fields r [] = Some r"
| "decode_fields r (m # ms) = (case decode_field r m of None \<Rightarrow> None | Some r' \<Rightarrow> decode_fields r' ms)"

definition unmarshal_reply :: "string \<Rightarrow> ipc_reply option" where
  "unmarshal_reply s =
     (case parse_json s of
        Some (JObject ms) \<Rightarrow> decode_fields empty_reply ms
      | Some JNull \<Rightarrow> Some empty_reply
      | _ \<Rightarrow> None)"

section \<open>One command over the socket\<close>

text \<open>What becomes of the bytes written: a failure of the system, or the bytes of the first \<open>Read\<close>.\<close>

datatype transport =
    DialFailed string
  | WriteFailed string
  | ReadFailed string
  | Delivered string

datatype go_error =
    FailedToConnect string string
  | WriteError string
  | ReadError string
  | InvalidResponse

definition send_ipc_command ::
    "string \<Rightarrow> (string \<Rightarrow> 'w \<Rightarrow> transport \<times> 'w) \<Rightarrow> ipc_message \<Rightarrow> 'w \<Rightarrow> (go_error + ipc_reply) \<times> 'w" where
  "send_ipc_command path exchange req w =
     (let (t, w') = exchange (marshal_message req @ newline) w in
      (case t of
         DialFailed e \<Rightarrow> Inl (FailedToConnect path e)
       | WriteFailed e \<Rightarrow> Inl (WriteError e)
       | ReadFailed e \<Rightarrow> Inl (ReadError e)
       | Delivered text \<Rightarrow>
           (case unmarshal_reply (take 8192 text) of
              None \<Rightarrow> Inl InvalidResponse
            | Some r \<Rightarrow> Inr r), w'))"

section \<open>Handlers\<close>

record counters =
  reloads_total :: u64
  reload_failures_total :: u64

datatype reply_body =
    NoBody
  | ErrorText string
  | ErrorBody go_error
  | MalformedBody string
  | Unhealthy go_error
  | Healthy u64 string int
  | MetricsText string
  | StatusBody ipc_reply
  | Activated u64 string
  | Rollback string u64

record http_reply =
  status_code :: nat
  reply_body :: reply_body

definition fail_with :: "nat \<Rightarrow> reply_body \<Rightarrow> counters \<Rightarrow> 'w \<Rightarrow> http_reply \<times> counters \<times> 'w" where
  "fail_with code b cs w =
     (\<lparr>status_code = code, reply_body = b\<rparr>, cs\<lparr>reload_failures_total := reload_failures_total cs + 1\<rparr>, w)"

text \<open>The body is the error of the JSON decoder or the decoded policy.\<close>

definition post_policy ::
    "string \<Rightarrow> (string \<Rightarrow> 'w \<Rightarrow> transport \<times> 'w) \<Rightarrow> string + policy_body \<Rightarrow> counters \<Rightarrow> 'w \<Rightarrow>
     http_reply \<times> counters \<times> 'w" where
  "post_policy path exchange body cs w =
     (let cs = cs\<lparr>reloads_total := reloads_total cs + 1\<rparr> in
      case body of
        Inl e \<Rightarrow> fail_with 400 (MalformedBody e) cs w
      | Inr p \<Rightarrow>
          if pb_generation p = 0 then fail_with 400 (ErrorText ''Generation must be > 0'') cs w
          else if pb_version_hash p = [] then fail_with 400 (ErrorText ''version_hash is required'') cs w
          else
            (case send_ipc_command path exchange (apply_message p) w of
               (Inl e, w) \<Rightarrow> fail_with 502 (ErrorBody e) cs w
             | (Inr r, w) \<Rightarrow>
                 if ir_status r = ''OK'' then
                   (\<lparr>status_code = 200, reply_body = Activated (ir_active_generation r) (ir_version_hash r)\<rparr>, cs, w)
                 else fail_with 400 (Rollback (ir_error r) (ir_active_generation r)) cs w))"

definition get_policies ::
    "string \<Rightarrow> (string \<Rightarrow> 'w \<Rightarrow> transport \<times> 'w) \<Rightarrow> 'w \<Rightarrow> http_reply \<times> 'w" where
  "get_policies path exchange w =
     (case send_ipc_command path exchange status_message w of
        (Inl e, w) \<Rightarrow> (\<lparr>status_code = 502, reply_body = ErrorBody e\<rparr>, w)
      | (Inr r, w) \<Rightarrow> (\<lparr>status_code = 200, reply_body = StatusBody r\<rparr>, w))"

definition get_health ::
    "string \<Rightarrow> (string \<Rightarrow> 'w \<Rightarrow> transport \<times> 'w) \<Rightarrow> 'w \<Rightarrow> http_reply \<times> 'w" where
  "get_health path exchange w =
     (case send_ipc_command path exchange status_message w of
        (Inl e, w) \<Rightarrow> (\<lparr>status_code = 503, reply_body = Unhealthy e\<rparr>, w)
      | (Inr r, w) \<Rightarrow>
          (\<lparr>status_code = 200, reply_body = Healthy (ir_generation r) (ir_version_hash r) (ir_rule_count r)\<rparr>, w))"

definition metric :: "string \<Rightarrow> string \<Rightarrow> string \<Rightarrow> u64 \<Rightarrow> string" where
  "metric name help kind value =
     ''# HELP '' @ name @ '' '' @ help @ newline @ ''# TYPE '' @ name @ '' '' @ kind @ newline @
     name @ '' '' @ dec_string (unat value) @ newline"

definition metrics_text :: "counters \<Rightarrow> u64 \<Rightarrow> string" where
  "metrics_text cs gen =
     metric ''control_plane_reloads_total'' ''Total number of policy reload requests received'' ''counter''
       (reloads_total cs) @
     metric ''control_plane_reload_failures_total'' ''Total number of rejected policy updates'' ''counter''
       (reload_failures_total cs) @
     metric ''dataplane_active_generation'' ''Current active policy generation in C++ dataplane'' ''gauge'' gen"

definition get_metrics ::
    "string \<Rightarrow> (string \<Rightarrow> 'w \<Rightarrow> transport \<times> 'w) \<Rightarrow> counters \<Rightarrow> 'w \<Rightarrow> http_reply \<times> 'w" where
  "get_metrics path exchange cs w =
     (let (res, w') = send_ipc_command path exchange status_message w;
          gen = (case res of Inl e \<Rightarrow> 0 | Inr r \<Rightarrow> ir_generation r)
      in (\<lparr>status_code = 200, reply_body = MetricsText (metrics_text cs gen)\<rparr>, w'))"

datatype http_request =
    Health
  | Metrics
  | Policies string "string + policy_body"

text \<open>The routes; a method other than GET and POST on the policies is answered 405.\<close>

fun serve_http ::
    "string \<Rightarrow> (string \<Rightarrow> 'w \<Rightarrow> transport \<times> 'w) \<Rightarrow> http_request \<Rightarrow> counters \<Rightarrow> 'w \<Rightarrow> http_reply \<times> counters \<times> 'w" where
  "serve_http path exchange Health cs w = (let (r, w) = get_health path exchange w in (r, cs, w))"
| "serve_http path exchange Metrics cs w = (let (r, w) = get_metrics path exchange cs w in (r, cs, w))"
| "serve_http path exchange (Policies verb body) cs w =
     (if verb = ''GET'' then (let (r, w) = get_policies path exchange w in (r, cs, w))
      else if verb = ''POST'' then post_policy path exchange body cs w
      else (\<lparr>status_code = 405, reply_body = NoBody\<rparr>, cs, w))"

fun serve_requests ::
    "string \<Rightarrow> (string \<Rightarrow> 'w \<Rightarrow> transport \<times> 'w) \<Rightarrow> http_request list \<Rightarrow> counters \<Rightarrow> 'w \<Rightarrow>
     (http_request \<times> http_reply) list \<times> counters \<times> 'w" where
  "serve_requests path exchange [] cs w = ([], cs, w)"
| "serve_requests path exchange (q # qs) cs w =
     (let (r, cs, w) = serve_http path exchange q cs w;
          (rs, cs, w) = serve_requests path exchange qs cs w
      in ((q, r) # rs, cs, w))"

text \<open>
  The data plane at the other end: it reads once, answers at most once, and closes.  Of a longer request the
  socket still takes \<open>room\<close> bytes, its buffer; the write of one that is longer than that fails when
  the data plane closes, which has acted on the bytes it read.
\<close>

definition dataplane_exchange :: "nat \<Rightarrow> string \<Rightarrow> snapshot_manager \<Rightarrow> transport \<times> snapshot_manager" where
  "dataplane_exchange room data m =
     (let (r, m') = serve_connection data m
      in (if length data \<le> 8191 + room then Delivered (case r of None \<Rightarrow> [] | Some t \<Rightarrow> t)
          else WriteFailed ''broken pipe'', m'))"

section \<open>The request\<close>

lemma escaped_words [simp]:
  "go_escape ''APPLY_POLICY'' = ''APPLY_POLICY''" "go_escape ''GET_STATUS'' = ''GET_STATUS''"
  "go_escape ''status'' = ''status''" "go_escape ''OK'' = ''OK''" "go_escape ''REJECTED'' = ''REJECTED''"
  "go_escape ''error'' = ''error''"
  "go_escape ''active_generation'' = ''active_generation''" "go_escape ''generation'' = ''generation''"
  "go_escape ''version_hash'' = ''version_hash''" "go_escape ''rule_count'' = ''rule_count''"
  by code_simp+

lemma marshal_apply:
  "marshal_message (apply_message p) @ newline =
     policy_request (unat (pb_generation p)) (go_escape (pb_version_hash p)) (map go_escape (pb_suffix_blocks p))
       (map go_escape (pb_exact_blocks p)) (map go_escape (pb_allowlist p))"
  by (simp add: marshal_message_def apply_message_def policy_request_def)

lemma of_char_hex_digit: "d < 16 \<Longrightarrow> 0 < (of_char (hex_digit d) :: nat)"
  by (simp add: hex_digit_def)

lemma escape_char_safe: "x \<in> set (escape_char c) \<Longrightarrow> x \<noteq> CHR 0x00"
proof -
  have "of_char c div 16 < (16 :: nat)" using of_char_less_256 [of c] by linarith
  then have "list_all (\<lambda>x. of_char x \<noteq> (0 :: nat)) (escape_char c)"
    by (simp add: escape_char_def of_char_hex_digit)
  then show "x \<in> set (escape_char c) \<Longrightarrow> x \<noteq> CHR 0x00" by (auto simp: list_all_iff)
qed

lemma go_escape_no_nul: "CHR 0x00 \<notin> set (go_escape s)"
  by (induction s rule: go_escape.induct) (auto simp: go_escape.simps dest: escape_char_safe)

lemma escape_char_not_Nil: "escape_char c \<noteq> []"
  by (simp add: escape_char_def)

lemma go_escape_Nil_iff [simp]: "go_escape s = [] \<longleftrightarrow> s = []"
  by (cases s) (simp_all add: go_escape.simps escape_char_not_Nil)

lemma dec_string_no_nul: "CHR 0x00 \<notin> set (dec_string n)"
  using dec_string_digits [of n] by (auto simp: is_digit_def)

lemma commas_no_nul: "\<forall>x \<in> set xs. CHR 0x00 \<notin> set x \<Longrightarrow> CHR 0x00 \<notin> set (commas xs)"
  by (induction xs rule: commas.induct) auto

lemma array_field_no_nul:
  "CHR 0x00 \<notin> set k \<Longrightarrow> \<forall>x \<in> set xs. CHR 0x00 \<notin> set x \<Longrightarrow> CHR 0x00 \<notin> set (array_field k xs)"
  using commas_no_nul [of "map quoted xs"] by (auto simp: array_field_def quoted_def)

lemma marshal_no_nul: "CHR 0x00 \<notin> set (marshal_message r @ newline)"
proof -
  have "CHR 0x00 \<notin> set (array_field k (map go_escape xs))" if "CHR 0x00 \<notin> set k" for k xs
    using that go_escape_no_nul by (intro array_field_no_nul) auto
  then show ?thesis
    using go_escape_no_nul [of "im_command r"] go_escape_no_nul [of "im_version_hash r"] dec_string_no_nul
    by (simp add: marshal_message_def number_field_def string_field_def quoted_def newline_def)
qed

section \<open>The responses, read\<close>

lemma lex_word: "lex_json (quoted (go_escape t) @ s) = token_then (TStr t) (lex_json s)"
  using lex_quoted [of t s] by (simp add: quoted_def)

lemma lex_number_then:
  "lex_json (dec_string n @ CHR '','' # s) = token_then (TNum (dec_string n)) (lex_json (CHR '','' # s))"
  "lex_json (dec_string n @ CHR ''}'' # s) = token_then (TNum (dec_string n)) (lex_json (CHR ''}'' # s))"
  by (rule lex_dec_string, simp add: number_char_def is_digit_def)+

text \<open>A text without quote, backslash and control characters stands for itself.\<close>

definition plain_text :: "string \<Rightarrow> bool" where
  "plain_text t \<longleftrightarrow> (\<forall>c \<in> set t. c \<noteq> quote \<and> c \<noteq> backslash \<and> 32 \<le> (of_char c :: nat))"

lemma lex_plain_string: "plain_text t \<Longrightarrow> lex_string (t @ quote # s) = Some (t, s)"
  by (induction t) (simp_all add: plain_text_def lex_string_steps)

lemma lex_plain: "plain_text t \<Longrightarrow> lex_json (quoted t @ s) = token_then (TStr t) (lex_json s)"
  by (simp add: quoted_def, subst lex_json.simps) (simp add: json_space_def lex_plain_string)

text \<open>The texts of the data plane as sequences of tokens.\<close>

lemma accepted_parts:
  "accepted_text m hash = CHR ''{'' # quoted (go_escape ''status'') @ CHR '':'' # quoted (go_escape ''OK'') @ CHR '','' #
     quoted (go_escape ''active_generation'') @ CHR '':'' # dec_string (unat (global_generation m)) @ CHR '','' #
     quoted (go_escape ''version_hash'') @ CHR '':'' # quoted hash @ CHR ''}'' # CHR 0x0A # []"
  by (simp add: accepted_text_def quoted_def newline_def)

lemma rejected_parts:
  "rejected_text m err = CHR ''{'' # quoted (go_escape ''status'') @ CHR '':'' # quoted (go_escape ''REJECTED'') @ CHR '','' #
     quoted (go_escape ''error'') @ CHR '':'' # quoted err @ CHR '','' #
     quoted (go_escape ''active_generation'') @ CHR '':'' # dec_string (unat (global_generation m)) @ CHR ''}'' # CHR 0x0A # []"
  by (simp add: rejected_text_def quoted_def newline_def)

lemma status_parts:
  "status_text m = CHR ''{'' # quoted (go_escape ''status'') @ CHR '':'' # quoted (go_escape ''OK'') @ CHR '','' #
     quoted (go_escape ''generation'') @ CHR '':'' # dec_string (unat (global_generation m)) @ CHR '','' #
     quoted (go_escape ''version_hash'') @ CHR '':'' # quoted (version_hash (active_snapshot m)) @ CHR '','' #
     quoted (go_escape ''rule_count'') @ CHR '':'' #
     dec_string (trie_size (ps_suffix_trie (active_snapshot m)) + card (exact_blocks (active_snapshot m))) @
     CHR ''}'' # CHR 0x0A # []"
  by (simp add: status_text_def quoted_def newline_def)

lemma parse_uint_dec_string: "n < 2 ^ 64 \<Longrightarrow> parse_uint (dec_string n) = Some (word_of_nat n)"
  using dec_string_digits [of n] by (simp add: parse_uint_def list_all_iff)

lemma parse_uint_unat: "parse_uint (dec_string (unat (g :: u64))) = Some g"
  using unsigned_less [of g, where ?'a = nat] by (simp add: parse_uint_dec_string)

lemma parse_int_dec_string: "n < 2 ^ 63 \<Longrightarrow> parse_int (dec_string n) = Some (int n)"
proof -
  assume n: "n < 2 ^ 63"
  obtain c s where cs: "dec_string n = c # s" by (cases "dec_string n") auto
  have "\<forall>x \<in> set (c # s). is_digit x" using dec_string_digits [of n] cs by simp
  then have "list_all is_digit (c # s)" "c \<noteq> CHR ''-''" by (auto simp: list_all_iff)
  moreover have "dec_value (c # s) = n" using dec_value_dec_string [of n] cs by simp
  ultimately show ?thesis using n cs by (simp add: parse_int_def del: list.pred_inject)
qed

lemmas read_text = parse_json_def lex_simps lex_word lex_number_then start_value_def start_key_def
  unmarshal_reply_def decode_field_def decode_string_def decode_uint64_def decode_int_def Let_def

lemma tolower_names:
  "map tolower ''status'' = ''status''" "map tolower ''active_generation'' = ''active_generation''"
  "map tolower ''generation'' = ''generation''" "map tolower ''version_hash'' = ''version_hash''"
  "map tolower ''rule_count'' = ''rule_count''" "map tolower ''error'' = ''error''"
  by code_simp+

lemma unmarshal_accepted:
  "unmarshal_reply (accepted_text m (go_escape h)) =
     Some (empty_reply\<lparr>ir_status := ''OK'', ir_active_generation := global_generation m, ir_version_hash := h\<rparr>)"
  by (simp add: accepted_parts read_text parse_uint_unat tolower_names del: escaped_words list.map)

lemma unmarshal_rejected:
  assumes "plain_text err"
  shows "unmarshal_reply (rejected_text m err) =
     Some (empty_reply\<lparr>ir_status := ''REJECTED'', ir_error := err, ir_active_generation := global_generation m\<rparr>)"
  by (simp add: rejected_parts read_text lex_plain [OF assms] parse_uint_unat tolower_names del: escaped_words list.map)

lemma unmarshal_status:
  assumes "version_hash (active_snapshot m) = go_escape h"
    and "trie_size (ps_suffix_trie (active_snapshot m)) + card (exact_blocks (active_snapshot m)) < 2 ^ 63"
  shows "unmarshal_reply (status_text m) =
     Some (empty_reply\<lparr>ir_status := ''OK'', ir_generation := global_generation m, ir_version_hash := h,
       ir_rule_count := int (trie_size (ps_suffix_trie (active_snapshot m)) + card (exact_blocks (active_snapshot m)))\<rparr>)"
  by (simp add: status_parts assms(1) read_text parse_uint_unat parse_int_dec_string [OF assms(2)] tolower_names
      del: escaped_words list.map of_nat_add)

lemma plain_errors:
  "plain_text ''Candidate generation must be > active generation''"
  "plain_text ''Candidate missing cryptographic version hash''"
  by (simp_all add: plain_text_def)

text \<open>A response is no longer than the request it confirms, or than the buffer of \<open>Read\<close>.\<close>

lemma accepted_length: "length (accepted_text m h) = 55 + length (dec_string (unat (global_generation m))) + length h"
  by (simp add: accepted_text_def newline_def)

lemma policy_request_length:
  "0 < g \<Longrightarrow> h \<noteq> [] \<Longrightarrow> 59 + length (dec_string g) + length h \<le> length (policy_request g h ss es als)"
  by (simp add: policy_request_def number_field_def string_field_def quoted_def newline_def)

lemma dec_string_length: "n < 10 ^ k \<Longrightarrow> length (dec_string n) \<le> Suc (k - 1)"
proof (induction k arbitrary: n)
  case 0
  then show ?case by (subst dec_string.simps) simp
next
  case (Suc k)
  show ?case
  proof (cases "n < 10")
    case True
    then show ?thesis by (subst dec_string.simps) simp
  next
    case False
    then have "n div 10 < 10 ^ k" "k \<noteq> 0" using Suc.prems by (cases k; simp)+
    with Suc.IH [of "n div 10"] False show ?thesis by (subst dec_string.simps) simp
  qed
qed

lemma dec_string_u64_length: "length (dec_string (unat (g :: u64))) \<le> 20"
proof -
  have "unat g < 2 ^ 64" using unsigned_less [of g, where ?'a = nat] by simp
  also have "(2 :: nat) ^ 64 < 10 ^ 20" by simp
  finally show ?thesis using dec_string_length [of "unat g" 20] by simp
qed

section \<open>A policy from end to end\<close>

text \<open>A policy whose strings the text search of the data plane reads back.\<close>

definition plain_body :: "policy_body \<Rightarrow> bool" where
  "plain_body p \<longleftrightarrow>
     plain_request (unat (pb_generation p)) (go_escape (pb_version_hash p)) (map go_escape (pb_suffix_blocks p))
       (map go_escape (pb_exact_blocks p)) (map go_escape (pb_allowlist p))"

definition installed_policy :: "policy_body \<Rightarrow> policy_snapshot" where
  "installed_policy p =
     \<lparr>generation = pb_generation p, version_hash = go_escape (pb_version_hash p),
      ps_suffix_trie = build_trie (zip (map go_escape (pb_suffix_blocks p))
        (map (\<lambda>i. word_of_nat (i + 1)) [0..<length (pb_suffix_blocks p)])),
      exact_blocks = set (map go_escape (pb_exact_blocks p)), allowlist = set (map go_escape (pb_allowlist p))\<rparr>"

lemma apply_candidate_of_body:
  assumes "plain_body p"
  shows "build_candidate (marshal_message (apply_message p) @ newline) = installed_policy p"
  using build_candidate_request [OF assms [unfolded plain_body_def]]
  by (simp add: marshal_apply installed_policy_def)

lemma apply_request_read:
  assumes "length (marshal_message (apply_message p) @ newline) \<le> 8191"
  shows "ipc_request (marshal_message (apply_message p) @ newline) = marshal_message (apply_message p) @ newline"
proof -
  have "takeWhile (\<lambda>c. c \<noteq> CHR 0x00) (marshal_message r @ newline) = marshal_message r @ newline" for r
    using marshal_no_nul [of r] by (subst takeWhile_eq_all_conv) auto
  then show ?thesis unfolding ipc_request_def take_all [OF assms] .
qed

lemma serve_apply:
  assumes "plain_body p" "length (marshal_message (apply_message p) @ newline) \<le> 8191"
    and "pb_version_hash p \<noteq> []"
  shows "serve_connection (marshal_message (apply_message p) @ newline) m =
    (if global_generation m < pb_generation p
     then (Some (accepted_text (m\<lparr>active_snapshot := installed_policy p, global_generation := pb_generation p\<rparr>)
             (go_escape (pb_version_hash p))),
           m\<lparr>active_snapshot := installed_policy p, global_generation := pb_generation p\<rparr>)
     else (Some (rejected_text m ''Candidate generation must be > active generation''), m))"
proof -
  let ?d = "marshal_message (apply_message p) @ newline"
  have "?d \<noteq> []" by (simp add: marshal_message_def)
  note serve = serve_short [OF assms(2) this marshal_no_nul]
  have c: "extract_json_string ?d ''command'' = ''APPLY_POLICY''" unfolding marshal_apply by (rule request_command)
  show ?thesis
    unfolding serve handle_command_apply [OF c] apply_candidate_of_body [OF assms(1)]
    using assms(3) by (auto simp: Let_def acceptable_def installed_policy_def)
qed

lemma send_to_dataplane:
  assumes "serve_connection (marshal_message r @ newline) m = (Some resp, m')" "length resp \<le> 8192"
    and "unmarshal_reply resp = Some x" "length (marshal_message r @ newline) \<le> 8191"
  shows "send_ipc_command path (dataplane_exchange room) r m = (Inr x, m')"
  using assms by (simp add: send_ipc_command_def dataplane_exchange_def)

lemma serve_status:
  "serve_connection (marshal_message status_message @ newline) m = (Some (status_text m), m)"
  and status_length: "length (marshal_message status_message @ newline) \<le> 8191"
proof -
  let ?d = "marshal_message status_message @ newline"
  have "?d = ''{\"command\":\"GET_STATUS\"}'' @ newline"
    by (simp add: marshal_message_def status_message_def quoted_def number_field_def string_field_def array_field_def)
  then have d: "length ?d \<le> 8191" "?d \<noteq> []" "extract_json_string ?d ''command'' = ''GET_STATUS''"
    by (simp_all only:) code_simp+
  show "serve_connection ?d m = (Some (status_text m), m)"
    using serve_short [OF d(1,2) marshal_no_nul] d(3) by (simp add: handle_command_def del: length_append)
  show "length ?d \<le> 8191" by (rule d(1))
qed

text \<open>The counters after a POST.\<close>

definition counted :: "bool \<Rightarrow> counters \<Rightarrow> counters" where
  "counted failed cs =
     cs\<lparr>reloads_total := reloads_total cs + 1,
        reload_failures_total := reload_failures_total cs + (if failed then 1 else 0)\<rparr>"

section \<open>Properties\<close>


definition sample_body :: policy_body where
  "sample_body = \<lparr>pb_generation = 2, pb_version_hash = ''v2'', pb_suffix_blocks = [''ads.test''],
     pb_exact_blocks = [], pb_allowlist = [''safe.ads.test'']\<rparr>"

lemma sample_body_facts:
  "plain_body sample_body" "length (marshal_message (apply_message sample_body) @ newline) \<le> 8191"
  "pb_generation sample_body \<noteq> 0" "pb_version_hash sample_body \<noteq> []"
proof -
  have e: "go_escape ''v2'' = ''v2''" "go_escape ''ads.test'' = ''ads.test''" "go_escape ''safe.ads.test'' = ''safe.ads.test''"
    by code_simp+
  have "plain_request 2 ''v2'' [''ads.test''] [] [''safe.ads.test'']"
    by (simp add: plain_request_def plain_def request_keys_def)
  then show "plain_body sample_body" by (simp add: plain_body_def sample_body_def e)
  have "length (policy_request 2 ''v2'' [''ads.test''] [] [''safe.ads.test'']) \<le> 8191" by code_simp
  then show "length (marshal_message (apply_message sample_body) @ newline) \<le> 8191"
    unfolding marshal_apply by (simp add: sample_body_def e)
qed (simp_all add: sample_body_def)


fun is_post :: "http_request \<Rightarrow> bool" where
  "is_post (Policies verb body) = (verb = ''POST'')"
| "is_post _ = False"

definition failed_post :: "http_request \<times> http_reply \<Rightarrow> bool" where
  "failed_post x \<longleftrightarrow> is_post (fst x) \<and> status_code (snd x) \<noteq> 200"

lemma post_policy_counts:
  "post_policy path exchange body cs w = (r, cs', w') \<Longrightarrow> cs' = counted (status_code r \<noteq> 200) cs"
  by (auto simp: post_policy_def fail_with_def counted_def Let_def split: sum.splits if_splits prod.splits)

lemma serve_http_counts:
  assumes "serve_http path exchange q cs w = (r, cs', w')"
  shows "cs' = (if is_post q then counted (status_code r \<noteq> 200) cs else cs)"
  using assms
proof (cases q)
  case (Policies verb body)
  then show ?thesis
    using assms post_policy_counts [of path exchange body cs w r cs' w']
    by (auto split: if_splits prod.splits)
qed (auto split: prod.splits)

text \<open>
  Property C33 (what the counters count).  Over any sequence of HTTP requests, whatever the socket does, the first
  counter grows by the number of POSTs of a policy and the second by the number of those that were not
  answered 200; no other request moves them.
\<close>

theorem counters_account_for_posts:
  assumes "serve_requests path exchange qs cs w = (log, cs', w')"
  shows "map fst log = qs \<and>
    reloads_total cs' = reloads_total cs + word_of_nat (length (filter is_post qs)) \<and>
    reload_failures_total cs' = reload_failures_total cs + word_of_nat (length (filter failed_post log))"
  using assms
proof (induction qs arbitrary: cs w log)
  case (Cons q qs)
  obtain r cs1 w1 where 1: "serve_http path exchange q cs w = (r, cs1, w1)" by (metis prod_cases3)
  obtain log1 where 2: "serve_requests path exchange qs cs1 w1 = (log1, cs', w')" "log = (q, r) # log1"
    using Cons.prems 1 by (auto split: prod.splits)
  show ?case
    using Cons.IH [OF 2(1)] 2(2) serve_http_counts [OF 1]
    by (auto simp: counted_def failed_post_def algebra_simps)
qed simp

theorem counters_account_for_posts_witness:
  "case serve_requests ''/s'' (dataplane_exchange 0) [Health, Policies ''POST'' (Inl ''EOF''), Policies ''POST'' (Inr sample_body)]
      \<lparr>reloads_total = 0, reload_failures_total = 0\<rparr> init_manager of (log, cs, m) \<Rightarrow>
    reloads_total cs = 2 \<and> reload_failures_total cs = word_of_nat (length (filter failed_post log))"
proof -
  let ?qs = "[Health, Policies ''POST'' (Inl ''EOF''), Policies ''POST'' (Inr sample_body)]"
  obtain log cs m where r: "serve_requests ''/s'' (dataplane_exchange 0) ?qs \<lparr>reloads_total = 0, reload_failures_total = 0\<rparr>
      init_manager = (log, cs, m)" by (metis prod_cases3)
  from counters_account_for_posts [OF r] show ?thesis unfolding r by simp
qed



definition quoted_hash_body :: policy_body where
  "quoted_hash_body = sample_body\<lparr>pb_version_hash := [CHR ''a'', quote, CHR ''b'']\<rparr>"

definition quoted_hash_text :: string where
  "quoted_hash_text =
     ''{\"command\":\"APPLY_POLICY\",\"generation\":2,\"version_hash\":\"a'' @ [backslash] @
     ''\"b\",\"suffix_blocks\":[\"ads.test\"],\"allowlist\":[\"safe.ads.test\"]}'' @ newline"

text \<open>
  Further fact (a hash with a quote).  A policy whose version hash contains a double quote is installed by the
  data plane, which does not undo JSON escapes and echoes the hash as it cut it: its answer is not JSON,
  so the control plane replies 502, counts a failure, and reports the data plane as unhealthy from then on.
\<close>

theorem quoted_hash_installed_but_reported_failed:
  "fst (post_policy path (dataplane_exchange room) (Inr quoted_hash_body) cs init_manager) =
     \<lparr>status_code = 502, reply_body = ErrorBody InvalidResponse\<rparr> \<and>
   fst (snd (post_policy path (dataplane_exchange room) (Inr quoted_hash_body) cs init_manager)) = counted True cs \<and>
   global_generation (snd (snd (post_policy path (dataplane_exchange room) (Inr quoted_hash_body) cs init_manager))) = 2 \<and>
   fst (get_health path (dataplane_exchange room) (snd (snd (post_policy path (dataplane_exchange room) (Inr quoted_hash_body) cs init_manager)))) =
     \<lparr>status_code = 503, reply_body = Unhealthy InvalidResponse\<rparr>"
proof -
  let ?d = "marshal_message (apply_message quoted_hash_body) @ newline" and ?m = "snd (handle_command quoted_hash_text init_manager)"
  have d: "?d = quoted_hash_text" by code_simp
  have short: "length quoted_hash_text \<le> 8191" and "quoted_hash_text \<noteq> []" by code_simp+
  note serve = serve_short [OF this marshal_no_nul [of "apply_message quoted_hash_body", unfolded d]]
  have r: "fst (handle_command quoted_hash_text init_manager) =
      ''{\"status\":\"OK\",\"active_generation\":2,\"version_hash\":\"a'' @ [backslash] @ ''\"}'' @ newline"
    "status_text ?m =
      ''{\"status\":\"OK\",\"generation\":2,\"version_hash\":\"a'' @ [backslash] @ ''\",\"rule_count\":1}'' @ newline"
    and g: "global_generation ?m = 2"
    by code_simp+
  have "unmarshal_reply (''{\"status\":\"OK\",\"active_generation\":2,\"version_hash\":\"a'' @ [backslash] @ ''\"}'' @ newline) = None"
    "unmarshal_reply (''{\"status\":\"OK\",\"generation\":2,\"version_hash\":\"a'' @ [backslash] @ ''\",\"rule_count\":1}'' @ newline) = None"
    by code_simp+
  then have u: "unmarshal_reply (take 8192 (fst (handle_command quoted_hash_text init_manager))) = None"
    "unmarshal_reply (take 8192 (status_text ?m)) = None"
    unfolding r by (simp_all add: newline_def)
  have "send_ipc_command path (dataplane_exchange room) (apply_message quoted_hash_body) init_manager = (Inl InvalidResponse, ?m)"
    using u(1) serve short by (simp add: send_ipc_command_def dataplane_exchange_def d del: length_append)
  moreover have "send_ipc_command path (dataplane_exchange room) status_message ?m = (Inl InvalidResponse, ?m)"
    using u(2) serve_status [of ?m] status_length by (simp add: send_ipc_command_def dataplane_exchange_def del: length_append)
  moreover have "pb_generation quoted_hash_body \<noteq> 0" "pb_version_hash quoted_hash_body \<noteq> []"
    by (simp_all add: quoted_hash_body_def sample_body_def)
  ultimately show ?thesis
    using g by (simp add: post_policy_def get_health_def fail_with_def counted_def)
qed

end
