(* ===== verification/Policy_Limits.thy ===== *)
theory Policy_Limits
  imports Control_Plane
begin

text \<open>
  What the one \<open>read\<close> of 8191 bytes in \<open>listen_loop\<close> (\<open>runtime/ipc_server.cpp\<close>) means for a policy whose
  request is longer: the JSON text ends inside a list, the text search finds no closing bracket, and every
  list reads as empty.  What the control plane makes of it depends on the buffer of the socket, which
  takes the rest of the request or fails its write.
\<close>

section \<open>A request cut inside its first list\<close>

definition request_head :: "policy_body \<Rightarrow> string" where
  "request_head p =
     ''{'' @ quoted ''command'' @ '':'' @ quoted ''APPLY_POLICY'' @
     number_field ''generation'' (unat (pb_generation p)) @ string_field ''version_hash'' (go_escape (pb_version_hash p))"

definition suffix_items :: "policy_body \<Rightarrow> string" where
  "suffix_items p =
     '','' @ quoted ''suffix_blocks'' @ '':['' @ commas (map quoted (map go_escape (pb_suffix_blocks p)))"

lemma request_parts:
  assumes "pb_suffix_blocks p \<noteq> []"
  obtains rest where "marshal_message (apply_message p) @ newline = (request_head p @ suffix_items p) @ rest"
  unfolding marshal_apply using assms
  by (simp add: policy_request_def request_head_def suffix_items_def array_field_def)

text \<open>Without a closing bracket no list has an element.\<close>

lemma key_suffix_sub: "key_suffix k s = Some r \<Longrightarrow> set r \<subseteq> set s"
  by (auto simp: key_suffix_def dest: in_set_dropD)

lemma no_bracket_no_strings:
  assumes "CHR '']'' \<notin> set s"
  shows "extract_json_strings s k = []"
proof (cases "key_suffix k s")
  case (Some r)
  have "CHR '']'' \<notin> set (drop n r)" for n
    using key_suffix_sub [OF Some] assms by (auto dest: in_set_dropD)
  then have "find_char CHR '']'' r n = None" for n
    by (auto simp: find_char_def find_from_None_iff)
  with Some show ?thesis by (simp add: extract_json_strings_eq split: option.split)
qed (simp add: extract_json_strings_eq)

lemma head_then_items:
  assumes "plain_body p" "pb_generation p \<noteq> 0" "pb_version_hash p \<noteq> []"
  shows "extract_json_string (request_head p @ r) ''command'' = ''APPLY_POLICY''"
    "extract_json_uint64 (request_head p @ r) ''generation'' = pb_generation p"
    "extract_json_string (request_head p @ r) ''version_hash'' = go_escape (pb_version_hash p)"
proof -
  let ?g = "unat (pb_generation p)" and ?h = "go_escape (pb_version_hash p)"
  have pos: "?g \<noteq> 0" "?h \<noteq> []" using assms(2,3) by (simp_all add: unat_eq_0)
  have h: "plain ?h" "?g < 2 ^ 64" using assms(1) by (simp_all add: plain_body_def plain_request_def)
  have "key_suffix ''command'' (request_head p @ r) = Some (quoted ''command'' @ '':'' @ quoted ''APPLY_POLICY'' @
      number_field ''generation'' ?g @ string_field ''version_hash'' ?h @ r)"
    unfolding request_head_def append_assoc by (subst key_suffix_gap) (simp_all only: key_suffix_found, simp)
  then show "extract_json_string (request_head p @ r) ''command'' = ''APPLY_POLICY''"
    by (rule read_string [rotated]) simp
  have fe: "field_end (number_field ''generation'' ?g @ string_field ''version_hash'' ?h @ r)"
    "field_end (string_field ''version_hash'' ?h @ r)"
    using pos by (simp_all add: number_field_def string_field_def)
  have skip: "key_suffix k (request_head p @ r) =
      key_suffix k (number_field ''generation'' ?g @ string_field ''version_hash'' ?h @ r)"
    if "k \<in> set request_keys" "k \<noteq> ''command''" for k
    using start_in_request [OF that fe(1)] by (simp add: request_head_def)
  have "key_suffix ''generation'' (request_head p @ r) =
      Some (quoted ''generation'' @ '':'' @ dec_string ?g @ string_field ''version_hash'' ?h @ r)"
    using skip [OF keys_in_request(1)] pos(1) key_suffix_found by (simp add: number_field_def skip_comma)
  from read_number [OF request_keys_plain(2) h(2) fe(2) this]
  show "extract_json_uint64 (request_head p @ r) ''generation'' = pb_generation p" by simp
  have "key_suffix ''version_hash'' (request_head p @ r) = Some (quoted ''version_hash'' @ '':'' @ quoted ?h @ r)"
    using skip [OF keys_in_request(2)] pos(2) key_suffix_found skip_fields(1) [OF request_keys_plain(3) fe(2) keys_in_request(2)]
    by (simp add: string_field_def skip_comma)
  then show "extract_json_string (request_head p @ r) ''version_hash'' = ?h"
    using plainD(1) [OF h(1)] by (intro read_string)
qed

definition emptied_policy :: "policy_body \<Rightarrow> policy_snapshot" where
  "emptied_policy p =
     \<lparr>generation = pb_generation p, version_hash = go_escape (pb_version_hash p), ps_suffix_trie = empty_trie,
      exact_blocks = {}, allowlist = {}\<rparr>"

lemma no_bracket_in_head: "plain_body p \<Longrightarrow> CHR '']'' \<notin> set (request_head p)"
  using plainD(2) [of "go_escape (pb_version_hash p)"] dec_string_digits [of "unat (pb_generation p)"]
  by (auto simp: request_head_def number_field_def string_field_def quoted_def plain_body_def plain_request_def)

lemma no_bracket_in_items: "plain_body p \<Longrightarrow> CHR '']'' \<notin> set (suffix_items p)"
  using bracket_notin_commas [of "map go_escape (pb_suffix_blocks p)"] plainD(2)
  by (auto simp: suffix_items_def quoted_def plain_body_def plain_request_def)

lemma cut_request_candidate:
  assumes "plain_body p" "pb_generation p \<noteq> 0" "pb_version_hash p \<noteq> []" "set r \<subseteq> set (suffix_items p)"
  shows "build_candidate (request_head p @ r) = emptied_policy p"
proof -
  have "CHR '']'' \<notin> set (request_head p @ r)"
    using no_bracket_in_head [OF assms(1)] no_bracket_in_items [OF assms(1)] assms(4) by auto
  note lists = no_bracket_no_strings [OF this]
  show ?thesis
    unfolding build_candidate_def head_then_items [OF assms(1-3)] lists
    by (simp add: emptied_policy_def new_snapshot_def)
qed

section \<open>Properties\<close>

text \<open>
  Property C40 (a large policy loses its rules).  When the request of a newer policy, whose strings are plain,
  reaches 8191 bytes inside its list of suffix blocks, the data plane installs a policy of that generation
  and hash without any rule, exact block or allowlist entry.  If the socket takes the whole request, the
  control plane replies 200 ACTIVATED as for a complete policy; if it does not, the write fails, and the
  control plane replies 502 and counts a failure although the policy in force is gone.
\<close>

theorem oversized_policy_loses_its_rules:
  assumes "plain_body p" "pb_generation p \<noteq> 0" "pb_version_hash p \<noteq> []" "pb_suffix_blocks p \<noteq> []"
    and "length (request_head p) \<le> 8191" "8191 \<le> length (request_head p @ suffix_items p)"
    and "global_generation m < pb_generation p"
  shows "post_policy path (dataplane_exchange room) (Inr p) cs m =
    (let m' = m\<lparr>active_snapshot := emptied_policy p, global_generation := pb_generation p\<rparr>
     in if length (marshal_message (apply_message p) @ newline) \<le> 8191 + room
        then (\<lparr>status_code = 200, reply_body = Activated (pb_generation p) (pb_version_hash p)\<rparr>, counted False cs, m')
        else (\<lparr>status_code = 502, reply_body = ErrorBody (WriteError ''broken pipe'')\<rparr>, counted True cs, m'))"
proof -
  let ?d = "marshal_message (apply_message p) @ newline"
  let ?m = "m\<lparr>active_snapshot := emptied_policy p, global_generation := pb_generation p\<rparr>"
  let ?resp = "accepted_text ?m (go_escape (pb_version_hash p))"
  obtain rest where d: "?d = (request_head p @ suffix_items p) @ rest" by (rule request_parts [OF assms(4)])
  define r where "r = take (8191 - length (request_head p)) (suffix_items p)"
  have cut: "take 8191 ?d = request_head p @ r"
    unfolding d take_append [of _ "request_head p @ suffix_items p"] using assms(5,6) by (simp add: r_def)
  have "CHR 0x00 \<notin> set (take 8191 ?d)" using marshal_no_nul [of "apply_message p"] by (auto dest: in_set_takeD)
  then have req: "ipc_request ?d = request_head p @ r"
    unfolding ipc_request_def cut by (subst takeWhile_eq_all_conv) auto
  have "request_head p \<noteq> []" by (simp add: request_head_def)
  then have "serve_connection ?d m = (case handle_command (request_head p @ r) m of (resp, m') \<Rightarrow> (Some resp, m'))"
    unfolding serve_connection_def req cut by simp
  moreover have c: "build_candidate (request_head p @ r) = emptied_policy p"
    by (rule cut_request_candidate [OF assms(1-3)]) (auto simp: r_def dest: in_set_takeD)
  moreover have "acceptable (global_generation m) (emptied_policy p)"
    using assms(3,7) by (simp add: acceptable_def emptied_policy_def)
  ultimately have serve: "serve_connection ?d m = (Some ?resp, ?m)"
    using handle_command_apply [OF head_then_items(1) [OF assms(1-3)], of r m]
    by (simp add: Let_def emptied_policy_def)
  have "length ?resp \<le> length (request_head p)"
    using assms(2,3) by (simp add: accepted_length request_head_def number_field_def string_field_def quoted_def unat_eq_0)
  then have "length ?resp \<le> 8192" using assms(5) by linarith
  with serve unmarshal_accepted [of ?m "pb_version_hash p"]
  have "send_ipc_command path (dataplane_exchange room) (apply_message p) m =
      (if length ?d \<le> 8191 + room
       then Inr (empty_reply\<lparr>ir_status := ''OK'', ir_active_generation := pb_generation p, ir_version_hash := pb_version_hash p\<rparr>)
       else Inl (WriteError ''broken pipe''), ?m)"
    by (simp add: send_ipc_command_def dataplane_exchange_def del: length_append)
  then show ?thesis using assms(2,3) by (simp add: post_policy_def counted_def fail_with_def Let_def del: length_append)
qed

definition large_body :: policy_body where
  "large_body = \<lparr>pb_generation = 2, pb_version_hash = ''v2'', pb_suffix_blocks = replicate 1000 ''ads.test'',
     pb_exact_blocks = [''evil.test''], pb_allowlist = []\<rparr>"

lemma length_commas: "length (commas xs) = sum_list (map length xs) + (length xs - 1)"
  by (induction xs rule: commas.induct) simp_all

theorem oversized_policy_loses_its_rules_witness:
  "let cs = \<lparr>reloads_total = 0, reload_failures_total = 0\<rparr>;
       m = init_manager\<lparr>active_snapshot := emptied_policy large_body, global_generation := 2\<rparr>
   in post_policy ''/s'' (dataplane_exchange 200000) (Inr large_body) cs init_manager =
        (\<lparr>status_code = 200, reply_body = Activated 2 ''v2''\<rparr>, counted False cs, m) \<and>
      post_policy ''/s'' (dataplane_exchange 0) (Inr large_body) cs init_manager =
        (\<lparr>status_code = 502, reply_body = ErrorBody (WriteError ''broken pipe'')\<rparr>, counted True cs, m) \<and>
      \<not> policy_blocks (emptied_policy large_body) ''ads.test''"
proof -
  let ?d = "marshal_message (apply_message large_body) @ newline"
  have e: "go_escape ''v2'' = ''v2''" "go_escape ''ads.test'' = ''ads.test''" "go_escape ''evil.test'' = ''evil.test''"
    by code_simp+
  have "plain ''ads.test''" "plain ''v2''" "plain ''evil.test''" by (simp_all add: plain_def request_keys_def)
  then have plain: "plain_body large_body" by (simp add: plain_body_def plain_request_def large_body_def e)
  have head: "length (request_head large_body) \<le> 8191"
    by (simp add: request_head_def large_body_def e number_field_def string_field_def quoted_def)
      (use dec_string_length [of 2 1] in simp)
  have items: "8191 \<le> length (request_head large_body @ suffix_items large_body)"
    by (simp add: suffix_items_def large_body_def e length_commas quoted_def sum_list_replicate)
  have "length ?d \<le> 8191 + 200000" "\<not> length ?d \<le> 8191 + 0"
    unfolding marshal_apply
    by (simp_all add: policy_request_def large_body_def e number_field_def string_field_def array_field_def quoted_def
          length_commas sum_list_replicate newline_def) (use dec_string_length [of 2 1] in simp)
  note sizes = this
  note p = oversized_policy_loses_its_rules [OF plain _ _ _ head items, of init_manager "''/s''" _
      "\<lparr>reloads_total = 0, reload_failures_total = 0\<rparr>"]
  have "\<not> fst (trie_matches empty_trie ''ads.test'')" by code_simp
  then have "\<not> policy_blocks (emptied_policy large_body) ''ads.test''" by (simp add: policy_blocks_def emptied_policy_def)
  with p [of 200000] p [of 0] sizes show ?thesis
    by (simp add: large_body_def init_manager_def Let_def del: length_append)
qed

end
