(* ===== verification/Control_Handlers.thy ===== *)
theory Control_Handlers
  imports Control_Plane
begin

text \<open>
  The HTTP handlers of \<open>controlplane/main.go\<close> at the same time.  The HTTP server runs each request in a
  goroutine of its own; what they share are the two counters, each access of which is atomic, and the data
  plane, which serves one connection after the other, so that an exchange with it is one step.  Between
  two such steps a handler only computes.  The state lists where each handler is, and, as an auxiliary
  variable, the order in which the requests were decided.

  The lemmas show that the handlers together do what they do one after the other in that order; only what
  \<open>/metrics\<close> reports of the counters depends on the interleaving.
\<close>

section \<open>The handlers\<close>

text \<open>Where a handler is: before its first step, after the first counter (a POST), with a reply it still has to
  count as a failure, with the counters it has loaded (\<open>/metrics\<close>), or with its reply written.\<close>

datatype handler_pc =
    Arrived
  | Counted
  | Failing http_reply
  | LoadedReloads u64
  | LoadedCounters u64 u64
  | Replied http_reply

record 'w handlers =
  hs_pcs :: "handler_pc list"
  hs_counters :: counters
  hs_world :: 'w
  hs_order :: "nat list"

definition at_pc :: "'w handlers \<Rightarrow> nat \<Rightarrow> handler_pc \<Rightarrow> bool" where
  "at_pc s i pc \<longleftrightarrow> i < length (hs_pcs s) \<and> hs_pcs s ! i = pc"

definition move_to :: "nat \<Rightarrow> handler_pc \<Rightarrow> 'w handlers \<Rightarrow> 'w handlers" where
  "move_to i pc s = s\<lparr>hs_pcs := (hs_pcs s)[i := pc]\<rparr>"

text \<open>The request of handler \<open>i\<close> is decided, with its effect on the data plane.\<close>

definition decided_by :: "nat \<Rightarrow> handler_pc \<Rightarrow> 'w \<Rightarrow> 'w handlers \<Rightarrow> 'w handlers" where
  "decided_by i pc w s = (move_to i pc s)\<lparr>hs_world := w, hs_order := hs_order s @ [i]\<rparr>"

inductive handler_step ::
    "string \<Rightarrow> (string \<Rightarrow> 'w \<Rightarrow> transport \<times> 'w) \<Rightarrow> http_request list \<Rightarrow> 'w handlers \<Rightarrow> 'w handlers \<Rightarrow> bool"
  for path :: string and exchange :: "string \<Rightarrow> 'w \<Rightarrow> transport \<times> 'w" and qs :: "http_request list" where
  count_post: "at_pc s i Arrived \<Longrightarrow> is_post (qs ! i) \<Longrightarrow> handler_step path exchange qs s
    ((move_to i Counted s)\<lparr>hs_counters := (hs_counters s)\<lparr>reloads_total := reloads_total (hs_counters s) + 1\<rparr>\<rparr>)"
| decide_post: "at_pc s i Counted \<Longrightarrow> serve_http path exchange (qs ! i) (hs_counters s) (hs_world s) = (r, cs', w)
    \<Longrightarrow> handler_step path exchange qs s (decided_by i (if status_code r = 200 then Replied r else Failing r) w s)"
| count_failure: "at_pc s i (Failing r) \<Longrightarrow> handler_step path exchange qs s
    ((move_to i (Replied r) s)
       \<lparr>hs_counters := (hs_counters s)\<lparr>reload_failures_total := reload_failures_total (hs_counters s) + 1\<rparr>\<rparr>)"
| load_reloads: "at_pc s i Arrived \<Longrightarrow> qs ! i = Metrics
    \<Longrightarrow> handler_step path exchange qs s (move_to i (LoadedReloads (reloads_total (hs_counters s))) s)"
| load_failures: "at_pc s i (LoadedReloads a)
    \<Longrightarrow> handler_step path exchange qs s (move_to i (LoadedCounters a (reload_failures_total (hs_counters s))) s)"
| report_metrics: "at_pc s i (LoadedCounters a b)
    \<Longrightarrow> get_metrics path exchange \<lparr>reloads_total = a, reload_failures_total = b\<rparr> (hs_world s) = (r, w)
    \<Longrightarrow> handler_step path exchange qs s (decided_by i (Replied r) w s)"
| answer: "at_pc s i Arrived \<Longrightarrow> qs ! i \<noteq> Metrics \<Longrightarrow> \<not> is_post (qs ! i)
    \<Longrightarrow> serve_http path exchange (qs ! i) (hs_counters s) (hs_world s) = (r, cs', w)
    \<Longrightarrow> handler_step path exchange qs s (decided_by i (Replied r) w s)"

definition all_arrived :: "http_request list \<Rightarrow> counters \<Rightarrow> 'w \<Rightarrow> 'w handlers" where
  "all_arrived qs cs w = \<lparr>hs_pcs = replicate (length qs) Arrived, hs_counters = cs, hs_world = w, hs_order = []\<rparr>"

inductive handlers_reachable ::
    "string \<Rightarrow> (string \<Rightarrow> 'w \<Rightarrow> transport \<times> 'w) \<Rightarrow> http_request list \<Rightarrow> counters \<Rightarrow> 'w \<Rightarrow> 'w handlers \<Rightarrow> bool"
  for path :: string and exchange :: "string \<Rightarrow> 'w \<Rightarrow> transport \<times> 'w" and qs :: "http_request list"
    and cs :: counters and w :: 'w where
  start: "handlers_reachable path exchange qs cs w (all_arrived qs cs w)"
| step: "handlers_reachable path exchange qs cs w s \<Longrightarrow> handler_step path exchange qs s s'
    \<Longrightarrow> handlers_reachable path exchange qs cs w s'"

definition all_replied :: "'w handlers \<Rightarrow> bool" where
  "all_replied s \<longleftrightarrow> (\<forall>pc \<in> set (hs_pcs s). \<exists>r. pc = Replied r)"

section \<open>Counting list elements\<close>

abbreviation count_if :: "('a \<Rightarrow> bool) \<Rightarrow> 'a list \<Rightarrow> nat" where
  "count_if P xs \<equiv> length (filter P xs)"

lemma count_if_update:
  "i < length xs \<Longrightarrow> count_if P (xs[i := x]) + of_bool (P (xs ! i)) = count_if P xs + of_bool (P x)"
proof (induction xs arbitrary: i)
  case (Cons y ys)
  then show ?case by (cases i) auto
qed simp

section \<open>The sequential server\<close>

lemma serve_requests_snoc:
  "serve_requests path exchange (qs @ [q]) cs w =
     (let (log, cs, w) = serve_requests path exchange qs cs w; (r, cs, w) = serve_http path exchange q cs w
      in (log @ [(q, r)], cs, w))"
  by (induction qs arbitrary: cs w) (auto split: prod.splits)

lemma serve_http_spec:
  assumes "serve_http path exchange q cs w = (r, cs', w')" "q \<noteq> Metrics"
  shows "serve_http path exchange q cs2 w =
    (r, if is_post q then counted (status_code r \<noteq> 200) cs2 else cs2, w')"
  using assms
  by (cases q) (auto simp: post_policy_def fail_with_def counted_def Let_def split: sum.splits if_splits prod.splits)

lemma get_metrics_world:
  "get_metrics path exchange cs w = (r, w') \<Longrightarrow> serve_http path exchange Metrics cs2 w = (fst (get_metrics path exchange cs2 w), cs2, w')"
  by (auto simp: get_metrics_def Let_def split: prod.splits)

section \<open>Invariant\<close>

fun decided :: "handler_pc \<Rightarrow> bool" where
  "decided (Failing r) = True"
| "decided (Replied r) = True"
| "decided _ = False"

fun reply_of :: "handler_pc \<Rightarrow> http_reply option" where
  "reply_of (Failing r) = Some r"
| "reply_of (Replied r) = Some r"
| "reply_of _ = None"

fun is_failing :: "handler_pc \<Rightarrow> bool" where
  "is_failing (Failing r) = True"
| "is_failing _ = False"

text \<open>
  The data plane is as the sequential server leaves it on the decided requests, in their order; its
  log has their replies; the first counter is ahead of the sequential one by the posts that are counted and
  not decided, the second behind by the failures not yet counted.
\<close>

definition handlers_inv ::
    "string \<Rightarrow> (string \<Rightarrow> 'w \<Rightarrow> transport \<times> 'w) \<Rightarrow> http_request list \<Rightarrow> counters \<Rightarrow> 'w \<Rightarrow> 'w handlers \<Rightarrow> bool" where
  "handlers_inv path exchange qs cs0 w0 s \<longleftrightarrow>
     length (hs_pcs s) = length qs \<and> distinct (hs_order s) \<and>
     set (hs_order s) = {i. i < length qs \<and> decided (hs_pcs s ! i)} \<and>
     (\<forall>i < length qs. hs_pcs s ! i = Counted \<longrightarrow> is_post (qs ! i)) \<and>
     (\<forall>i < length qs. \<forall>a b. hs_pcs s ! i \<in> {LoadedReloads a, LoadedCounters a b} \<longrightarrow> qs ! i = Metrics) \<and>
     (\<exists>log cs. serve_requests path exchange (map ((!) qs) (hs_order s)) cs0 w0 = (log, cs, hs_world s) \<and>
        length log = length (hs_order s) \<and>
        (\<forall>k < length (hs_order s). qs ! (hs_order s ! k) \<noteq> Metrics \<longrightarrow>
           reply_of (hs_pcs s ! (hs_order s ! k)) = Some (snd (log ! k))) \<and>
        reloads_total (hs_counters s) = reloads_total cs + word_of_nat (count_if ((=) Counted) (hs_pcs s)) \<and>
        reload_failures_total (hs_counters s) + word_of_nat (count_if is_failing (hs_pcs s)) = reload_failures_total cs)"

lemma handlers_inv_start: "handlers_inv path exchange qs cs w (all_arrived qs cs w)"
  by (simp add: handlers_inv_def all_arrived_def)

lemma moved:
  assumes "at_pc s i pc"
  shows "hs_pcs (move_to i p s) = (hs_pcs s)[i := p]" "i < length (hs_pcs s)" "hs_pcs s ! i = pc"
    "word_of_nat (count_if P ((hs_pcs s)[i := p])) + of_bool (P pc) = (word_of_nat (count_if P (hs_pcs s)) + of_bool (P p) :: u64)"
  using assms arg_cong [OF count_if_update [of i "hs_pcs s" P p], of "word_of_nat :: nat \<Rightarrow> u64"]
  by (simp_all add: move_to_def at_pc_def)

lemma shift_ahead:
  fixes n n' :: u64
  assumes "n' + a = n + b" "x = c + n" "y + a = x + b"
  shows "y = c + n'"
proof -
  have "y + a = (c + n') + a" using assms by (simp add: add.assoc)
  then show ?thesis by simp
qed

lemma shift_behind:
  fixes n n' :: u64
  assumes "n' + a = n + b" "x + n = c" "y + b = x + a"
  shows "y + n' = c"
proof -
  have "(y + n') + (a + b) = (y + b) + (n' + a)" by (simp add: algebra_simps)
  also have "\<dots> = c + (a + b)" unfolding assms(1,3) using assms(2) by (simp add: algebra_simps)
  finally show ?thesis by simp
qed

lemma failing_decided: "is_failing pc \<Longrightarrow> decided pc"
  by (cases pc) simp_all

text \<open>A step that does not decide a request leaves the log alone.\<close>

lemma undecided_step:
  assumes inv: "handlers_inv path exchange qs cs0 w0 s" and pc: "at_pc s i pc"
    and "decided p = decided pc" "reply_of p = reply_of pc"
    and "p = Counted \<longrightarrow> is_post (qs ! i)" "(\<exists>a b. p \<in> {LoadedReloads a, LoadedCounters a b}) \<longrightarrow> qs ! i = Metrics"
    and "reloads_total cs + of_bool (pc = Counted) = reloads_total (hs_counters s) + of_bool (p = Counted)"
    and "reload_failures_total cs + of_bool (is_failing p) = reload_failures_total (hs_counters s) + of_bool (is_failing pc)"
  shows "handlers_inv path exchange qs cs0 w0 ((move_to i p s)\<lparr>hs_counters := cs\<rparr>)"
proof -
  let ?n = "count_if ((=) Counted)" and ?f = "count_if is_failing" and ?pcs = "(hs_pcs s)[i := p]"
  note m = moved(2,3) [OF pc] and count = moved(4) [OF pc, where p = p]
  obtain log c where seq: "serve_requests path exchange (map ((!) qs) (hs_order s)) cs0 w0 = (log, c, hs_world s)"
      "length log = length (hs_order s)"
      "\<forall>k < length (hs_order s). qs ! (hs_order s ! k) \<noteq> Metrics \<longrightarrow> reply_of (hs_pcs s ! (hs_order s ! k)) = Some (snd (log ! k))"
    and c: "reloads_total (hs_counters s) = reloads_total c + word_of_nat (?n (hs_pcs s))"
      "reload_failures_total (hs_counters s) + word_of_nat (?f (hs_pcs s)) = reload_failures_total c"
    using inv by (auto simp: handlers_inv_def)
  have "reply_of (?pcs ! j) = reply_of (hs_pcs s ! j)" "decided (?pcs ! j) = decided (hs_pcs s ! j)" for j
    using m assms(3,4) by (cases "j = i"; simp)+
  moreover have "reloads_total cs = reloads_total c + word_of_nat (?n ?pcs)"
    using shift_ahead [OF count [of "(=) Counted"] c(1)] assms(7) by (simp add: eq_commute [of Counted])
  moreover have "reload_failures_total cs + word_of_nat (?f ?pcs) = reload_failures_total c"
    using shift_behind [OF count [of is_failing] c(2)] assms(8) by simp
  ultimately show ?thesis
    using inv seq assms(5,6) m unfolding handlers_inv_def
    by (auto simp: move_to_def nth_list_update)
qed

lemma decided_step:
  assumes inv: "handlers_inv path exchange qs cs0 w0 s" and pc: "at_pc s i pc"
    and "\<not> decided pc" "decided p" "pc = Counted \<longleftrightarrow> is_post (qs ! i)"
    and seq: "\<And>cs. \<exists>r. serve_http path exchange (qs ! i) cs (hs_world s) =
        (r, if is_post (qs ! i) then counted (is_failing p) cs else cs, w) \<and> (qs ! i \<noteq> Metrics \<longrightarrow> reply_of p = Some r)"
    and "is_failing p \<longrightarrow> is_post (qs ! i)"
  shows "handlers_inv path exchange qs cs0 w0 (decided_by i p w s)"
proof -
  let ?n = "count_if ((=) Counted)" and ?f = "count_if is_failing" and ?pcs = "(hs_pcs s)[i := p]"
  note m = moved(2,3) [OF pc] and count = moved(4) [OF pc, where p = p]
  have i: "i < length qs" "i \<notin> set (hs_order s)" using inv m assms(3) by (auto simp: handlers_inv_def)
  obtain log c where log: "serve_requests path exchange (map ((!) qs) (hs_order s)) cs0 w0 = (log, c, hs_world s)"
      "length log = length (hs_order s)"
      "\<forall>k < length (hs_order s). qs ! (hs_order s ! k) \<noteq> Metrics \<longrightarrow> reply_of (hs_pcs s ! (hs_order s ! k)) = Some (snd (log ! k))"
    and c: "reloads_total (hs_counters s) = reloads_total c + word_of_nat (?n (hs_pcs s))"
      "reload_failures_total (hs_counters s) + word_of_nat (?f (hs_pcs s)) = reload_failures_total c"
    using inv by (auto simp: handlers_inv_def)
  let ?c = "if is_post (qs ! i) then counted (is_failing p) c else c"
  obtain r where r: "serve_http path exchange (qs ! i) c (hs_world s) = (r, ?c, w)" "qs ! i \<noteq> Metrics \<longrightarrow> reply_of p = Some r"
    using seq [of c] by blast
  let ?order = "hs_order s @ [i]" and ?log = "log @ [(qs ! i, r)]"
  have "serve_requests path exchange (map ((!) qs) ?order) cs0 w0 = (?log, ?c, w)"
    using log(1) r(1) by (simp add: serve_requests_snoc)
  moreover have "\<forall>k < length ?order. qs ! (?order ! k) \<noteq> Metrics \<longrightarrow> reply_of (?pcs ! (?order ! k)) = Some (snd (?log ! k))"
  proof (intro allI impI)
    fix k assume k: "k < length ?order" "qs ! (?order ! k) \<noteq> Metrics"
    show "reply_of (?pcs ! (?order ! k)) = Some (snd (?log ! k))"
    proof (cases "k < length (hs_order s)")
      case True
      then have "hs_order s ! k \<noteq> i" using i(2) nth_mem by blast
      with True k log(2,3) show ?thesis by (simp add: nth_append)
    next
      case False
      with k have "k = length (hs_order s)" by simp
      with k r(2) log(2) m show ?thesis by (simp add: nth_append)
    qed
  qed
  moreover have "reloads_total (hs_counters s) = reloads_total ?c + word_of_nat (?n ?pcs)"
    using count [of "(=) Counted"] c(1) assms(4,5) by (auto simp: counted_def algebra_simps eq_commute [of Counted])
  moreover have "reload_failures_total (hs_counters s) + word_of_nat (?f ?pcs) = reload_failures_total ?c"
  proof -
    have "\<not> is_failing pc" using assms(3) failing_decided by blast
    then show ?thesis
      using count [of is_failing] c(2) assms(7) by (auto simp: counted_def algebra_simps)
  qed
  ultimately show ?thesis
    using inv assms(4) m i log(2) unfolding handlers_inv_def
    by (auto simp: decided_by_def move_to_def nth_list_update)
qed

lemma handlers_inv_step:
  assumes "handlers_inv path exchange qs cs0 w0 s" "handler_step path exchange qs s s'"
  shows "handlers_inv path exchange qs cs0 w0 s'"
  using assms(2)
proof (cases rule: handler_step.cases)
  case (count_post i)
  then show ?thesis using undecided_step [OF assms(1) count_post(2), of Counted] by simp
next
  case (decide_post i r cs' w)
  have post: "is_post (qs ! i)" using assms(1) decide_post(2) by (auto simp: handlers_inv_def at_pc_def)
  then have "qs ! i \<noteq> Metrics" by auto
  note serve_http_spec [OF decide_post(3) this]
  with post show ?thesis unfolding decide_post(1) by (intro decided_step [OF assms(1) decide_post(2)]) auto
next
  case (count_failure i r)
  then show ?thesis using undecided_step [OF assms(1) count_failure(2), of "Replied r"] by simp
next
  case (load_reloads i)
  have "s' = (move_to i (LoadedReloads (reloads_total (hs_counters s))) s)\<lparr>hs_counters := hs_counters s\<rparr>"
    using load_reloads(1) by (simp add: move_to_def)
  then show ?thesis
    using undecided_step [OF assms(1) load_reloads(2), of "LoadedReloads (reloads_total (hs_counters s))" "hs_counters s"]
      load_reloads(3) by simp
next
  case (load_failures i a)
  let ?p = "LoadedCounters a (reload_failures_total (hs_counters s))"
  have "s' = (move_to i ?p s)\<lparr>hs_counters := hs_counters s\<rparr>" using load_failures(1) by (simp add: move_to_def)
  moreover have "qs ! i = Metrics" using assms(1) load_failures(2) by (auto simp: handlers_inv_def at_pc_def)
  ultimately show ?thesis using undecided_step [OF assms(1) load_failures(2), of ?p "hs_counters s"] by simp
next
  case (report_metrics i a b r w)
  have m: "qs ! i = Metrics" using assms(1) report_metrics(2) by (auto simp: handlers_inv_def at_pc_def)
  show ?thesis unfolding report_metrics(1)
    using get_metrics_world [OF report_metrics(3)] m
    by (intro decided_step [OF assms(1) report_metrics(2)]) auto
next
  case (answer i r cs' w)
  note serve_http_spec [OF answer(5,3)]
  with answer(4) show ?thesis unfolding answer(1) by (intro decided_step [OF assms(1) answer(2)]) auto
qed

lemma handlers_inv_reachable:
  "handlers_reachable path exchange qs cs w s \<Longrightarrow> handlers_inv path exchange qs cs w s"
  by (induction rule: handlers_reachable.induct) (simp_all add: handlers_inv_start handlers_inv_step)

section \<open>Properties\<close>

text \<open>
  Property C31 (concurrent requests).  Whatever the interleaving of the handlers and whatever the data plane
  answers, when all have replied there is an order of the requests in which the sequential server leaves the
  same data plane and the same counters, and in which it gives every request other than \<open>/metrics\<close>
  the same reply.
\<close>

theorem concurrent_handlers_linearize:
  assumes "handlers_reachable path exchange qs cs w s" "all_replied s"
  shows "\<exists>order log. distinct order \<and> set order = {..<length qs} \<and>
    serve_requests path exchange (map ((!) qs) order) cs w = (log, hs_counters s, hs_world s) \<and>
    (\<forall>k < length order. qs ! (order ! k) \<noteq> Metrics \<longrightarrow> hs_pcs s ! (order ! k) = Replied (snd (log ! k)))"
proof -
  have inv: "handlers_inv path exchange qs cs w s" by (rule handlers_inv_reachable [OF assms(1)])
  have len: "length (hs_pcs s) = length qs" using inv by (simp add: handlers_inv_def)
  have r: "\<exists>r. hs_pcs s ! i = Replied r" if "i < length qs" for i
    using assms(2) that len by (metis all_replied_def nth_mem)
  then have order: "set (hs_order s) = {..<length qs}" "distinct (hs_order s)"
    using inv by (fastforce simp: handlers_inv_def)+
  have none: "filter ((=) Counted) (hs_pcs s) = []" "filter is_failing (hs_pcs s) = []"
    using assms(2) by (fastforce simp: all_replied_def filter_empty_conv)+
  obtain log c where log: "serve_requests path exchange (map ((!) qs) (hs_order s)) cs w = (log, c, hs_world s)"
      "\<forall>k < length (hs_order s). qs ! (hs_order s ! k) \<noteq> Metrics \<longrightarrow> reply_of (hs_pcs s ! (hs_order s ! k)) = Some (snd (log ! k))"
      "reloads_total (hs_counters s) = reloads_total c" "reload_failures_total (hs_counters s) = reload_failures_total c"
    using inv none by (auto simp: handlers_inv_def)
  have "hs_counters s = c" using log(3,4) by simp
  moreover have "hs_pcs s ! (hs_order s ! k) = Replied (snd (log ! k))"
    if "k < length (hs_order s)" "qs ! (hs_order s ! k) \<noteq> Metrics" for k
  proof -
    have "hs_order s ! k < length qs" using that(1) order(1) nth_mem by blast
    with r that log(2) show ?thesis by fastforce
  qed
  ultimately show ?thesis using order log(1) by blast
qed

text \<open>A malformed post between the two loads of a report of the metrics, with no data plane.\<close>

definition no_dataplane :: "string \<Rightarrow> unit \<Rightarrow> transport \<times> unit" where
  "no_dataplane data w = (DialFailed ''refused'', w)"

definition torn_requests :: "http_request list" where
  "torn_requests = [Policies ''POST'' (Inl ''EOF''), Metrics]"

definition torn_state :: "handler_pc \<Rightarrow> handler_pc \<Rightarrow> u64 \<Rightarrow> u64 \<Rightarrow> nat list \<Rightarrow> unit handlers" where
  "torn_state p q a b order = \<lparr>hs_pcs = [p, q], hs_counters = \<lparr>reloads_total = a, reload_failures_total = b\<rparr>,
     hs_world = (), hs_order = order\<rparr>"

definition malformed_reply :: http_reply where
  "malformed_reply = \<lparr>status_code = 400, reply_body = MalformedBody ''EOF''\<rparr>"

definition torn_report :: http_reply where
  "torn_report = \<lparr>status_code = 200,
     reply_body = MetricsText (metrics_text \<lparr>reloads_total = 0, reload_failures_total = 1\<rparr> 0)\<rparr>"

abbreviation torn_reachable :: "unit handlers \<Rightarrow> bool" where
  "torn_reachable \<equiv> handlers_reachable ''/s'' no_dataplane torn_requests \<lparr>reloads_total = 0, reload_failures_total = 0\<rparr> ()"

lemmas torn_defs = torn_state_def torn_requests_def at_pc_def move_to_def decided_by_def malformed_reply_def

lemma torn_run: "torn_reachable (torn_state (Replied malformed_reply) (Replied torn_report) 1 1 [0, 1])"
proof -
  have "torn_reachable (torn_state Arrived Arrived 0 0 [])"
    using handlers_reachable.start [of "''/s''" no_dataplane torn_requests]
    by (simp add: all_arrived_def torn_state_def torn_requests_def numeral_2_eq_2)
  from step [OF this load_reloads [of _ 1]] have "torn_reachable (torn_state Arrived (LoadedReloads 0) 0 0 [])"
    by (simp add: torn_defs)
  from step [OF this count_post [of _ 0]] have "torn_reachable (torn_state Counted (LoadedReloads 0) 1 0 [])"
    by (simp add: torn_defs)
  from step [OF this decide_post [of _ 0]] have "torn_reachable (torn_state (Failing malformed_reply) (LoadedReloads 0) 1 0 [0])"
    by (simp add: torn_defs post_policy_def fail_with_def)
  from step [OF this count_failure [of _ 0]] have "torn_reachable (torn_state (Replied malformed_reply) (LoadedReloads 0) 1 1 [0])"
    by (simp add: torn_defs)
  from step [OF this load_failures [of _ 1]] have "torn_reachable (torn_state (Replied malformed_reply) (LoadedCounters 0 1) 1 1 [0])"
    by (simp add: torn_defs)
  from step [OF this report_metrics [of _ 1]] show ?thesis
    by (simp add: torn_defs torn_report_def get_metrics_def send_ipc_command_def no_dataplane_def)
qed

theorem concurrent_handlers_linearize_witness:
  "\<exists>order log. distinct order \<and> set order = {..<length torn_requests} \<and>
    serve_requests ''/s'' no_dataplane (map ((!) torn_requests) order) \<lparr>reloads_total = 0, reload_failures_total = 0\<rparr> () =
      (log, \<lparr>reloads_total = 1, reload_failures_total = 1\<rparr>, ())"
proof -
  have "all_replied (torn_state (Replied malformed_reply) (Replied torn_report) 1 1 [0, 1])"
    by (simp add: all_replied_def torn_state_def)
  from concurrent_handlers_linearize [OF torn_run this] show ?thesis
    by (simp add: torn_state_def) blast
qed

text \<open>
  Further fact (a torn report).  \<open>/metrics\<close> loads the two counters one after the other, so that a post between the
  loads shows as a failure and not as a request: the report can have more failures than requests.
\<close>

theorem metrics_report_torn:
  "\<exists>s. torn_reachable s \<and> hs_pcs s ! 1 = Replied \<lparr>status_code = 200,
     reply_body = MetricsText (metrics_text \<lparr>reloads_total = 0, reload_failures_total = 1\<rparr> 0)\<rparr>"
  by (rule exI, rule conjI, rule torn_run) (simp add: torn_state_def torn_report_def)

end
