(* ===== verification/Spec2Isabelle.thy ===== *)
theory Spec2Isabelle
  imports Benchmark_Client Main_Program Matcher_Comparison Control_Shutdown Concurrent_Dataplane Policy_Limits
    Control_Handlers
begin

text \<open>
  A verification development of the DNS security data plane (the C++ program under
  \<open>src/dataplane\<close>) and of its control plane (the Go program \<open>src/controlplane\<close>): a UDP forwarder on the
  loopback interface that answers blocked names itself, relays allowed queries to one upstream resolver,
  caches its answers, and takes new policies over a Unix socket from an HTTP service.

  \<^bold>\<open>The program and the theories\<close>

  A datagram from a client is parsed (\<open>Parser\<close>: \<open>dns/parser.cpp\<close>, on the header of \<open>Protocol\<close>:
  \<open>dns/protocol.h\<close>); its name is looked up in the active policy (\<open>Decision\<close>: \<open>engine/decision.h\<close> and
  \<open>PolicySnapshot\<close> of \<open>runtime/atomic_snapshot.h\<close>, with the rules of \<open>Suffix_Trie\<close>:
  \<open>engine/suffix_trie.cpp\<close>); a blocked name is answered by the response builder (\<open>Response\<close>:
  \<open>dns/response.cpp\<close>); an allowed one from the cache (\<open>Cache\<close>: \<open>engine/cache.cpp\<close>) or, on a miss, it goes
  upstream (\<open>Forwarder\<close>: \<open>dns/forwarder.cpp\<close>), whose response is validated, cached and relayed.  The
  entropy heuristic (\<open>Entropy\<close>: \<open>detection/entropy.h\<close>) only raises alerts.  \<open>Dataplane\<close> composes these
  as \<open>main.cpp\<close> does: \<open>handle_client\<close>, \<open>handle_upstream\<close>, \<open>loop_turn\<close>, \<open>startup\<close>.  The worker thread of
  the control socket (\<open>Ipc\<close>: what one connection does, with the text extraction of
  \<open>runtime/ipc_server.cpp\<close> and the numerals of \<open>Decimal\<close>; \<open>Control_Server\<close>: \<open>start\<close>, \<open>stop\<close> and
  the loop, one after the other; \<open>Control_Shutdown\<close>: \<open>stop\<close> and the loop step by step, interleaved)
  hands policies to the snapshot manager (\<open>Snapshot\<close>: \<open>runtime/atomic_snapshot.cpp\<close>), the one state the two
  threads share.  \<open>Concurrent_Dataplane\<close> runs both threads together, one atomic access of that state at a
  time (\<open>packet_step\<close> for the loop of \<open>main.cpp\<close>, \<open>worker_step\<close> for \<open>handle_command\<close>), with the
  datagrams, requests and replies as labels of a trace.  The control plane (\<open>Control_Plane\<close>:
  \<open>controlplane/main.go\<close>, on the JSON text of \<open>Json_Text\<close>) checks a posted policy, sends it over the socket and
  reads the reply; \<open>Control_Handlers\<close> runs its HTTP handlers at the same time; \<open>Policy_Limits\<close> is about policies longer than the worker's one \<open>read\<close>.
  \<open>Command_Line\<close> is the reading of \<open>argv\<close>, and \<open>Main_Program\<close> the whole of \<open>main\<close> with its set-up, its
  messages and exit codes, \<open>poll\<close> loop and shutdown.  \<open>Resolution\<close> has the lemmas on a query that goes
  upstream and comes back.  \<open>Pattern_Automaton\<close> (\<open>engine/aho_corasick.cpp\<close>) is the substring matcher
  the project measured and rejected, and \<open>Matcher_Comparison\<close> relates it to the trie.  \<open>Common\<close>
  (\<open>include/common\<close>) has the error codes and \<open>Result<T>\<close>, \<open>Prelude\<close> bytes, words, characters, checked
  access and string search, \<open>Rule_Matcher\<close> the interface between policies and matchers.  Two programs
  around the data plane are modelled for what they send it: \<open>Fuzz_Harness\<close>
  (\<open>tests/fuzz_dns_parser.cpp\<close>: the seeds, the mutations and the campaign) and \<open>Benchmark_Client\<close>
  (\<open>offline/benchmarks/runner.py\<close>: the queries, the workloads and the counts).

  \<^bold>\<open>How code becomes definitions\<close>

  A class is a record of its members, an enumeration a datatype, \<open>uint8_t\<close> to \<open>uint64_t\<close> are words of
  their width, a \<open>std::string\<close> is a list of characters, a buffer a list of bytes, an \<open>unordered_map\<close> an
  association list with distinct keys or a function.  A member function takes the record and returns
  it updated.  A C++ error code is \<open>Err e\<close>; \<open>None\<close> is undefined behaviour (an access outside a buffer,
  an invalid iterator, \<open>back\<close> of an empty list), \<open>std::terminate\<close>, or a loop that does not end; so a
  theorem that an operation is \<open>Some\<close> says that it is safe and returns.  Definitions keep the names of
  the code, with a prefix (\<open>cache_\<close>, \<open>trie_\<close>, \<open>ac_\<close>, \<open>ipc_\<close>) where C++ has a class.

  What the program gets from outside is an argument: the steady clock in nanoseconds, the values of
  the random generator (\<open>draws\<close>), whether \<open>sendto\<close> succeeds, what \<open>socket\<close>, \<open>bind\<close>, \<open>listen\<close>,
  \<open>fcntl\<close> and \<open>inet_pton\<close> answer, and the datagrams and connections that arrive.  Two hypotheses state
  documented behaviour of that outside: \<open>recurring\<close>, every non-zero id is drawn again and again (what a
  uniform generator does with probability one; without it \<open>txid_loop_ends_iff\<close> shows that the loop
  need not end), and \<open>fresh_descriptors\<close>, a descriptor just handed out is not one that is open.

  \<^bold>\<open>What the lemmas show\<close>

  Parser: no read outside the buffer on any input, and \<open>decode_name\<close> refines the declarative relation
  \<open>wire_name\<close> of compressed names; encoded queries parse back, and what follows the question never matters
  (\<open>parse_extend\<close>).  Fuzzing harness: every hostile mutation of a seed is rejected with its error code, and the
  counters of a campaign add up for any parser.  Benchmark client: its queries parse back, and its blocked workload is not
  blocked by a data plane without a control plane, in any state it reaches.  Response: every write stays inside the
  vector; the responses parse back to the question.  Suffix trie: it refines the map from label paths to
  rules, through the interpretation of \<open>rule_matcher\<close>.  Automaton: indices stay in range, the loops of
  \<open>build\<close> end, and \<open>search\<close> equals the naive search.  Decision: the two engines agree.  Snapshot: the
  generation only grows, for any candidates and for any interleaving of one writer with readers.  Cache:
  hash table, list and stored iterators refine one list in order of use; the interpretation of
  \<open>answer_cache\<close> gives the origin of hits and the retention of entries.  Forwarder: what is sent and what
  is accepted; the interpretation of \<open>query_matcher\<close> gives one answer per query.  Control socket: a
  policy as the control plane writes it is read back exactly, and nothing else changes the policy;
  the lists of a request, not their order, decide what is blocked;
  its life cycle leaks no descriptor, and in every interleaving with the worker \<open>stop\<close> waits for nothing but
  the \<open>read\<close> from a client that stays silent, which holds it forever, and when it returns the two threads have
  done what \<open>ipc_stop\<close> and \<open>listen_loop\<close> do one after the other.  Main program: it returns unless the loop is
  never left or such a client holds the worker, with the exit code of its set-up and without a leak.  Data
  plane: the invariant \<open>dp_inv\<close> of all runs, from which every reply is justified by a received query and by
  policy, cache or upstream.  Two threads: the same for every interleaving (\<open>conc_inv\<close>, with \<open>packet_inv\<close>,
  what is left of \<open>dp_inv\<close> between the two stores of an update); the worker refines the sequential server
  \<open>serve_all\<close>; and what is confirmed is enforced, since no load after a confirmation is older than it.  The
  sequential runs are among the interleavings (\<open>sequential_run_is_interleaving\<close>).  JSON: strings round-trip
  (\<open>lex_go_escape\<close>), and the texts of the data plane are read back field by field.  Control plane: a post installs
  its policy or reports why not, and the counters say which; concurrent handlers do what they do one after the
  other in the order in which they are decided (\<open>handlers_inv\<close>).  This theory has the properties that need
  the composition of policy update and packet path, up to \<open>activated_policy_is_enforced\<close>: from the 200 of
  the HTTP service to the NXDOMAIN on the wire.

  Some theorems, most of them further facts beside the properties, record where the code does less than it means to: the seed policy that is
  rejected, the policy that loses its rules at the end of the one \<open>read\<close>, the silent client that holds \<open>stop\<close>, the version hash that makes an
  installed policy look refused, the response that uses up a query it does not answer, entries that never apply
  because of their letter case, the socket path that is not removed.

  \<^bold>\<open>Bounds\<close>

  A packet has at most 4096 bytes, a name 253 characters, a label 63 and a name eight compression
  pointers (the constants of \<open>protocol.h\<close>); the cache holds 10000 answers and the forwarder 2048
  transactions, both as in the code, and the invariants keep them.  One control request is read up to
  8191 bytes; the bytes that the buffer of the socket takes beyond that are the parameter \<open>room\<close> of
  \<open>dataplane_exchange\<close>.  No definition runs on fuel: loops recurse structurally, with a measure, or as
  \<open>partial_function (option)\<close> with a theorem that says when they return (\<open>txid_loop_ends_iff\<close>,
  \<open>automaton_computes_naive_search\<close>, \<open>main_loop_returns_iff\<close>; the event loop of \<open>main\<close> runs on an infinite stream of
  ticks and need not return).  Time points of the steady clock are integers without bound, 64-bit in the
  code.  Sizes and indices are natural numbers: a
  \<open>size_t\<close> is bounded by an object in memory, and an \<open>int\<close> index of the automaton by its number of
  nodes, which \<open>automaton_size\<close> bounds by the characters inserted.  The counters of the control plane are 64-bit
  words and wrap; its \<open>Read\<close> returns at most 8192 bytes, more than any response whose hash came in one request
  of 8191.

  \<^bold>\<open>Not modelled\<close>

  The lines printed inside the event loop (but the entropy alerts), \<open>setsockopt\<close>, the installation of the signal handlers and how
  long \<open>poll\<close> waits.  Rounding of \<open>double\<close> in the entropy (real numbers here).  The bit-field struct
  \<open>Header\<close>, which nothing uses.  The mutex of the cache, which only the main thread takes.  Exceptions of
  the C++ library for want of memory or threads.  Memory orders: the interleavings of the threads are
  sequentially consistent, and that a blocked \<open>accept\<close> fails once its socket is shut down is built into the step
  relation.  \<open>SIGPIPE\<close>, which the program does not ignore and which ends it when a control client is gone before
  its reply is written: the clients modelled wait for their reply.  Of the control plane: the flags, the log, the HTTP server with its timeouts, the decoding of
  a request body (its result is an argument) and the JSON text of a reply (its status and values are modelled);
  the properties that join both programs let one HTTP handler run at a time.  Go strings are taken to be valid UTF-8.  The
  latencies, percentiles and the thread pool of the benchmark client (binary floating point and time), the
  plots, the files and reports of the fuzzing harness, the unit tests and the matcher benchmarks, which call
  the code on fixed inputs and measure time.
\<close>

section \<open>Library for the properties of the whole\<close>

lemma suffix_rule_in_request:
  assumes "d \<in> set ss" "labels_of d \<noteq> []" "suffix (labels_of d) (labels_of n)"
  shows "fst (trie_matches (build_trie (zip ss (map (\<lambda>i. word_of_nat (i + 1)) [0..<length ss]))) n)"
proof -
  obtain i where i: "i < length ss" "ss ! i = d" using assms(1) by (auto simp: in_set_conv_nth)
  then have "(d, word_of_nat (i + 1)) \<in> set (zip ss (map (\<lambda>i. word_of_nat (i + 1)) [0..<length ss]))"
    by (auto simp: in_set_zip intro!: exI [of _ i] simp del: of_nat_add of_nat_Suc)
  with assms(2,3) show ?thesis unfolding matches_build_iff by blast
qed

lemma serve_policy_request:
  assumes "plain_request g h ss es als" "CHR 0x00 \<notin> set (policy_request g h ss es als)"
    and "length (policy_request g h ss es als) \<le> 8191"
    and "global_generation m < word_of_nat g" "h \<noteq> []"
  shows "snd (serve_connection (policy_request g h ss es als) m) =
    m\<lparr>active_snapshot := \<lparr>generation = word_of_nat g, version_hash = h,
       ps_suffix_trie = build_trie (zip ss (map (\<lambda>i. word_of_nat (i + 1)) [0..<length ss])),
       exact_blocks = set es, allowlist = set als\<rparr>, global_generation := word_of_nat g\<rparr>"
proof -
  have "policy_request g h ss es als \<noteq> []" by (simp add: policy_request_def)
  from serve_short [OF assms(3) this assms(2)] show ?thesis
    using build_candidate_request [OF assms(1)] handle_command_apply [OF request_command, of g h ss es als m] assms(4,5)
    by (simp add: Let_def acceptable_def)
qed

lemma error_bytes_header:
  "wire_header_parse (error_bytes q rc) = Some (error_header q rc)"
  by (simp add: error_bytes_def)

lemma reply_200:
  assumes "post_policy path exchange (Inr p) cs w = (r, cs', w')" "status_code r = 200"
    and "exchange (marshal_message (apply_message p) @ newline) w = (Delivered resp, w1)"
  shows "\<exists>x. unmarshal_reply (take 8192 resp) = Some x \<and> ir_status x = ''OK''"
  using assms
  by (auto simp: post_policy_def send_ipc_command_def fail_with_def Let_def split: if_splits option.splits)

lemma rejected_not_OK:
  assumes "err \<in> {''Candidate generation must be > active generation'', ''Candidate missing cryptographic version hash''}"
    and "unmarshal_reply (take 8192 (rejected_text m err)) = Some x"
  shows "ir_status x \<noteq> ''OK''"
proof -
  have "plain_text err" using assms(1) plain_errors by auto
  moreover have "length (rejected_text m err) \<le> 8192"
    using assms(1) dec_string_u64_length [of "global_generation m"] by (auto simp: rejected_text_def newline_def)
  ultimately show ?thesis using assms(2) unmarshal_rejected [of err m] by auto
qed

lemma candidate_of_body:
  assumes "plain_body p" "length (marshal_message (apply_message p) @ newline) \<le> 8191"
  shows "candidate (marshal_message (apply_message p) @ newline) = installed_policy p"
    and "command_of (marshal_message (apply_message p) @ newline) = ''APPLY_POLICY''"
  unfolding candidate_def command_of_def apply_request_read [OF assms(2)]
  using apply_candidate_of_body [OF assms(1)] request_command by (simp_all add: marshal_apply)

definition sinkhole_body :: policy_body where
  "sinkhole_body = \<lparr>pb_generation = 2, pb_version_hash = ''v2'', pb_suffix_blocks = [],
     pb_exact_blocks = [''sinkhole.test''], pb_allowlist = []\<rparr>"

lemma sinkhole_body_policy:
  "sample_policy = marshal_message (apply_message sinkhole_body) @ newline" "plain_body sinkhole_body"
  "length (marshal_message (apply_message sinkhole_body) @ newline) \<le> 8191"
proof -
  have e: "go_escape ''v2'' = ''v2''" "go_escape ''sinkhole.test'' = ''sinkhole.test''" by code_simp+
  show s: "sample_policy = marshal_message (apply_message sinkhole_body) @ newline"
    unfolding marshal_apply sample_policy_def by (simp add: sinkhole_body_def e)
  have "length sample_policy \<le> 8191" by code_simp
  then show "length (marshal_message (apply_message sinkhole_body) @ newline) \<le> 8191" unfolding s .
  show "plain_body sinkhole_body"
    by (simp add: plain_body_def plain_request_def plain_def request_keys_def sinkhole_body_def e)
qed

section \<open>Properties\<close>

text \<open>
  Property C1 (an activated policy is enforced).  Suppose the control plane posts a policy whose strings are
  plain (as JSON writes them they have no quote or closing bracket and are no key name) and whose request
  fits the one read of 8191 bytes, and, from the bytes the worker wrote, replies 200 to its client.  (A
  longer request can be answered 200 and lose its rules: \<open>oversized_policy_loses_its_rules\<close>.)  Then, however the threads of the
  data plane interleave, a query received after those bytes were written, for a name the policy blocks,
  gets the NXDOMAIN response to it and nothing else, as long as every policy requested since blocks the
  name too.
\<close>

theorem activated_policy_is_enforced:
  assumes "conc_run quiet (start_state f) (xs @ Reply data resp # ys @ Receive buf a # zs @ [Send out]) s"
    and "pending_tx f = []" "\<forall>o'. Send o' \<notin> set zs"
    and "data = marshal_message (apply_message p) @ newline" "plain_body p" "length data \<le> 8191"
    and "post_policy path (\<lambda>d w. (Delivered resp, w)) (Inr p) cs w = (r, cs', w')" "status_code r = 200"
    and "parse buf = Some (Ok q)" "policy_blocks (installed_policy p) (qname (question q))"
    and "requests_block (qname (question q)) (ys @ zs)"
  shows "\<exists>b. build_error_response q NXDOMAIN = Some b \<and> filter is_send out = [ToClient a b]"
proof -
  note c = candidate_of_body [OF assms(5) assms(6) [unfolded assms(4)], folded assms(4)]
  obtain s1 s2 where r: "conc_run quiet (start_state f) xs s1" "conc_step quiet s1 (Reply data resp) s2"
    using assms(1) by (auto simp: conc_run_append run_Cons)
  have "sound (upstream_addr f) s1" using run_sound [OF r(1)] sound_start [OF assms(2)] by blast
  obtain x where x: "unmarshal_reply (take 8192 resp) = Some x" "ir_status x = ''OK''"
    using reply_200 [OF assms(7,8) refl] by blast
  from r(2) \<open>sound (upstream_addr f) s1\<close> c(2) have "confirms data resp"
  proof (cases rule: apply_reply_cases)
    case accepted
    then show ?thesis using c(2) by (simp add: confirms_def accepted_text_def)
  next
    case (rejected err)
    then show ?thesis using rejected_not_OK [of err "manager s2" x] x by simp
  qed
  with confirmed_block [OF assms(1,2) _ assms(3,9)] c(1) assms(10,11) show ?thesis by simp
qed

theorem activated_policy_is_enforced_witness:
  "\<exists>xs zs resp out s q r w. conc_run True (start_state open_forwarder)
      (xs @ Reply sample_policy resp # [] @ Receive sample_query sample_client # zs @ [Send out]) s \<and>
     post_policy ''/s'' (\<lambda>d w. (Delivered resp, w)) (Inr sinkhole_body) \<lparr>reloads_total = 0, reload_failures_total = 0\<rparr> () =
       (r, w) \<and> status_code r = 200 \<and>
     (\<exists>b. build_error_response q NXDOMAIN = Some b \<and> filter is_send out = [ToClient sample_client b])"
proof -
  obtain k resp g out s q where r: "conc_run True (start_state open_forwarder)
      (([Internal, Internal] @ Request sample_policy # replicate k Internal) @
       Reply sample_policy resp # [] @ Receive sample_query sample_client #
       [Internal, Decide (candidate sample_policy) 2 out] @ [Send out]) s"
    "confirms sample_policy resp" and q: "parse sample_query = Some (Ok q)" "qname (question q) = ''sinkhole.test''"
    by (rule sample_conc_run)
  obtain s1 s2 where st: "conc_run True (start_state open_forwarder) ([Internal, Internal] @ Request sample_policy # replicate k Internal) s1"
      "conc_step True s1 (Reply sample_policy resp) s2"
    using r(1) unfolding conc_run_append run_Cons by blast
  have "sound (upstream_addr open_forwarder) s1" using run_sound [OF st(1)] sound_start [OF open_forwarder_idle] by blast
  from st(2) this sample_candidate(2) have "\<exists>m. resp = accepted_text m (version_hash (candidate sample_policy))"
  proof (cases rule: apply_reply_cases)
    case (rejected err)
    with r(2) show ?thesis by (simp add: confirms_def rejected_text_def)
  qed blast
  then obtain m where m: "resp = accepted_text m ''v2''" by (auto simp: sample_candidate(1))
  have e: "go_escape ''v2'' = ''v2''" by code_simp
  have "length resp \<le> 8192"
    using dec_string_u64_length [of "global_generation m"] by (simp add: m accepted_length)
  then have "unmarshal_reply (take 8192 resp) =
      Some (empty_reply\<lparr>ir_status := ''OK'', ir_active_generation := global_generation m, ir_version_hash := ''v2''\<rparr>)"
    using unmarshal_accepted [of m "''v2''"] by (simp add: m e)
  then obtain hr w where p: "post_policy ''/s'' (\<lambda>d w. (Delivered resp, w)) (Inr sinkhole_body)
      \<lparr>reloads_total = 0, reload_failures_total = 0\<rparr> () = (hr, w)" "status_code hr = 200"
    by (simp add: post_policy_def send_ipc_command_def sinkhole_body_def)
  obtain cs' w' where w: "w = (cs', w')" by (cases w)
  have "installed_policy sinkhole_body = candidate sample_policy"
    unfolding sinkhole_body_policy(1) by (rule candidate_of_body(1) [OF sinkhole_body_policy(2,3), symmetric])
  then have "policy_blocks (installed_policy sinkhole_body) (qname (question q))"
    by (simp add: q(2) policy_blocks_def sample_candidate(1))
  from activated_policy_is_enforced [OF r(1) open_forwarder_idle _ sinkhole_body_policy(1,2) _ p(1) [unfolded w] p(2) q(1) this]
  have "\<exists>b. build_error_response q NXDOMAIN = Some b \<and> filter is_send out = [ToClient sample_client b]"
    using sinkhole_body_policy(1,3) by (auto simp: requests_block_def)
  with r(1) p show ?thesis by blast
qed

text \<open>
  Property C4 (from the control plane to the client).  In any state of the data plane: when the control plane
  sends a policy of a newer generation with a version hash, whose strings are plain and whose request fits
  the one read of 8191 bytes, with a suffix rule that has a label, the next query for a name under that
  rule, in any letter case, is answered with NXDOMAIN under the query's id, and nothing goes upstream,
  unless the name is on the policy's allowlist.
\<close>

theorem blocked_subdomain_end_to_end:
  assumes "plain_request g h ss es als" "CHR 0x00 \<notin> set (policy_request g h ss es als)"
    and "length (policy_request g h ss es als) \<le> 8191" "h \<noteq> []"
    and "global_generation (dp_manager s) < word_of_nat g" "d \<in> set ss" "labels_of d \<noteq> []"
    and "\<forall>l \<in> set ls. valid_label l" "length (name_text ls) \<le> 253" "wh_opcode hq = 0" "wh_qdcount hq = 1"
    and "length (query_bytes hq ls t c) \<le> 4096"
    and "suffix (labels_of d) (labels_of (name_text ls))" "name_text ls \<notin> set als"
  shows "\<exists>out s2 resp hr.
    dp_run draws quiet [Control (policy_request g h ss es als), Turn e (Some (query_bytes hq ls t c, addr)) None] s =
      Some (out, s2) \<and>
    filter is_send out = [ToClient addr resp] \<and> wire_header_parse resp = Some hr \<and>
    wh_id hr = wh_id hq \<and> is_response hr \<and> wh_rcode hr = rcode_code NXDOMAIN"
proof -
  let ?req = "policy_request g h ss es als" and ?d = "query_bytes hq ls t c"
  let ?s1 = "control_event ?req s" and ?n = "name_text ls"
  have snap: "active_snapshot (dp_manager ?s1) = \<lparr>generation = word_of_nat g, version_hash = h,
     ps_suffix_trie = build_trie (zip ss (map (\<lambda>i. word_of_nat (i + 1)) [0..<length ss])),
     exact_blocks = set es, allowlist = set als\<rparr>"
    using serve_policy_request [OF assms(1-3) assms(5,4)] by (simp add: control_event_def)
  have blocks: "policy_blocks (active_snapshot (dp_manager ?s1)) ?n"
    unfolding snap policy_blocks_def using suffix_rule_in_request [OF assms(6,7,13)] assms(14) by simp
  have "length (?d @ []) \<le> 4096" using assms(12) by simp
  from parse_query_bytes [OF assms(8-11) this]
  obtain q where q: "parse ?d = Some (Ok q)" "qname (question q) = ?n" "pp_header q = hq" by simp
  have "?d \<noteq> []" using length_query_bytes [of hq ls t c] by auto
  then have run: "dp_run draws quiet [Control ?req, Turn e (Some (?d, addr)) None] s =
      Some (alerts_for quiet ?n @ [ToClient addr (error_bytes q NXDOMAIN)], ?s1)"
    using handle_client_Ok [OF q(1)] blocks q(2)
    by (simp add: loop_turn_def when_ready_def client_event_def receive_short [OF assms(12)])
  then show ?thesis
    using error_header_fields [of q NXDOMAIN] q(3)
    by (intro exI [of _ "alerts_for quiet ?n @ [ToClient addr (error_bytes q NXDOMAIN)]"] exI [of _ ?s1]
        exI [of _ "error_bytes q NXDOMAIN"] exI [of _ "error_header q NXDOMAIN"])
      (simp add: error_bytes_header error_header_def)
qed

theorem blocked_subdomain_end_to_end_witness:
  "\<exists>out s2 resp hr.
    dp_run word_of_nat True [Control (policy_request 2 ''v2'' [''ex''] [] []),
      Turn sample_env (Some (query_bytes sample_header sample_labels 1 1, sample_client)) None] (startup open_forwarder) =
      Some (out, s2) \<and>
    filter is_send out = [ToClient sample_client resp] \<and> wire_header_parse resp = Some hr \<and>
    wh_id hr = wh_id sample_header \<and> is_response hr \<and> wh_rcode hr = rcode_code NXDOMAIN"
proof (rule blocked_subdomain_end_to_end)
  show "plain_request 2 ''v2'' [''ex''] [] []" by (simp add: plain_request_def plain_def request_keys_def)
  show "global_generation (dp_manager (startup open_forwarder)) < word_of_nat 2"
    by (simp add: startup_manager init_manager_def)
  have "name_text sample_labels = ''www.ex''" by code_simp
  moreover have "suffix (labels_of ''ex'') (labels_of ''www.ex'')" by code_simp
  ultimately show "suffix (labels_of ''ex'') (labels_of (name_text sample_labels))" by simp
  show "labels_of ''ex'' \<noteq> []" by code_simp
qed (code_simp | simp)+

section \<open>Resolution through the forwarder and the cache\<close>

text \<open>
  Property C5 (resolution and caching).  For an accepted query that the snapshot allows, that is not the sinkhole
  name and that the cache does not hold, with an open socket, a \<open>sendto\<close> that succeeds and fewer than 2048
  transactions that have not expired, the handler sends the query upstream under an id that is not 0 and
  that no transaction but an expired one holds.  If the next event is a response from the upstream address
  under that id, to the same name and type, it goes to the client unchanged but for the client's own id;
  and if the event after that is a query of class IN for the name and type, within 60 seconds and under
  the same snapshot and generation, it is answered with that response from the cache, under its own id,
  without asking upstream again.
\<close>

theorem resolve_then_cache:
  assumes "parse buf = Some (Ok q)" "\<not> policy_blocks snap (qname (question q))" "qname (question q) \<noteq> ''sinkhole.test''"
    and "cache_inv (dp_cache s)" "0 < max_entries (dp_cache s)"
    and "cache_content (dp_cache s) (qname (question q), qtype (question q), qclass (question q)) = None"
    and "fw_inv (dp_forwarder s)" "0 \<le> socket_fd (dp_forwarder s)" "recurring draws" "forward_sent e"
    and "length (filter (\<lambda>x. \<not> expired (forward_now e) (snd x)) (pending_tx (dp_forwarder s))) < 2048"
  shows "\<exists>out1 s1 txid.
    handle_client draws quiet e snap g buf addr s = Some (out1, s1) \<and>
    filter is_send out1 = [ToUpstream (upstream_addr (dp_forwarder s)) (hi8 txid # lo8 txid # drop 2 buf)] \<and>
    txid \<noteq> 0 \<and> (\<forall>tx. (txid, tx) \<in> set (pending_tx (dp_forwarder s)) \<longrightarrow> expired (forward_now e) tx) \<and>
    (\<forall>r p e2. parse r = Some (Ok p) \<and> is_response (pp_header p) \<and> wh_id (pp_header p) = txid \<and>
        qname (question p) = qname (question q) \<and> qtype (question p) = qtype (question q) \<longrightarrow>
      (\<exists>s2. handle_upstream e2 g r (upstream_addr (dp_forwarder s)) s1 =
          Some ([ToClient addr (hi8 (wh_id (pp_header q)) # lo8 (wh_id (pp_header q)) # drop 2 r)], s2) \<and>
        (\<forall>buf3 q3 addr3 e3. parse buf3 = Some (Ok q3) \<and> qname (question q3) = qname (question q) \<and>
            qtype (question q3) = qtype (question q) \<and> qclass (question q3) = 1 \<and>
            lookup_now e3 < insert_now e2 + 60 * 10 ^ 9 \<longrightarrow>
          (\<exists>out3 s3. handle_client draws quiet e3 snap g buf3 addr3 s2 = Some (out3, s3) \<and>
            filter is_send out3 =
              [ToClient addr3 (hi8 (wh_id (pp_header q3)) # lo8 (wh_id (pp_header q3)) # drop 2 r)]))))"
proof -
  have "cache_ok (dp_cache s)" using assms(4,5) by (simp add: cache_ok_def)
  from miss_goes_upstream [OF assms(1-3) this assms(6-11), of quiet g addr] obtain out1 s1 txid tx where
    first: "handle_client draws quiet e snap g buf addr s = Some (out1, s1)"
      "filter is_send out1 = [ToUpstream (upstream_addr (dp_forwarder s)) (hi8 txid # lo8 txid # drop 2 buf)]"
      "txid \<noteq> 0" "\<forall>tx. (txid, tx) \<in> set (pending_tx (dp_forwarder s)) \<longrightarrow> expired (forward_now e) tx"
    and s1: "cache_ok (dp_cache s1)" "upstream_addr (dp_forwarder s1) = upstream_addr (dp_forwarder s)"
      "map_of (pending_tx (dp_forwarder s1)) txid = Some tx"
    and tx: "client_txid tx = wh_id (pp_header q)" "client_addr tx = addr"
      "expected_qname tx = qname (question q)" "expected_qtype tx = qtype (question q)"
    by blast
  have "\<exists>s2. handle_upstream e2 g r (upstream_addr (dp_forwarder s)) s1 =
          Some ([ToClient addr (hi8 (wh_id (pp_header q)) # lo8 (wh_id (pp_header q)) # drop 2 r)], s2) \<and>
        (\<forall>buf3 q3 addr3 e3. parse buf3 = Some (Ok q3) \<and> qname (question q3) = qname (question q) \<and>
            qtype (question q3) = qtype (question q) \<and> qclass (question q3) = 1 \<and>
            lookup_now e3 < insert_now e2 + 60 * 10 ^ 9 \<longrightarrow>
          (\<exists>out3 s3. handle_client draws quiet e3 snap g buf3 addr3 s2 = Some (out3, s3) \<and>
            filter is_send out3 =
              [ToClient addr3 (hi8 (wh_id (pp_header q3)) # lo8 (wh_id (pp_header q3)) # drop 2 r)]))"
    if r: "parse r = Some (Ok p)" "is_response (pp_header p)" "wh_id (pp_header p) = txid"
      "qname (question p) = qname (question q)" "qtype (question p) = qtype (question q)" for r p e2
  proof -
    have len: "2 \<le> length r" using parse_header [OF r(1)] by simp
    obtain s2 where s2: "handle_upstream e2 g r (upstream_addr (dp_forwarder s)) s1 =
        Some ([ToClient addr (hi8 (wh_id (pp_header q)) # lo8 (wh_id (pp_header q)) # drop 2 r)], s2)"
      "cache_inv (dp_cache s2)"
      "map_of (cache_view (dp_cache s2)) (make_key (qname (question q)) (qtype (question q)) 1) =
        Some (r, insert_now e2 + 60 * 10 ^ 9, g)"
      using response_relayed_and_filed [OF r(1,2) s1(1), of tx e2 g] s1 tx r by auto
    with answered_from_cache [where r = r and s = s2 and g = g and x = "insert_now e2 + 60 * 10 ^ 9"] assms(2,3) len
    show ?thesis by (intro exI [of _ s2]) simp
  qed
  with first show ?thesis by blast
qed

theorem resolve_then_cache_witness:
  "\<exists>q out1 s1 txid. parse (query_bytes sample_header sample_labels 1 1) = Some (Ok q) \<and>
    handle_client word_of_nat True sample_env bootstrap_snapshot 1 (query_bytes sample_header sample_labels 1 1)
      sample_client (startup open_forwarder) = Some (out1, s1) \<and>
    filter is_send out1 = [ToUpstream (upstream_addr open_forwarder)
      (hi8 txid # lo8 txid # drop 2 (query_bytes sample_header sample_labels 1 1))]"
proof -
  let ?d = "query_bytes sample_header sample_labels 1 1" and ?s = "startup open_forwarder"
  obtain q where q: "parse ?d = Some (Ok q)" "qname (question q) = ''www.ex''"
  proof -
    have "\<forall>l \<in> set sample_labels. valid_label l" "length (name_text sample_labels) \<le> 253"
      "wh_opcode sample_header = 0" "wh_qdcount sample_header = 1" "length (?d @ []) \<le> 4096"
      "name_text sample_labels = ''www.ex''"
      by code_simp+
    from parse_query_bytes [OF this(1-5)] this(6) show ?thesis using that by simp
  qed
  have "\<not> policy_blocks bootstrap_snapshot (qname (question q))"
    using bootstrap_blocks_nothing by (simp add: init_manager_def)
  moreover have "qname (question q) \<noteq> ''sinkhole.test''" using q(2) by simp
  moreover have "cache_inv (dp_cache ?s)" "0 < max_entries (dp_cache ?s)"
    "cache_content (dp_cache ?s) (qname (question q), qtype (question q), qclass (question q)) = None"
    using new_cache_ok [of 10000] by (simp_all add: startup_def cache_ok_def)
  moreover have "fw_inv (dp_forwarder ?s)" "0 \<le> socket_fd (dp_forwarder ?s)"
    "length (filter (\<lambda>x. \<not> expired (forward_now sample_env) (snd x)) (pending_tx (dp_forwarder ?s))) < 2048"
    by (simp_all add: startup_def open_forwarder_def new_forwarder_def fw_inv_def)
  moreover have "forward_sent sample_env" by (simp add: sample_env_def)
  moreover have "upstream_addr (dp_forwarder ?s) = upstream_addr open_forwarder" by (simp add: startup_def)
  ultimately show ?thesis
    using resolve_then_cache [OF q(1) _ _ _ _ _ _ _ recurring_word_of_nat, of bootstrap_snapshot ?s sample_env True 1 sample_client]
      q(1) by fastforce
qed

text \<open>
  Further fact (exact entries are not normalised).  The names of accepted queries are in lower case and
  hold no control byte; an exact block or an allowlist entry that is not, as the control socket takes them
  over unchanged, is dead: it changes no decision on any packet.  Suffix rules are normalised.
\<close>

theorem unnormalized_entry_never_applies:
  assumes "parse buf = Some (Ok q)" "\<not> normalized d"
  shows "snapshot_evaluate (s\<lparr>exact_blocks := insert d (exact_blocks s)\<rparr>) (qname (question q)) =
      snapshot_evaluate s (qname (question q)) \<and>
    snapshot_evaluate (s\<lparr>allowlist := insert d (allowlist s)\<rparr>) (qname (question q)) =
      snapshot_evaluate s (qname (question q))"
proof -
  have "qname (question q) \<noteq> d" using parse_Ok_question(5) [OF assms(1)] assms(2) by auto
  then show ?thesis by (simp add: snapshot_evaluate_def)
qed

theorem unnormalized_entry_never_applies_witness:
  "\<exists>q. parse (query_bytes sample_header [map char_byte ''evil'', map char_byte ''test''] 1 1) = Some (Ok q) \<and>
    qname (question q) = ''evil.test'' \<and>
    dec_action (snapshot_evaluate (new_snapshot\<lparr>exact_blocks := insert ''Evil.test'' (exact_blocks new_snapshot)\<rparr>)
      (qname (question q))) = ALLOW"
proof -
  let ?ls = "[map char_byte ''evil'', map char_byte ''test'']"
  have "\<forall>l \<in> set ?ls. valid_label l" "length (name_text ?ls) \<le> 253"
    "wh_opcode sample_header = 0" "wh_qdcount sample_header = 1" "length (query_bytes sample_header ?ls 1 1 @ []) \<le> 4096"
    "name_text ?ls = ''evil.test''"
    by code_simp+
  from parse_query_bytes [OF this(1-5)] this(6)
  obtain q where q: "parse (query_bytes sample_header ?ls 1 1) = Some (Ok q)" "qname (question q) = ''evil.test''" by simp
  have "tolower CHR ''E'' \<noteq> CHR ''E''" by code_simp
  then have "\<not> normalized ''Evil.test''" by simp
  from unnormalized_entry_never_applies [OF q(1) this, of new_snapshot]
  have "dec_action (snapshot_evaluate (new_snapshot\<lparr>exact_blocks := insert ''Evil.test'' (exact_blocks new_snapshot)\<rparr>)
      (qname (question q))) = dec_action (snapshot_evaluate new_snapshot (qname (question q)))" by simp
  also have "\<dots> = ALLOW"
    using bootstrap_blocks_nothing [of "qname (question q)"]
    by (simp add: snapshot_action policy_blocks_def init_manager_def bootstrap_snapshot_def)
  finally show ?thesis using q by blast
qed

text \<open>
  Further fact (an answer in flight).  Whatever policy is installed meanwhile, the answer to a query that was
  forwarded before is relayed to its client and filed in the cache under the new generation, also when the new
  policy blocks the name.
\<close>

theorem answer_in_flight_relayed_after_block:
  fixes data :: string
  assumes "parse r = Some (Ok p)" "is_response (pp_header p)" "cache_inv (dp_cache s)" "0 < max_entries (dp_cache s)"
    and "map_of (pending_tx (dp_forwarder s)) (wh_id (pp_header p)) = Some tx"
    and "qname (question p) = expected_qname tx" "qtype (question p) = expected_qtype tx"
  defines "s1 \<equiv> control_event data s"
  shows "\<exists>s2. handle_upstream e (global_generation (dp_manager s1)) r (upstream_addr (dp_forwarder s1)) s1 =
      Some ([ToClient (client_addr tx) (hi8 (client_txid tx) # lo8 (client_txid tx) # drop 2 r)], s2) \<and>
    map_of (cache_view (dp_cache s2)) (make_key (qname (question p)) (qtype (question p)) 1) =
      Some (r, insert_now e + 60 * 10 ^ 9, global_generation (dp_manager s1))"
proof -
  have "dp_cache s1 = dp_cache s" "dp_forwarder s1 = dp_forwarder s" by (simp_all add: s1_def control_event_def)
  with response_relayed_and_filed [OF assms(1,2), of s1 tx e "global_generation (dp_manager s1)"] assms(3-7)
  show ?thesis by (auto simp: cache_ok_def)
qed

theorem answer_in_flight_relayed_after_block_witness:
  "\<exists>p out s2. parse chaos_reply = Some (Ok p) \<and>
    policy_blocks (active_snapshot (dp_manager (control_event (policy_request 2 ''v2'' [] [''www.ex''] []) waiting_dataplane)))
      (qname (question p)) \<and>
    handle_upstream sample_env 2 chaos_reply (upstream_addr open_forwarder)
      (control_event (policy_request 2 ''v2'' [] [''www.ex''] []) waiting_dataplane) = Some (out, s2) \<and> out \<noteq> []"
proof -
  let ?d = "policy_request 2 ''v2'' [] [''www.ex''] []"
  obtain p where p: "parse chaos_reply = Some (Ok p)" "is_response (pp_header p)" "wh_id (pp_header p) = 1"
      "qname (question p) = ''www.ex''" "qtype (question p) = 1"
  proof -
    have "case parse chaos_reply of Some (Ok p) \<Rightarrow> is_response (pp_header p) \<and> wh_id (pp_header p) = 1 \<and>
        qname (question p) = ''www.ex'' \<and> qtype (question p) = 1 | _ \<Rightarrow> False" by code_simp
    then show ?thesis using that by (auto split: option.splits result.splits)
  qed
  have w: "cache_inv (dp_cache waiting_dataplane)" "0 < max_entries (dp_cache waiting_dataplane)"
    "dp_manager waiting_dataplane = init_manager" "dp_forwarder waiting_dataplane = waiting_forwarder"
    using new_cache_inv by (simp_all add: waiting_dataplane_def startup_def seed_rejected) (simp add: new_cache_def)
  obtain tx where tx: "map_of (pending_tx waiting_forwarder) 1 = Some tx" "expected_qname tx = ''www.ex''" "expected_qtype tx = 1"
  proof -
    have "case map_of (pending_tx waiting_forwarder) 1 of Some tx \<Rightarrow> expected_qname tx = ''www.ex'' \<and> expected_qtype tx = 1 | _ \<Rightarrow> False"
      by code_simp
    then show ?thesis using that by (auto split: option.splits)
  qed
  have up: "upstream_addr waiting_forwarder = upstream_addr open_forwarder" by code_simp
  have r: "plain_request 2 ''v2'' [] [''www.ex''] []" "CHR 0x00 \<notin> set ?d" "length ?d \<le> 8191"
    by (simp add: plain_request_def plain_def request_keys_def) code_simp+
  have g: "global_generation init_manager < word_of_nat 2" by (simp add: init_manager_def)
  have snap: "exact_blocks (active_snapshot (dp_manager (control_event ?d waiting_dataplane))) = {''www.ex''}"
    "allowlist (active_snapshot (dp_manager (control_event ?d waiting_dataplane))) = {}"
    using serve_policy_request [OF r g] by (simp_all add: control_event_def w(3))
  have gen: "global_generation (dp_manager (control_event ?d waiting_dataplane)) = 2"
    using serve_policy_request [OF r g] by (simp add: control_event_def w(3))
  have fwd: "dp_forwarder (control_event ?d waiting_dataplane) = waiting_forwarder" by (simp add: control_event_def w(4))
  from answer_in_flight_relayed_after_block [OF p(1,2) w(1,2), of tx sample_env ?d] tx p snap gen
  show ?thesis by (simp add: w(4) fwd up policy_blocks_def) blast
qed

end
